(* ===== verification/Prelude.thy ===== *)
theory Prelude
  imports Main "HOL-Library.Word" "HOL-Library.Monad_Syntax"
begin

section \<open>Machine types, byte blocks and arithmetic shared by the components\<close>

text \<open>
  The kernel is compiled for i386: \<open>size_t\<close>, pointers and \<open>uint32_t\<close> are 32 bits wide, so
  all of them are modelled as \<open>32 word\<close> and arithmetic on them wraps around as in C.

  A C operation that can trap or run into undefined behaviour (a division by zero, an access
  through NULL or outside an allocated block, a call of \<open>abort\<close>) has an \<open>option\<close> result:
  \<open>None\<close> stands for "the call does not return". Status codes are ordinary return values.

  The theory holds: the type synonyms, reads and writes of a block of bytes, C's remainder and
  truncating division, and the conversions between words and natural numbers.
\<close>

unbundle bit_operations_syntax

type_synonym u8 = "8 word"
type_synonym u16 = "16 word"
type_synonym u32 = "32 word"
type_synonym u64 = "64 word"
type_synonym bytes = "u8 list"

named_theorems mem_simps \<open>byte blocks and guarded arithmetic\<close>
named_theorems inv_intros \<open>preservation of component invariants\<close>

subsection \<open>Blocks of bytes\<close>

text \<open>
  A block obtained from an allocator is a list of bytes. \<open>read_bytes m off n\<close> is a \<open>memcpy\<close>
  of \<open>n\<close> bytes out of the block starting at offset \<open>off\<close>, \<open>write_bytes m off xs\<close> a
  \<open>memcpy\<close> into it; both are \<open>None\<close> outside the block.
\<close>

definition read_bytes :: "bytes \<Rightarrow> nat \<Rightarrow> nat \<Rightarrow> bytes option" where
  "read_bytes m off n = (if off + n \<le> length m then Some (take n (drop off m)) else None)"

definition write_bytes :: "bytes \<Rightarrow> nat \<Rightarrow> bytes \<Rightarrow> bytes option" where
  "write_bytes m off xs =
     (if off + length xs \<le> length m
      then Some (take off m @ xs @ drop (off + length xs) m) else None)"

lemma read_bytes_Some [mem_simps]:
  "off + n \<le> length m \<Longrightarrow> read_bytes m off n = Some (take n (drop off m))"
  by (simp add: read_bytes_def)

lemma write_bytes_Some [mem_simps]:
  "off + length xs \<le> length m \<Longrightarrow>
   write_bytes m off xs = Some (take off m @ xs @ drop (off + length xs) m)"
  by (simp add: write_bytes_def)

lemma write_bytes_length: "write_bytes m off xs = Some m' \<Longrightarrow> length m' = length m"
  by (auto simp: write_bytes_def split: if_splits)

lemma read_write_same:
  "off + length xs \<le> length m \<Longrightarrow>
   take (length xs) (drop off (take off m @ xs @ drop (off + length xs) m)) = xs"
  by simp

lemma read_write_before:
  "a + n \<le> off \<Longrightarrow> off + length xs \<le> length m \<Longrightarrow>
   take n (drop a (take off m @ xs @ drop (off + length xs) m)) = take n (drop a m)"
  by (auto intro!: nth_equalityI simp: nth_append)

lemma read_write_after:
  assumes "off + length xs \<le> a" "off + length xs \<le> length m"
  shows "take n (drop a (take off m @ xs @ drop (off + length xs) m)) = take n (drop a m)"
proof -
  have "drop a (take off m) = []" "drop (a - off) xs = []" using assms by simp_all
  moreover have "min (length m) off = off" using assms by simp
  ultimately show ?thesis using assms by (simp add: add.commute)
qed

text \<open>
  Slots of a fixed size in a block: two different slots do not overlap, so writing one leaves
  the others as they were.
\<close>

definition slot :: "bytes \<Rightarrow> nat \<Rightarrow> nat \<Rightarrow> bytes" where
  "slot m sz j = take sz (drop (sz * j) m)"

definition set_slot :: "bytes \<Rightarrow> nat \<Rightarrow> nat \<Rightarrow> bytes \<Rightarrow> bytes" where
  "set_slot m sz j xs = take (sz * j) m @ xs @ drop (sz * j + length xs) m"

lemma slot_in_block: "length m = n * sz \<Longrightarrow> j < n \<Longrightarrow> sz * j + sz \<le> length m"
proof -
  assume "length m = n * sz" "j < n"
  then have "Suc j * sz \<le> n * sz" by (intro mult_le_mono1) simp
  then show ?thesis using \<open>length m = n * sz\<close> by (simp add: algebra_simps)
qed

lemma length_set_slot [simp]:
  "length m = n * sz \<Longrightarrow> j < n \<Longrightarrow> length xs = sz \<Longrightarrow> length (set_slot m sz j xs) = length m"
  using slot_in_block [of m n sz j] by (simp add: set_slot_def)

lemma slot_set_slot:
  assumes "length m = n * sz" "i < n" "j < n" "length xs = sz"
  shows "slot (set_slot m sz i xs) sz j = (if i = j then xs else slot m sz j)"
proof -
  have b: "sz * i + length xs \<le> length m" using slot_in_block [OF assms(1,2)] assms(4) by simp
  consider "j = i" | "j < i" | "i < j" by linarith
  then show ?thesis
  proof cases
    case 1
    then show ?thesis using read_write_same [OF b] assms(4) by (simp add: slot_def set_slot_def)
  next
    case 2
    then have "sz * Suc j \<le> sz * i" by (intro mult_le_mono2) simp
    then have "sz * j + sz \<le> sz * i" by simp
    then show ?thesis using 2 read_write_before [OF _ b] by (simp add: slot_def set_slot_def)
  next
    case 3
    then have "sz * Suc i \<le> sz * j" by (intro mult_le_mono2) simp
    then have "sz * i + length xs \<le> sz * j" using assms(4) by simp
    then show ?thesis using 3 read_write_after [OF _ b] by (simp add: slot_def set_slot_def)
  qed
qed

lemma length_slot [simp]: "length m = n * sz \<Longrightarrow> j < n \<Longrightarrow> length (slot m sz j) = sz"
  using slot_in_block [of m n sz j] by (simp add: slot_def)

subsection \<open>C arithmetic\<close>

text \<open>The \<open>%\<close> operator on unsigned 32-bit values: the CPU traps on a zero divisor.\<close>

definition umod :: "u32 \<Rightarrow> u32 \<Rightarrow> u32 option" where
  "umod a b = (if b = 0 then None else Some (a mod b))"

lemma umod_Some [mem_simps]: "b \<noteq> 0 \<Longrightarrow> umod a b = Some (a mod b)"
  by (simp add: umod_def)

text \<open>
  Signed division and remainder of C truncate towards zero; Isabelle's \<open>div\<close> and \<open>mod\<close>
  round down.
\<close>

definition cdiv :: "int \<Rightarrow> int \<Rightarrow> int" where
  "cdiv a b = sgn a * sgn b * (\<bar>a\<bar> div \<bar>b\<bar>)"

definition cmod :: "int \<Rightarrow> int \<Rightarrow> int" where
  "cmod a b = a - cdiv a b * b"

lemma cdiv_nonneg [simp]: "0 \<le> a \<Longrightarrow> 0 < b \<Longrightarrow> cdiv a b = a div b"
  by (cases "a = 0") (simp_all add: cdiv_def)

lemma cmod_nonneg [simp]: "0 \<le> a \<Longrightarrow> 0 < b \<Longrightarrow> cmod a b = a mod b"
  by (simp add: cmod_def minus_div_mult_eq_mod)

lemma cdiv_neg: "a < 0 \<Longrightarrow> 0 < b \<Longrightarrow> cdiv a b = - ((- a) div b)"
  by (simp add: cdiv_def)

lemma cmod_neg: "a < 0 \<Longrightarrow> 0 < b \<Longrightarrow> cmod a b = - ((- a) mod b)"
proof -
  assume "a < 0" "0 < b"
  then have "cmod a b = a + (- a) div b * b" by (simp add: cmod_def cdiv_neg)
  also have "\<dots> = - ((- a) - (- a) div b * b)" by simp
  also have "\<dots> = - ((- a) mod b)" by (simp only: minus_div_mult_eq_mod)
  finally show ?thesis .
qed

subsection \<open>Unsigned arithmetic that does not overflow\<close>

lemma unat_lt_32: "unat (a::u32) < 4294967296"
proof -
  have "unat a < 2 ^ LENGTH(32)" by (rule unsigned_less)
  then show ?thesis by simp
qed

lemma unat_Suc_less: "unat (a::u32) < unat (b::u32) \<Longrightarrow> unat (a + 1) = unat a + 1"
  using unat_lt_32 [of b] by (simp add: unat_word_ariths)

lemma unat_pred: "(a::u32) \<noteq> 0 \<Longrightarrow> unat (a - 1) = unat a - 1"
  by (rule unat_minus_one)

lemma unat_mod_word [simp]: "unat ((a::u32) mod b) = unat a mod unat b"
  by (rule unat_mod_distrib)

lemma unat_eqI:
  assumes "w = (of_nat n :: u32)" and "n < 2 ^ 32"
  shows "unat w = n"
  using assms by (simp add: unat_of_nat)

lemma word_eq_of_nat: "unat (w::u32) = n \<Longrightarrow> w = of_nat n"
  by auto

lemma length_2_conv: "length xs = 2 \<longleftrightarrow> (\<exists>a b. xs = [a, b])"
  by (auto simp: numeral_2_eq_2 length_Suc_conv)

end
