(* ===== verification/Libds.thy ===== *)
theory Libds
  imports Prelude
begin

section \<open>The common part of libds (libds/src/libds.c, libds/include/libds/libds.h)\<close>

text \<open>
  The allocator hooks and the status codes of libds, and the interface \<open>bounded_fifo\<close>: what a
  client of a byte queue (a pipe, a terminal) may rely on, with the facts about filling and
  draining loops proved once from it.
\<close>

subsection \<open>The allocator hooks\<close>

text \<open>
  \<open>libds_set_allocators\<close> installs the functions; a hook that was never set is NULL and
  allocation then returns NULL. \<open>set_malloc\<close> returns a block with unknown contents or NULL.
  Of \<open>set_realloc\<close> only the success is visible: a successful call keeps the old contents up to
  the smaller of the two sizes, which its callers write out. Freeing has no visible effect.
\<close>

record allocators =
  set_malloc :: "(u32 \<Rightarrow> bytes option) option"
  set_realloc :: "(u32 \<Rightarrow> bool) option"

definition libds_set_allocators ::
  "(u32 \<Rightarrow> bytes option) option \<Rightarrow> (u32 \<Rightarrow> bool) option \<Rightarrow> allocators" where
  "libds_set_allocators f_malloc f_realloc = \<lparr>set_malloc = f_malloc, set_realloc = f_realloc\<rparr>"

definition libds_malloc :: "allocators \<Rightarrow> u32 \<Rightarrow> bytes option" where
  "libds_malloc al sz = (case set_malloc al of None \<Rightarrow> None | Some f \<Rightarrow> f sz)"

definition libds_realloc :: "allocators \<Rightarrow> u32 \<Rightarrow> bool" where
  "libds_realloc al sz = (case set_realloc al of None \<Rightarrow> False | Some f \<Rightarrow> f sz)"

text \<open>Every allocation succeeds and delivers a block of the requested size.\<close>

definition alloc_total :: "allocators \<Rightarrow> bool" where
  "alloc_total al \<longleftrightarrow>
     (\<forall>n. \<exists>b. libds_malloc al n = Some b \<and> length b = unat n) \<and> (\<forall>n. libds_realloc al n)"

text \<open>An allocator that always succeeds, for concrete runs.\<close>

definition zero_alloc :: allocators where
  "zero_alloc = libds_set_allocators (Some (\<lambda>n. Some (replicate (unat n) 0))) (Some (\<lambda>_. True))"

lemma zero_alloc_total: "alloc_total zero_alloc"
  by (simp add: alloc_total_def zero_alloc_def libds_set_allocators_def libds_malloc_def
      libds_realloc_def)

datatype ds_result =
    DS_SUCCESS | DS_ERR_INVALID | DS_ERR_FULL | DS_ERR_EMPTY | DS_ERR_DUPLICATE
  | DS_ERR_NOT_FOUND

subsection \<open>Filling and draining a queue\<close>

text \<open>
  The loops that clients write around a queue: push the items one by one and stop at the first
  refusal, pop up to \<open>n\<close> items and stop at the first failure. Both count their successes.
\<close>

fun push_loop :: "('s \<Rightarrow> 'a \<Rightarrow> (ds_result \<times> 's) option) \<Rightarrow> 's \<Rightarrow> 'a list \<Rightarrow> nat \<Rightarrow> (nat \<times> 's) option" where
  "push_loop push s [] written = Some (written, s)"
| "push_loop push s (x # xs) written =
     do { (r, s') \<leftarrow> push s x;
          if r \<noteq> DS_SUCCESS then Some (written, s') else push_loop push s' xs (written + 1) }"

fun pop_loop :: "('s \<Rightarrow> (ds_result \<times> 'a option \<times> 's) option) \<Rightarrow> 's \<Rightarrow> nat \<Rightarrow> 'a list \<Rightarrow> ('a list \<times> 's) option" where
  "pop_loop pop s 0 out = Some (out, s)"
| "pop_loop pop s (Suc n) out =
     do { (r, x, s') \<leftarrow> pop s;
          if r \<noteq> DS_SUCCESS then Some (out, s')
          else (case x of None \<Rightarrow> None | Some v \<Rightarrow> pop_loop pop s' n (out @ [v])) }"

locale bounded_fifo =
  fixes inv :: "'s \<Rightarrow> bool"
    and content :: "'s \<Rightarrow> 'a list"
    and cap :: "'s \<Rightarrow> nat"
    and push :: "'s \<Rightarrow> 'a \<Rightarrow> (ds_result \<times> 's) option"
    and pop :: "'s \<Rightarrow> (ds_result \<times> 'a option \<times> 's) option"
  assumes bounded: "inv s \<Longrightarrow> length (content s) \<le> cap s"
    and push_ok: "inv s \<Longrightarrow> length (content s) < cap s \<Longrightarrow>
      \<exists>s'. push s x = Some (DS_SUCCESS, s') \<and> inv s' \<and> content s' = content s @ [x] \<and> cap s' = cap s"
    and push_refused: "inv s \<Longrightarrow> length (content s) = cap s \<Longrightarrow> push s x = Some (DS_ERR_FULL, s)"
    and pop_ok: "inv s \<Longrightarrow> content s = x # xs \<Longrightarrow>
      \<exists>s'. pop s = Some (DS_SUCCESS, Some x, s') \<and> inv s' \<and> content s' = xs \<and> cap s' = cap s"
    and pop_refused: "inv s \<Longrightarrow> content s = [] \<Longrightarrow> pop s = Some (DS_ERR_EMPTY, None, s)"
begin

lemma push_loop_spec:
  assumes "inv s"
  shows "\<exists>s'. push_loop push s xs n = Some (n + min (length xs) (cap s - length (content s)), s') \<and>
     inv s' \<and> cap s' = cap s \<and>
     content s' = content s @ take (cap s - length (content s)) xs"
  using assms
proof (induction xs arbitrary: s n)
  case Nil
  then show ?case by simp
next
  case (Cons x xs)
  show ?case
  proof (cases "length (content s) < cap s")
    case True
    then obtain s1 where s1: "push s x = Some (DS_SUCCESS, s1)" "inv s1"
        "content s1 = content s @ [x]" "cap s1 = cap s"
      using push_ok Cons.prems by blast
    obtain k where k: "cap s - length (content s) = Suc k" "cap s - Suc (length (content s)) = k"
      using True by (cases "cap s - length (content s)") auto
    show ?thesis using Cons.IH [OF s1(2), of "n + 1"] s1 k by auto
  next
    case False
    then have "length (content s) = cap s" using bounded [OF Cons.prems] by simp
    then show ?thesis using push_refused [OF Cons.prems] Cons.prems by simp
  qed
qed

lemma pop_loop_spec:
  assumes "inv s"
  shows "\<exists>s'. pop_loop pop s n out = Some (out @ take n (content s), s') \<and> inv s' \<and>
     cap s' = cap s \<and> content s' = drop n (content s)"
  using assms
proof (induction n arbitrary: s out)
  case 0
  then show ?case by simp
next
  case (Suc n)
  show ?case
  proof (cases "content s")
    case Nil
    then show ?thesis using pop_refused [OF Suc.prems] Suc.prems by simp
  next
    case (Cons x xs)
    then obtain s1 where s1: "pop s = Some (DS_SUCCESS, Some x, s1)" "inv s1"
        "content s1 = xs" "cap s1 = cap s"
      using pop_ok [OF Suc.prems] by blast
    then show ?thesis using Suc.IH [OF s1(2), of "out @ [x]"] Cons by auto
  qed
qed

end

end
