(* ===== verification/Ringbuf.thy ===== *)
theory Ringbuf
  imports Libds
begin

section \<open>Ring buffers (libds/src/ringbuf.c)\<close>

text \<open>
  The ring buffer of libds. A buffer pointer that may be NULL is an \<open>option\<close>; the storage block
  is a list of bytes obtained from the allocator. The main result is that a buffer, driven by
  any sequence of operations, behaves as a bounded first-in first-out queue of items and never
  accesses memory outside its storage. Buffers of single bytes that refuse to overflow provide
  the interface \<open>bounded_fifo\<close> that their clients rely on.
\<close>

subsection \<open>The buffer and its operations\<close>

record ds_ringbuf =
  capacity :: u32
  item_size :: u32
  current_count :: u32
  fail_on_full :: bool
  read_ptr :: u32
  write_ptr :: u32
  storage :: "bytes option"

text \<open>The byte offset of an element from the start of the storage.\<close>

definition elem_ptr :: "ds_ringbuf \<Rightarrow> u32 \<Rightarrow> u32" where
  "elem_ptr ringbuff index = item_size ringbuff * index"

text \<open>
  \<open>sizeof(ds_ringbuf_t)\<close> is 28 on i386 (six 4-byte fields and a padded \<open>bool\<close>). \<open>None\<close>: the
  header could not be allocated and the first store through the NULL pointer faults.
\<close>

definition ds_ringbuf_create :: "allocators \<Rightarrow> u32 \<Rightarrow> u32 \<Rightarrow> bool \<Rightarrow> ds_ringbuf option" where
  "ds_ringbuf_create al cap isize fof =
     (case libds_malloc al 28 of
        None \<Rightarrow> None
      | Some _ \<Rightarrow> Some \<lparr>capacity = cap, item_size = isize, current_count = 0,
          fail_on_full = fof, read_ptr = 0, write_ptr = 0,
          storage = libds_malloc al (cap * isize)\<rparr>)"

definition ds_ringbuf_push ::
  "ds_ringbuf option \<Rightarrow> bytes \<Rightarrow> (ds_result \<times> ds_ringbuf option) option" where
  "ds_ringbuf_push ringbuf v =
     (case ringbuf of
        None \<Rightarrow> Some (DS_ERR_INVALID, None)
      | Some rb \<Rightarrow>
          if current_count rb = capacity rb \<and> fail_on_full rb
          then Some (DS_ERR_FULL, Some rb)
          else do {
            rb1 \<leftarrow> (if current_count rb = capacity rb
                     then do {
                       rp \<leftarrow> umod (read_ptr rb + 1) (capacity rb);
                       Some (rb\<lparr>read_ptr := rp, current_count := current_count rb - 1\<rparr>)
                     }
                     else Some rb);
            src \<leftarrow> read_bytes v 0 (unat (item_size rb1));
            st \<leftarrow> storage rb1;
            st1 \<leftarrow> write_bytes st (unat (elem_ptr rb1 (write_ptr rb1))) src;
            wp \<leftarrow> umod (write_ptr rb1 + 1) (capacity rb1);
            Some (DS_SUCCESS, Some (rb1\<lparr>storage := Some st1, write_ptr := wp,
                                        current_count := current_count rb1 + 1\<rparr>))
          })"

text \<open>
  \<open>ds_ringbuf_pop\<close> and \<open>ds_ringbuf_peek\<close> copy an item to the caller's address: the second
  component of the result is what was written there, if anything was.
\<close>

definition ds_ringbuf_peek ::
  "ds_ringbuf option \<Rightarrow> (ds_result \<times> bytes option) option" where
  "ds_ringbuf_peek ringbuf =
     (case ringbuf of
        None \<Rightarrow> Some (DS_ERR_INVALID, None)
      | Some rb \<Rightarrow>
          if current_count rb = 0 then Some (DS_ERR_EMPTY, None)
          else do {
            st \<leftarrow> storage rb;
            dst \<leftarrow> read_bytes st (unat (elem_ptr rb (read_ptr rb))) (unat (item_size rb));
            Some (DS_SUCCESS, Some dst)
          })"

definition ds_ringbuf_pop ::
  "ds_ringbuf option \<Rightarrow> (ds_result \<times> bytes option \<times> ds_ringbuf option) option" where
  "ds_ringbuf_pop ringbuf =
     (case ringbuf of
        None \<Rightarrow> Some (DS_ERR_INVALID, None, None)
      | Some rb \<Rightarrow>
          if current_count rb = 0 then Some (DS_ERR_EMPTY, None, Some rb)
          else do {
            st \<leftarrow> storage rb;
            dst \<leftarrow> read_bytes st (unat (elem_ptr rb (read_ptr rb))) (unat (item_size rb));
            rp \<leftarrow> umod (read_ptr rb + 1) (capacity rb);
            Some (DS_SUCCESS, Some dst,
                  Some (rb\<lparr>read_ptr := rp, current_count := current_count rb - 1\<rparr>))
          })"

definition ds_ringbuf_poke ::
  "ds_ringbuf option \<Rightarrow> bytes \<Rightarrow> (ds_result \<times> ds_ringbuf option) option" where
  "ds_ringbuf_poke ringbuf addr =
     (case ringbuf of
        None \<Rightarrow> Some (DS_ERR_INVALID, None)
      | Some rb \<Rightarrow>
          if current_count rb = 0 then Some (DS_ERR_EMPTY, Some rb)
          else do {
            src \<leftarrow> read_bytes addr 0 (unat (item_size rb));
            st \<leftarrow> storage rb;
            st1 \<leftarrow> write_bytes st (unat (elem_ptr rb (read_ptr rb))) src;
            Some (DS_SUCCESS, Some (rb\<lparr>storage := Some st1\<rparr>))
          })"

definition ds_ringbuf_clear :: "ds_ringbuf option \<Rightarrow> ds_result \<times> ds_ringbuf option" where
  "ds_ringbuf_clear ringbuf =
     (case ringbuf of
        None \<Rightarrow> (DS_ERR_INVALID, None)
      | Some rb \<Rightarrow>
          (DS_SUCCESS, Some (rb\<lparr>current_count := 0, read_ptr := 0, write_ptr := 0\<rparr>)))"

definition ds_ringbuf_size :: "ds_ringbuf option \<Rightarrow> u32" where
  "ds_ringbuf_size ringbuf = (case ringbuf of None \<Rightarrow> 0 | Some rb \<Rightarrow> current_count rb)"

definition ds_ringbuf_capacity :: "ds_ringbuf option \<Rightarrow> u32" where
  "ds_ringbuf_capacity ringbuf = (case ringbuf of None \<Rightarrow> 0 | Some rb \<Rightarrow> capacity rb)"

definition ds_ringbuf_free_space :: "ds_ringbuf option \<Rightarrow> u32" where
  "ds_ringbuf_free_space ringbuf = ds_ringbuf_capacity ringbuf - ds_ringbuf_size ringbuf"

definition ds_ringbuf_is_empty :: "ds_ringbuf option \<Rightarrow> bool" where
  "ds_ringbuf_is_empty ringbuf \<longleftrightarrow> ds_ringbuf_size ringbuf = 0"

definition ds_ringbuf_is_full :: "ds_ringbuf option \<Rightarrow> bool" where
  "ds_ringbuf_is_full ringbuf \<longleftrightarrow> ds_ringbuf_size ringbuf = ds_ringbuf_capacity ringbuf"

subsection \<open>Invariant and abstraction\<close>

definition rb_inv :: "ds_ringbuf \<Rightarrow> bool" where
  "rb_inv rb \<longleftrightarrow>
     0 < unat (capacity rb) \<and>
     unat (capacity rb) * unat (item_size rb) < 2 ^ 32 \<and>
     unat (current_count rb) \<le> unat (capacity rb) \<and>
     unat (read_ptr rb) < unat (capacity rb) \<and>
     unat (write_ptr rb) = (unat (read_ptr rb) + unat (current_count rb)) mod unat (capacity rb) \<and>
     (case storage rb of None \<Rightarrow> False
      | Some st \<Rightarrow> length st = unat (capacity rb) * unat (item_size rb))"

definition rb_item :: "ds_ringbuf \<Rightarrow> nat \<Rightarrow> bytes" where
  "rb_item rb i =
     slot (the (storage rb)) (unat (item_size rb))
          ((unat (read_ptr rb) + i) mod unat (capacity rb))"

definition rb_abs :: "ds_ringbuf \<Rightarrow> bytes list" where
  "rb_abs rb = map (rb_item rb) [0..<unat (current_count rb)]"

text \<open>The states the operations lead to, written over the invariant's view of the buffer.\<close>

definition rb_put :: "ds_ringbuf \<Rightarrow> bytes \<Rightarrow> ds_ringbuf" where
  "rb_put rb xs = rb\<lparr>
     storage := Some (set_slot (the (storage rb)) (unat (item_size rb)) (unat (write_ptr rb)) xs),
     write_ptr := (write_ptr rb + 1) mod capacity rb,
     current_count := current_count rb + 1\<rparr>"

definition rb_drop :: "ds_ringbuf \<Rightarrow> ds_ringbuf" where
  "rb_drop rb = rb\<lparr>read_ptr := (read_ptr rb + 1) mod capacity rb,
                   current_count := current_count rb - 1\<rparr>"

definition rb_replace :: "ds_ringbuf \<Rightarrow> bytes \<Rightarrow> ds_ringbuf" where
  "rb_replace rb xs = rb\<lparr>storage :=
     Some (set_slot (the (storage rb)) (unat (item_size rb)) (unat (read_ptr rb)) xs)\<rparr>"

datatype rb_op = Push bytes | Pop | Peek | Poke bytes | Clear

text \<open>One call on a non-NULL buffer: its status, what it wrote to the caller, the buffer after.\<close>

fun rb_step :: "ds_ringbuf \<Rightarrow> rb_op \<Rightarrow> ((ds_result \<times> bytes option) \<times> ds_ringbuf option) option" where
  "rb_step rb (Push v) =
     map_option (\<lambda>(r, rb'). ((r, None), rb')) (ds_ringbuf_push (Some rb) v)"
| "rb_step rb Pop =
     map_option (\<lambda>(r, x, rb'). ((r, x), rb')) (ds_ringbuf_pop (Some rb))"
| "rb_step rb Peek = map_option (\<lambda>r. (r, Some rb)) (ds_ringbuf_peek (Some rb))"
| "rb_step rb (Poke v) =
     map_option (\<lambda>(r, rb'). ((r, None), rb')) (ds_ringbuf_poke (Some rb) v)"
| "rb_step rb Clear =
     Some (let (r, rb') = ds_ringbuf_clear (Some rb) in ((r, None), rb'))"

fun rb_run :: "ds_ringbuf option \<Rightarrow> rb_op list \<Rightarrow> ((ds_result \<times> bytes option) list \<times> ds_ringbuf option) option" where
  "rb_run rb [] = Some ([], rb)"
| "rb_run None (op # ops) = None"
| "rb_run (Some rb) (op # ops) =
     do { (out, rb') \<leftarrow> rb_step rb op; (outs, rb'') \<leftarrow> rb_run rb' ops; Some (out # outs, rb'') }"

text \<open>
  The specification: a queue of items of \<open>isz\<close> bytes that holds at most \<open>cap\<close> of them. A push on
  a full queue is refused or drops the oldest item, depending on \<open>fof\<close>.
\<close>

fun fifo_step :: "nat \<Rightarrow> nat \<Rightarrow> bool \<Rightarrow> bytes list \<Rightarrow> rb_op \<Rightarrow> (ds_result \<times> bytes option) \<times> bytes list" where
  "fifo_step cap isz fof q (Push v) =
     (if length q = cap then
        (if fof then ((DS_ERR_FULL, None), q) else ((DS_SUCCESS, None), tl q @ [take isz v]))
      else ((DS_SUCCESS, None), q @ [take isz v]))"
| "fifo_step cap isz fof q Pop =
     (case q of [] \<Rightarrow> ((DS_ERR_EMPTY, None), []) | x # q' \<Rightarrow> ((DS_SUCCESS, Some x), q'))"
| "fifo_step cap isz fof q Peek =
     (case q of [] \<Rightarrow> ((DS_ERR_EMPTY, None), []) | x # q' \<Rightarrow> ((DS_SUCCESS, Some x), q))"
| "fifo_step cap isz fof q (Poke v) =
     (case q of [] \<Rightarrow> ((DS_ERR_EMPTY, None), []) | x # q' \<Rightarrow> ((DS_SUCCESS, None), take isz v # q'))"
| "fifo_step cap isz fof q Clear = ((DS_SUCCESS, None), [])"

fun fifo_run :: "nat \<Rightarrow> nat \<Rightarrow> bool \<Rightarrow> bytes list \<Rightarrow> rb_op list \<Rightarrow> (ds_result \<times> bytes option) list \<times> bytes list" where
  "fifo_run cap isz fof q [] = ([], q)"
| "fifo_run cap isz fof q (op # ops) =
     (let (out, q') = fifo_step cap isz fof q op; (outs, q'') = fifo_run cap isz fof q' ops
      in (out # outs, q''))"

text \<open>The caller passes a source buffer of at least one item.\<close>

fun op_ok :: "nat \<Rightarrow> rb_op \<Rightarrow> bool" where
  "op_ok isz (Push v) \<longleftrightarrow> isz \<le> length v"
| "op_ok isz (Poke v) \<longleftrightarrow> isz \<le> length v"
| "op_ok isz op \<longleftrightarrow> True"

subsection \<open>Each operation under the invariant\<close>

lemma rb_invD:
  assumes "rb_inv rb"
  shows "0 < unat (capacity rb)" "capacity rb \<noteq> 0"
    "unat (current_count rb) \<le> unat (capacity rb)"
    "unat (read_ptr rb) < unat (capacity rb)"
    "unat (write_ptr rb) < unat (capacity rb)"
    "unat (write_ptr rb) =
       (unat (read_ptr rb) + unat (current_count rb)) mod unat (capacity rb)"
    "storage rb = Some (the (storage rb))"
    "length (the (storage rb)) = unat (capacity rb) * unat (item_size rb)"
  using assms by (auto simp: rb_inv_def split: option.splits)

lemma elem_ptr_unat:
  assumes "rb_inv rb" "unat i < unat (capacity rb)"
  shows "unat (elem_ptr rb i) = unat (item_size rb) * unat i"
proof -
  have "unat (item_size rb) * unat i \<le> unat (item_size rb) * unat (capacity rb)"
    using assms(2) by (intro mult_le_mono2) simp
  also have "\<dots> < 2 ^ 32" using assms(1) by (simp add: rb_inv_def mult.commute)
  finally show ?thesis by (simp add: elem_ptr_def unat_word_ariths)
qed

lemma unat_succ_mod:
  assumes "unat i < unat (c::u32)"
  shows "unat ((i + 1) mod c) = (unat i + 1) mod unat c"
  using unat_Suc_less [OF assms] by simp

lemma storage_write:
  assumes "rb_inv rb" "unat i < unat (capacity rb)" "length xs = unat (item_size rb)"
  shows "write_bytes (the (storage rb)) (unat (elem_ptr rb i)) xs =
         Some (set_slot (the (storage rb)) (unat (item_size rb)) (unat i) xs)"
  using slot_in_block [OF rb_invD(8) [OF assms(1)] assms(2)] assms(3) elem_ptr_unat [OF assms(1,2)]
  by (simp add: write_bytes_Some set_slot_def)

lemma storage_read:
  assumes "rb_inv rb" "unat i < unat (capacity rb)"
  shows "read_bytes (the (storage rb)) (unat (elem_ptr rb i)) (unat (item_size rb)) =
         Some (slot (the (storage rb)) (unat (item_size rb)) (unat i))"
  using slot_in_block [OF rb_invD(8) [OF assms(1)] assms(2)] elem_ptr_unat [OF assms(1,2)]
  by (simp add: read_bytes_Some slot_def)

lemma ring_index_inj:
  assumes "r < (n::nat)" "i < n" "j < n"
  shows "(r + i) mod n = (r + j) mod n \<longleftrightarrow> i = j"
  using assms by (auto simp: mod_if)

lemma rb_drop_inv:
  assumes "rb_inv rb" "current_count rb \<noteq> 0"
  shows "rb_inv (rb_drop rb)" "rb_abs (rb_drop rb) = tl (rb_abs rb)"
proof -
  note I = rb_invD [OF assms(1)]
  have c: "unat (current_count rb - 1) = unat (current_count rb) - 1" "0 < unat (current_count rb)"
    using unat_pred [OF assms(2)] assms(2) by (simp_all add: unat_gt_0)
  have r: "unat ((read_ptr rb + 1) mod capacity rb) = (unat (read_ptr rb) + 1) mod unat (capacity rb)"
    by (rule unat_succ_mod [OF I(4)])
  have "(unat (read_ptr rb) + unat (current_count rb)) mod unat (capacity rb) =
        ((unat (read_ptr rb) + 1) mod unat (capacity rb) + (unat (current_count rb) - 1))
          mod unat (capacity rb)"
    using c(2) by (subst mod_add_left_eq) simp
  then show "rb_inv (rb_drop rb)"
    using assms(1) I c r unfolding rb_inv_def rb_drop_def by (auto split: option.splits)
  have n: "unat (current_count rb) = Suc (unat (current_count rb) - 1)" using c(2) by simp
  have "map (rb_item rb) [0..<Suc (unat (current_count rb) - 1)] =
        rb_item rb 0 # map (\<lambda>i. rb_item rb (Suc i)) [0..<unat (current_count rb) - 1]"
    by (simp add: upt_conv_Cons map_Suc_upt [symmetric] del: upt_Suc)
  moreover have "rb_item (rb_drop rb) i = rb_item rb (Suc i)" for i
    using r by (simp add: rb_item_def rb_drop_def mod_add_left_eq)
  ultimately show "rb_abs (rb_drop rb) = tl (rb_abs rb)"
    using n c(1) by (simp add: rb_abs_def rb_drop_def [of rb] flip: n)
qed


lemma rb_put_inv:
  assumes "rb_inv rb" "current_count rb \<noteq> capacity rb" "length xs = unat (item_size rb)"
  shows "rb_inv (rb_put rb xs)" "rb_abs (rb_put rb xs) = rb_abs rb @ [xs]"
proof -
  note I = rb_invD [OF assms(1)]
  have lt: "unat (current_count rb) < unat (capacity rb)"
    using I(3) assms(2) by (metis le_neq_implies_less word_unat_eq_iff)
  have c: "unat (current_count rb + 1) = unat (current_count rb) + 1"
    by (rule unat_Suc_less [OF lt])
  have w: "unat ((write_ptr rb + 1) mod capacity rb) = (unat (write_ptr rb) + 1) mod unat (capacity rb)"
    by (rule unat_succ_mod [OF I(5)])
  show "rb_inv (rb_put rb xs)"
    using assms(1) I c w lt length_set_slot [OF I(8,5) assms(3)] unfolding rb_inv_def rb_put_def
    by (auto simp: mod_Suc_eq)
  have item: "rb_item (rb_put rb xs) i =
      (if i = unat (current_count rb) then xs else rb_item rb i)"
    if "i \<le> unat (current_count rb)" for i
  proof -
    have "(unat (read_ptr rb) + i) mod unat (capacity rb) = unat (write_ptr rb) \<longleftrightarrow>
          i = unat (current_count rb)"
      using ring_index_inj [OF I(4), of i "unat (current_count rb)"] I(6) lt that by auto
    then show ?thesis
      using slot_set_slot [OF I(8) I(5) mod_less_divisor [OF I(1)] assms(3)]
      by (auto simp: rb_item_def rb_put_def)
  qed
  show "rb_abs (rb_put rb xs) = rb_abs rb @ [xs]"
    using c item by (simp add: rb_abs_def rb_put_def [of rb])
qed

lemma push_room:
  assumes "rb_inv rb" "current_count rb \<noteq> capacity rb" "unat (item_size rb) \<le> length v"
  shows "ds_ringbuf_push (Some rb) v =
         Some (DS_SUCCESS, Some (rb_put rb (take (unat (item_size rb)) v)))"
  using assms rb_invD [OF assms(1)]
    storage_write [OF assms(1) rb_invD(5) [OF assms(1)], of "take (unat (item_size rb)) v"]
  by (cases "storage rb")
     (simp_all add: ds_ringbuf_push_def rb_put_def mem_simps)

lemma push_full_fail:
  assumes "current_count rb = capacity rb" "fail_on_full rb"
  shows "ds_ringbuf_push (Some rb) v = Some (DS_ERR_FULL, Some rb)"
  using assms by (simp add: ds_ringbuf_push_def)

lemma push_full_overwrite:
  assumes "rb_inv rb" "current_count rb = capacity rb" "\<not> fail_on_full rb"
    and "unat (item_size rb) \<le> length v"
  shows "ds_ringbuf_push (Some rb) v =
         Some (DS_SUCCESS, Some (rb_put (rb_drop rb) (take (unat (item_size rb)) v)))"
proof -
  note I = rb_invD [OF assms(1)]
  have nz: "current_count rb \<noteq> 0" using I(1,2) assms(2) by simp
  have J: "rb_inv (rb_drop rb)" by (rule rb_drop_inv(1) [OF assms(1) nz])
  have "ds_ringbuf_push (Some rb) v = ds_ringbuf_push (Some (rb_drop rb)) v"
    using assms(2,3) I(2) by (simp add: ds_ringbuf_push_def rb_drop_def umod_def)
  also have "\<dots> = Some (DS_SUCCESS, Some (rb_put (rb_drop rb) (take (unat (item_size rb)) v)))"
    using push_room [OF J] assms(2,4) by (simp add: rb_drop_def)
  finally show ?thesis .
qed


lemma rb_abs_empty_iff: "rb_abs rb = [] \<longleftrightarrow> current_count rb = 0"
  by (simp add: rb_abs_def unat_eq_0)

lemma length_rb_abs: "length (rb_abs rb) = unat (current_count rb)"
  by (simp add: rb_abs_def)

lemma hd_rb_abs: "current_count rb \<noteq> 0 \<Longrightarrow> hd (rb_abs rb) = rb_item rb 0"
  by (simp add: rb_abs_def hd_map unat_gt_0)

lemma read_head:
  assumes "rb_inv rb" "current_count rb \<noteq> 0"
  shows "read_bytes (the (storage rb)) (unat (elem_ptr rb (read_ptr rb))) (unat (item_size rb)) =
         Some (hd (rb_abs rb))"
  using storage_read [OF assms(1) rb_invD(4) [OF assms(1)]] rb_invD(4) [OF assms(1)]
  by (simp add: hd_rb_abs [OF assms(2)] rb_item_def)

lemma pop_nonempty:
  assumes "rb_inv rb" "current_count rb \<noteq> 0"
  shows "ds_ringbuf_pop (Some rb) = Some (DS_SUCCESS, Some (hd (rb_abs rb)), Some (rb_drop rb))"
  using assms(2) read_head [OF assms] rb_invD(2,7) [OF assms(1)]
  by (cases "storage rb") (simp_all add: ds_ringbuf_pop_def rb_drop_def umod_def)

lemma peek_nonempty:
  assumes "rb_inv rb" "current_count rb \<noteq> 0"
  shows "ds_ringbuf_peek (Some rb) = Some (DS_SUCCESS, Some (hd (rb_abs rb)))"
  using assms(2) read_head [OF assms] rb_invD(7) [OF assms(1)]
  by (cases "storage rb") (simp_all add: ds_ringbuf_peek_def)

lemma poke_nonempty:
  assumes "rb_inv rb" "current_count rb \<noteq> 0" "unat (item_size rb) \<le> length v"
  shows "ds_ringbuf_poke (Some rb) v =
         Some (DS_SUCCESS, Some (rb_replace rb (take (unat (item_size rb)) v)))"
  using assms(2,3) rb_invD(7) [OF assms(1)]
    storage_write [OF assms(1) rb_invD(4) [OF assms(1)], of "take (unat (item_size rb)) v"]
  by (cases "storage rb") (simp_all add: ds_ringbuf_poke_def rb_replace_def mem_simps)

lemma rb_replace_inv:
  assumes "rb_inv rb" "current_count rb \<noteq> 0" "length xs = unat (item_size rb)"
  shows "rb_inv (rb_replace rb xs)" "rb_abs (rb_replace rb xs) = xs # tl (rb_abs rb)"
proof -
  note I = rb_invD [OF assms(1)]
  show "rb_inv (rb_replace rb xs)"
    using assms(1) I length_set_slot [OF I(8,4) assms(3)]
    by (auto simp: rb_inv_def rb_replace_def)
  have item: "rb_item (rb_replace rb xs) i = (if i = 0 then xs else rb_item rb i)"
    if "i < unat (current_count rb)" for i
  proof -
    have "(unat (read_ptr rb) + i) mod unat (capacity rb) = unat (read_ptr rb) \<longleftrightarrow> i = 0"
      using ring_index_inj [OF I(4), of i 0] I(1,3,4) that by simp
    then show ?thesis
      using slot_set_slot [OF I(8) I(4) mod_less_divisor [OF I(1)] assms(3)]
      by (auto simp: rb_item_def rb_replace_def)
  qed
  have n: "[0..<unat (current_count rb)] = 0 # [1..<unat (current_count rb)]"
    using assms(2) by (simp add: upt_conv_Cons unat_gt_0)
  have "map (rb_item (rb_replace rb xs)) [0..<unat (current_count rb)] =
        xs # map (rb_item rb) [1..<unat (current_count rb)]"
    unfolding n using item assms(2) by (simp add: unat_gt_0)
  moreover have "current_count (rb_replace rb xs) = current_count rb" by (simp add: rb_replace_def)
  moreover have "tl (map (rb_item rb) [0..<unat (current_count rb)]) =
        map (rb_item rb) [1..<unat (current_count rb)]" unfolding n by simp
  ultimately show "rb_abs (rb_replace rb xs) = xs # tl (rb_abs rb)"
    by (simp only: rb_abs_def)
qed

lemma clear_inv:
  assumes "rb_inv rb" "ds_ringbuf_clear (Some rb) = (res, Some rb')"
  shows "rb_inv rb'" "rb_abs rb' = []"
  using assms by (auto simp: ds_ringbuf_clear_def rb_inv_def rb_abs_def split: option.splits)

subsection \<open>Refinement of the bounded queue\<close>

definition same_shape :: "ds_ringbuf \<Rightarrow> ds_ringbuf \<Rightarrow> bool" where
  "same_shape rb rb' \<longleftrightarrow> capacity rb' = capacity rb \<and> item_size rb' = item_size rb \<and>
     fail_on_full rb' = fail_on_full rb"

lemma rb_count_full: "rb_inv rb \<Longrightarrow> length (rb_abs rb) = unat (capacity rb) \<longleftrightarrow> current_count rb = capacity rb"
  by (simp add: length_rb_abs word_unat_eq_iff)

lemma rb_abs_cases:
  assumes "rb_inv rb"
  obtains "current_count rb = 0" "rb_abs rb = []"
  | "current_count rb \<noteq> 0" "rb_abs rb = hd (rb_abs rb) # tl (rb_abs rb)"
  using rb_abs_empty_iff [of rb] by (cases "rb_abs rb") auto

lemma rb_push_refines:
  assumes "rb_inv rb" "unat (item_size rb) \<le> length v"
  shows "\<exists>rb'. rb_step rb (Push v) =
           Some (fst (fifo_step (unat (capacity rb)) (unat (item_size rb)) (fail_on_full rb) (rb_abs rb) (Push v)), Some rb')
         \<and> rb_inv rb' \<and> same_shape rb rb'
         \<and> rb_abs rb' = snd (fifo_step (unat (capacity rb)) (unat (item_size rb)) (fail_on_full rb) (rb_abs rb) (Push v))"
proof (cases "current_count rb = capacity rb")
  case False
  let ?rb = "rb_put rb (take (unat (item_size rb)) v)"
  have "same_shape rb ?rb" by (simp add: same_shape_def rb_put_def)
  moreover have "length (take (unat (item_size rb)) v) = unat (item_size rb)" using assms(2) by simp
  ultimately show ?thesis
    using False push_room [OF assms(1) False assms(2)] rb_put_inv [OF assms(1) False]
      rb_count_full [OF assms(1)] by simp
next
  case True
  note full = rb_count_full [OF assms(1)] True
  show ?thesis
  proof (cases "fail_on_full rb")
    case fail: True
    then show ?thesis
      using full assms(1) push_full_fail [OF True fail] by (simp add: same_shape_def)
  next
    case False
    have nz: "current_count rb \<noteq> 0" using True rb_invD(2) [OF assms(1)] by simp
    note D = rb_drop_inv [OF assms(1) nz]
    have room: "current_count (rb_drop rb) \<noteq> capacity (rb_drop rb)"
      using True by (simp add: rb_drop_def)
    let ?rb = "rb_put (rb_drop rb) (take (unat (item_size rb)) v)"
    have "same_shape rb ?rb" by (simp add: same_shape_def rb_put_def rb_drop_def)
    moreover have "length (take (unat (item_size rb)) v) = unat (item_size (rb_drop rb))"
      using assms(2) by (simp add: rb_drop_def)
    ultimately show ?thesis
      using full False D rb_put_inv [OF D(1) room] push_full_overwrite [OF assms(1) True False assms(2)]
      by simp
  qed
qed

lemma rb_step_refines:
  assumes "rb_inv rb" "op_ok (unat (item_size rb)) op"
  shows "\<exists>rb'. rb_step rb op =
           Some (fst (fifo_step (unat (capacity rb)) (unat (item_size rb)) (fail_on_full rb) (rb_abs rb) op), Some rb')
         \<and> rb_inv rb' \<and> same_shape rb rb'
         \<and> rb_abs rb' = snd (fifo_step (unat (capacity rb)) (unat (item_size rb)) (fail_on_full rb) (rb_abs rb) op)"
proof (cases op)
  case (Push v)
  then show ?thesis using rb_push_refines [OF assms(1)] assms(2) by simp
next
  case Pop
  from assms(1) show ?thesis
  proof (cases rule: rb_abs_cases)
    case 1
    then show ?thesis using Pop assms(1) by (simp add: ds_ringbuf_pop_def same_shape_def)
  next
    case 2
    have "same_shape rb (rb_drop rb)" by (simp add: same_shape_def rb_drop_def)
    then show ?thesis
      using Pop 2 pop_nonempty [OF assms(1) 2(1)] rb_drop_inv [OF assms(1) 2(1)]
      by (cases "rb_abs rb") simp_all
  qed
next
  case Peek
  from assms(1) show ?thesis
  proof (cases rule: rb_abs_cases)
    case 1
    then show ?thesis using Peek assms(1) by (simp add: ds_ringbuf_peek_def same_shape_def)
  next
    case 2
    then show ?thesis
      using Peek peek_nonempty [OF assms(1) 2(1)] assms(1)
      by (cases "rb_abs rb") (simp_all add: same_shape_def)
  qed
next
  case (Poke v)
  from assms(1) show ?thesis
  proof (cases rule: rb_abs_cases)
    case 1
    then show ?thesis using Poke assms(1) by (simp add: ds_ringbuf_poke_def same_shape_def)
  next
    case 2
    have len: "unat (item_size rb) \<le> length v" using Poke assms(2) by simp
    have "same_shape rb (rb_replace rb (take (unat (item_size rb)) v))"
      by (simp add: same_shape_def rb_replace_def)
    then show ?thesis
      using Poke 2 len poke_nonempty [OF assms(1) 2(1) len]
        rb_replace_inv [OF assms(1) 2(1), of "take (unat (item_size rb)) v"]
      by (cases "rb_abs rb") simp_all
  qed
next
  case Clear
  obtain rb' where c: "ds_ringbuf_clear (Some rb) = (DS_SUCCESS, Some rb')" "same_shape rb rb'"
    by (simp add: ds_ringbuf_clear_def same_shape_def)
  then show ?thesis using Clear clear_inv [OF assms(1) c(1)] by simp
qed

lemma rb_run_refines:
  assumes "rb_inv rb" "\<forall>op \<in> set ops. op_ok (unat (item_size rb)) op"
  shows "\<exists>rb'. rb_run (Some rb) ops =
           Some (fst (fifo_run (unat (capacity rb)) (unat (item_size rb)) (fail_on_full rb) (rb_abs rb) ops), Some rb')
         \<and> rb_inv rb'
         \<and> rb_abs rb' = snd (fifo_run (unat (capacity rb)) (unat (item_size rb)) (fail_on_full rb) (rb_abs rb) ops)"
  using assms
proof (induction ops arbitrary: rb)
  case Nil
  then show ?case by simp
next
  case (Cons op ops)
  then obtain rb1 where s: "rb_step rb op = Some (fst (fifo_step (unat (capacity rb))
        (unat (item_size rb)) (fail_on_full rb) (rb_abs rb) op), Some rb1)"
      "rb_inv rb1" "same_shape rb rb1"
      "rb_abs rb1 = snd (fifo_step (unat (capacity rb)) (unat (item_size rb)) (fail_on_full rb)
        (rb_abs rb) op)"
    using rb_step_refines [of rb op] by auto
  have sh: "capacity rb1 = capacity rb" "item_size rb1 = item_size rb"
    "fail_on_full rb1 = fail_on_full rb" using s(3) by (simp_all add: same_shape_def)
  show ?case
    using Cons.IH [OF s(2)] Cons.prems(2) s sh by (auto simp: case_prod_unfold Let_def)
qed

text \<open>
  A fresh buffer satisfies the invariant and is empty, provided its size does not overflow and
  the allocator delivers blocks of the requested size.
\<close>

lemma create_inv:
  assumes "alloc_total al"
    and "0 < cap" "unat cap * unat isz < 2 ^ 32"
  shows "\<exists>rb. ds_ringbuf_create al cap isz fof = Some rb \<and> rb_inv rb \<and> rb_abs rb = [] \<and>
           capacity rb = cap \<and> item_size rb = isz \<and> fail_on_full rb = fof"
proof -
  obtain b0 where "libds_malloc al 28 = Some b0" using assms(1) by (auto simp: alloc_total_def)
  moreover obtain b where b: "libds_malloc al (cap * isz) = Some b" "length b = unat (cap * isz)"
    using assms(1) by (auto simp: alloc_total_def)
  moreover have "unat (cap * isz) = unat cap * unat isz"
    using assms(3) by (simp add: unat_word_ariths)
  ultimately show ?thesis
    using assms(2,3) by (auto simp: ds_ringbuf_create_def rb_inv_def rb_abs_def word_less_nat_alt)
qed

text \<open>C1. A ring buffer created for \<open>cap > 0\<close> items of \<open>isz\<close> bytes, where \<open>cap * isz\<close> does
  not overflow, is a bounded FIFO queue: for every sequence of push, pop, peek, poke and clear
  calls, no call accesses memory outside the storage or traps, every call returns the status
  and the item that the queue specification returns, and the final content is the
  specification's.\<close>

theorem ringbuf_refines_fifo:
  assumes "alloc_total al"
    and "0 < cap" "unat cap * unat isz < 2 ^ 32"
    and "\<forall>op \<in> set ops. op_ok (unat isz) op"
  shows "\<exists>rb rb'. ds_ringbuf_create al cap isz fof = Some rb \<and>
     rb_run (Some rb) ops = Some (fst (fifo_run (unat cap) (unat isz) fof [] ops), Some rb') \<and>
     rb_abs rb' = snd (fifo_run (unat cap) (unat isz) fof [] ops)"
proof -
  obtain rb where c: "ds_ringbuf_create al cap isz fof = Some rb" "rb_inv rb" "rb_abs rb = []"
      "capacity rb = cap" "item_size rb = isz" "fail_on_full rb = fof"
    using create_inv [OF assms(1-3)] by blast
  then show ?thesis using rb_run_refines [OF c(2), of ops] assms(4) by auto
qed

theorem ringbuf_refines_fifo_witness:
  "\<exists>rb rb'. ds_ringbuf_create zero_alloc 2 1 False = Some rb \<and>
     rb_run (Some rb) [Push [1], Push [2], Push [3], Pop, Pop, Pop] =
       Some ([(DS_SUCCESS, None), (DS_SUCCESS, None), (DS_SUCCESS, None),
              (DS_SUCCESS, Some [2]), (DS_SUCCESS, Some [3]), (DS_ERR_EMPTY, None)], Some rb') \<and>
     rb_abs rb' = []"
proof -
  have sz: "(0::u32) < 2" "unat (2::u32) * unat (1::u32) < 2 ^ 32" by simp_all
  have ops: "\<forall>op \<in> set [Push [1], Push [2], Push [3], Pop, Pop, Pop]. op_ok (unat (1::u32)) op"
    by simp
  show ?thesis using ringbuf_refines_fifo [OF zero_alloc_total sz ops, of False] by simp
qed

subsection \<open>Byte buffers provide the queue interface\<close>

text \<open>
  A buffer created with an item size of one byte and \<open>fail_on_full\<close> set, as pipes and terminals
  create theirs.
\<close>

definition byte_rb_inv :: "ds_ringbuf option \<Rightarrow> bool" where
  "byte_rb_inv s \<longleftrightarrow>
     (case s of None \<Rightarrow> False | Some rb \<Rightarrow> rb_inv rb \<and> item_size rb = 1 \<and> fail_on_full rb)"

definition byte_rb_abs :: "ds_ringbuf option \<Rightarrow> u8 list" where
  "byte_rb_abs s = (case s of None \<Rightarrow> [] | Some rb \<Rightarrow> map hd (rb_abs rb))"

definition byte_rb_cap :: "ds_ringbuf option \<Rightarrow> nat" where
  "byte_rb_cap s = (case s of None \<Rightarrow> 0 | Some rb \<Rightarrow> unat (capacity rb))"

definition byte_push :: "ds_ringbuf option \<Rightarrow> u8 \<Rightarrow> (ds_result \<times> ds_ringbuf option) option" where
  "byte_push s b = ds_ringbuf_push s [b]"

definition byte_pop :: "ds_ringbuf option \<Rightarrow> (ds_result \<times> u8 option \<times> ds_ringbuf option) option" where
  "byte_pop s = map_option (\<lambda>(r, x, s'). (r, map_option hd x, s')) (ds_ringbuf_pop s)"

lemma byte_push_room:
  assumes "byte_rb_inv s" "length (byte_rb_abs s) < byte_rb_cap s"
  shows "\<exists>s'. byte_push s x = Some (DS_SUCCESS, s') \<and> byte_rb_inv s' \<and>
           byte_rb_abs s' = byte_rb_abs s @ [x] \<and> byte_rb_cap s' = byte_rb_cap s"
proof -
  obtain rb where s: "s = Some rb" and rb: "rb_inv rb" "item_size rb = 1" "fail_on_full rb"
    using assms(1) by (auto simp: byte_rb_inv_def split: option.splits)
  have room: "current_count rb \<noteq> capacity rb"
    using assms(2) s by (auto simp: byte_rb_abs_def byte_rb_cap_def length_rb_abs)
  have "ds_ringbuf_push (Some rb) [x] = Some (DS_SUCCESS, Some (rb_put rb [x]))"
    using push_room [OF rb(1) room, of "[x]"] rb(2) by simp
  moreover have "fail_on_full (rb_put rb [x])" "item_size (rb_put rb [x]) = 1"
    "capacity (rb_put rb [x]) = capacity rb" using rb by (simp_all add: rb_put_def)
  ultimately show ?thesis
    using s rb_put_inv [OF rb(1) room, of "[x]"] rb(2)
    by (simp add: byte_push_def byte_rb_inv_def byte_rb_abs_def byte_rb_cap_def)
qed

lemma byte_pop_nonempty:
  assumes "byte_rb_inv s" "byte_rb_abs s = x # xs"
  shows "\<exists>s'. byte_pop s = Some (DS_SUCCESS, Some x, s') \<and> byte_rb_inv s' \<and>
           byte_rb_abs s' = xs \<and> byte_rb_cap s' = byte_rb_cap s"
proof -
  obtain rb where s: "s = Some rb" and rb: "rb_inv rb" "item_size rb = 1" "fail_on_full rb"
    using assms(1) by (auto simp: byte_rb_inv_def split: option.splits)
  have ne: "rb_abs rb \<noteq> []" and hd: "hd (hd (rb_abs rb)) = x" and tl: "map hd (tl (rb_abs rb)) = xs"
    using assms(2) s by (auto simp: byte_rb_abs_def)
  have nz: "current_count rb \<noteq> 0" using ne rb_abs_empty_iff by blast
  have "fail_on_full (rb_drop rb)" "item_size (rb_drop rb) = 1" "capacity (rb_drop rb) = capacity rb"
    using rb by (simp_all add: rb_drop_def)
  then show ?thesis
    using s hd tl pop_nonempty [OF rb(1) nz] rb_drop_inv [OF rb(1) nz]
    by (simp add: byte_pop_def byte_rb_inv_def byte_rb_abs_def byte_rb_cap_def)
qed

interpretation byte_rb: bounded_fifo byte_rb_inv byte_rb_abs byte_rb_cap byte_push byte_pop
proof unfold_locales
  show "length (byte_rb_abs s) \<le> byte_rb_cap s" if "byte_rb_inv s" for s
    using that rb_invD(3)
    by (auto simp: byte_rb_inv_def byte_rb_abs_def byte_rb_cap_def length_rb_abs split: option.splits)
  show "byte_push s x = Some (DS_ERR_FULL, s)"
    if "byte_rb_inv s" "length (byte_rb_abs s) = byte_rb_cap s" for s x
    using that by (auto simp: byte_rb_inv_def byte_rb_abs_def byte_rb_cap_def byte_push_def
        length_rb_abs ds_ringbuf_push_def word_unat_eq_iff split: option.splits)
  show "byte_pop s = Some (DS_ERR_EMPTY, None, s)" if "byte_rb_inv s" "byte_rb_abs s = []" for s
    using that by (auto simp: byte_rb_inv_def byte_rb_abs_def byte_pop_def rb_abs_empty_iff
        ds_ringbuf_pop_def split: option.splits)
qed (blast intro: byte_push_room byte_pop_nonempty)+

end
