(* ===== verification/String_Map.thy ===== *)
theory String_Map
  imports Prelude
begin

section \<open>The string map interface\<close>

text \<open>
  The repository has two stores of named strings: the dictionaries of libds and the environment
  of libc. Both promise to be a finite map from strings to strings. The interface below states
  that promise for one operation at a time; the lemma proved from it covers whole histories of
  operations. \<open>room\<close> counts how many more entries are certain to fit, \<open>okk\<close> and \<open>okv\<close> say which
  keys and which entries the store accepts.
\<close>

datatype map_op = MPut string string bool | MDel string | MGet string

text \<open>The abstract store: what an operation answers and what the map is afterwards.\<close>

fun map_step :: "(string \<rightharpoonup> string) \<Rightarrow> map_op \<Rightarrow> string option \<times> (string \<rightharpoonup> string)" where
  "map_step m (MPut k v ow) = (None, if \<not> ow \<and> m k \<noteq> None then m else m(k \<mapsto> v))"
| "map_step m (MDel k) = (None, m(k := None))"
| "map_step m (MGet k) = (m k, m)"

fun map_run :: "(string \<rightharpoonup> string) \<Rightarrow> map_op list \<Rightarrow> string option list \<times> (string \<rightharpoonup> string)" where
  "map_run m [] = ([], m)"
| "map_run m (op # ops) =
     (let (a, m1) = map_step m op; (as, m2) = map_run m1 ops in (a # as, m2))"

text \<open>The same history on a store given by its three operations.\<close>

fun store_step ::
  "('s \<Rightarrow> string \<Rightarrow> string \<Rightarrow> bool \<Rightarrow> 's option) \<Rightarrow> ('s \<Rightarrow> string \<Rightarrow> 's option) \<Rightarrow>
   ('s \<Rightarrow> string \<Rightarrow> string option option) \<Rightarrow> 's \<Rightarrow> map_op \<Rightarrow> (string option \<times> 's) option" where
  "store_step put del get s (MPut k v ow) = map_option (\<lambda>s1. (None, s1)) (put s k v ow)"
| "store_step put del get s (MDel k) = map_option (\<lambda>s1. (None, s1)) (del s k)"
| "store_step put del get s (MGet k) = map_option (\<lambda>a. (a, s)) (get s k)"

fun store_run ::
  "('s \<Rightarrow> string \<Rightarrow> string \<Rightarrow> bool \<Rightarrow> 's option) \<Rightarrow> ('s \<Rightarrow> string \<Rightarrow> 's option) \<Rightarrow>
   ('s \<Rightarrow> string \<Rightarrow> string option option) \<Rightarrow> 's \<Rightarrow> map_op list \<Rightarrow> (string option list \<times> 's) option" where
  "store_run put del get s [] = Some ([], s)"
| "store_run put del get s (op # ops) =
     do { (a, s1) \<leftarrow> store_step put del get s op;
          (as, s2) \<leftarrow> store_run put del get s1 ops;
          Some (a # as, s2) }"

fun op_fits :: "(string \<Rightarrow> bool) \<Rightarrow> (string \<Rightarrow> string \<Rightarrow> bool) \<Rightarrow> map_op \<Rightarrow> bool" where
  "op_fits okk okv (MPut k v ow) = (okk k \<and> okv k v)"
| "op_fits okk okv (MDel k) = okk k"
| "op_fits okk okv (MGet k) = okk k"

locale string_map =
  fixes inv :: "'s \<Rightarrow> bool"
    and mp :: "'s \<Rightarrow> (string \<rightharpoonup> string)"
    and room :: "'s \<Rightarrow> nat"
    and okk :: "string \<Rightarrow> bool"
    and okv :: "string \<Rightarrow> string \<Rightarrow> bool"
    and put :: "'s \<Rightarrow> string \<Rightarrow> string \<Rightarrow> bool \<Rightarrow> 's option"
    and del :: "'s \<Rightarrow> string \<Rightarrow> 's option"
    and get :: "'s \<Rightarrow> string \<Rightarrow> string option option"
  assumes put_law: "\<lbrakk>inv s; okk k; okv k v; 0 < room s\<rbrakk> \<Longrightarrow>
      \<exists>s'. put s k v ow = Some s' \<and> inv s' \<and> room s \<le> Suc (room s') \<and>
           mp s' = (if \<not> ow \<and> mp s k \<noteq> None then mp s else (mp s)(k \<mapsto> v))"
    and del_law: "\<lbrakk>inv s; okk k\<rbrakk> \<Longrightarrow>
      \<exists>s'. del s k = Some s' \<and> inv s' \<and> room s \<le> room s' \<and> mp s' = (mp s)(k := None)"
    and get_law: "\<lbrakk>inv s; okk k\<rbrakk> \<Longrightarrow> get s k = Some (mp s k)"
begin

lemma step_refines:
  assumes "inv s" and "op_fits okk okv op" and "0 < room s"
  shows "\<exists>a s'. store_step put del get s op = Some (a, s') \<and> inv s' \<and> room s \<le> Suc (room s') \<and>
           map_step (mp s) op = (a, mp s')"
proof (cases op)
  case (MPut k v ow)
  then show ?thesis using put_law [of s k v ow] assms by fastforce
next
  case (MDel k)
  then show ?thesis using del_law [of s k] assms by fastforce
next
  case (MGet k)
  then show ?thesis using get_law [of s k] assms by fastforce
qed

lemma run_refines:
  assumes "inv s" and "\<forall>op\<in>set ops. op_fits okk okv op" and "length ops \<le> room s"
  shows "\<exists>as s'. store_run put del get s ops = Some (as, s') \<and> inv s' \<and>
           map_run (mp s) ops = (as, mp s')"
  using assms
proof (induction ops arbitrary: s)
  case Nil
  then show ?case by simp
next
  case (Cons op ops)
  obtain a s1 where s1: "store_step put del get s op = Some (a, s1)" "inv s1"
      "room s \<le> Suc (room s1)" "map_step (mp s) op = (a, mp s1)"
    using step_refines [of s op] Cons.prems by auto
  moreover have "length ops \<le> room s1" using s1(3) Cons.prems(3) by simp
  ultimately show ?case using Cons.IH [of s1] Cons.prems(2) by fastforce
qed

end

end
