(* ===== verification/Strdict.thy ===== *)
theory Strdict
  imports Libds String_Map "HOL-Library.AList"
begin

section \<open>String dictionaries (libds/src/strdict.c)\<close>

text \<open>
  The dictionary keeps its pairs in one array of C string pointers, the key of pair \<open>n\<close> at
  index \<open>2n\<close> and its value at \<open>2n + 1\<close>. A C string is an Isabelle string without the
  terminating NUL; \<open>None\<close> in the array is a NULL pointer. The array itself is NULL (\<open>None\<close>)
  in an empty dictionary. Dictionaries built by the operations refine maps from strings to
  strings (interface \<open>string_map\<close>), and \<open>ds_strdict_create_environ\<close> and
  \<open>ds_strdict_dump_environ\<close> are inverse to each other on well-formed environments.
\<close>

record ds_strdict =
  sd_capacity :: u32
  sd_count :: u32
  sd_items :: "string option list option"

definition DICT_GROW_COUNT :: u32 where
  "DICT_GROW_COUNT = 10"

text \<open>Reading \<open>dict->items[i]\<close>: \<open>None\<close> through a NULL array or outside it.\<close>

definition items_get :: "ds_strdict \<Rightarrow> nat \<Rightarrow> string option option" where
  "items_get dict i =
     (case sd_items dict of None \<Rightarrow> None
      | Some xs \<Rightarrow> if i < length xs then Some (xs ! i) else None)"

definition items_set :: "ds_strdict \<Rightarrow> nat \<Rightarrow> string option \<Rightarrow> ds_strdict option" where
  "items_set dict i p =
     (case sd_items dict of None \<Rightarrow> None
      | Some xs \<Rightarrow> if i < length xs then Some (dict\<lparr>sd_items := Some (xs[i := p])\<rparr>) else None)"

text \<open>
  A fresh copy of a string: \<open>libds_malloc(strlen(s) + 1)\<close> followed by the copy, which faults
  when the allocation failed.
\<close>

definition copy_str :: "allocators \<Rightarrow> string \<Rightarrow> string option" where
  "copy_str al s =
     (case libds_malloc al (of_nat (length s) + 1) of
        None \<Rightarrow> None
      | Some b \<Rightarrow> if length s + 1 \<le> length b then Some s else None)"

text \<open>
  Growing by ten pairs. The new block has \<open>sizeof(char*) * capacity * 2\<close> bytes, that is
  \<open>slots\<close> pointers; \<open>memset\<close> clears the twenty pointers after the old ones.
\<close>

definition dict_grow :: "allocators \<Rightarrow> ds_strdict \<Rightarrow> ds_strdict option" where
  "dict_grow al dict =
     (let old_capacity = sd_capacity dict;
          new_capacity = old_capacity + DICT_GROW_COUNT;
          slots = unat (4 * new_capacity * 2) div 4;
          old = (case sd_items dict of None \<Rightarrow> [] | Some xs \<Rightarrow> xs);
          first = unat (old_capacity * 2)
      in if \<not> libds_realloc al (4 * new_capacity * 2) then None
         else if first \<le> length old \<and> first + 20 \<le> slots
         then Some (dict\<lparr>sd_capacity := new_capacity,
                         sd_items := Some (take first old @ replicate (slots - first) None)\<rparr>)
         else None)"

text \<open>The search loop; \<open>strcmp\<close> faults on a NULL key.\<close>

fun dict_find_loop :: "ds_strdict \<Rightarrow> string \<Rightarrow> nat \<Rightarrow> nat \<Rightarrow> int option" where
  "dict_find_loop dict key i 0 = Some (-1)"
| "dict_find_loop dict key i (Suc n) =
     do { p \<leftarrow> items_get dict (i * 2);
          k \<leftarrow> p;
          if key = k then Some (int i) else dict_find_loop dict key (Suc i) n }"

definition dict_find_key :: "ds_strdict \<Rightarrow> string \<Rightarrow> int option" where
  "dict_find_key dict key = dict_find_loop dict key 0 (unat (sd_count dict))"

text \<open>\<open>sizeof(ds_strdict_t)\<close> is 12; a failed allocation faults at the first store.\<close>

definition ds_strdict_create :: "allocators \<Rightarrow> ds_strdict option" where
  "ds_strdict_create al =
     (case libds_malloc al 12 of None \<Rightarrow> None
      | Some _ \<Rightarrow> Some \<lparr>sd_capacity = 0, sd_count = 0, sd_items = None\<rparr>)"

text \<open>
  \<open>strchr(entry, '=')\<close> splits an entry at its first equality sign; \<open>None\<close> when there is none.
\<close>

fun split_eq :: "string \<Rightarrow> (string \<times> string) option" where
  "split_eq [] = None"
| "split_eq (c # cs) =
     (if c = CHR ''='' then Some ([], cs)
      else map_option (\<lambda>(k, v). (c # k, v)) (split_eq cs))"

fun environ_loop :: "allocators \<Rightarrow> ds_strdict \<Rightarrow> string list \<Rightarrow> ds_strdict option" where
  "environ_loop al dict [] = Some dict"
| "environ_loop al dict (entry # rest) =
     (case split_eq entry of
        None \<Rightarrow> environ_loop al dict rest
      | Some (k, v) \<Rightarrow>
          do { key \<leftarrow> copy_str al k;
               val \<leftarrow> copy_str al v;
               d1 \<leftarrow> items_set dict (unat (sd_count dict * 2)) (Some key);
               d2 \<leftarrow> items_set d1 (unat (sd_count d1 * 2 + 1)) (Some val);
               environ_loop al (d2\<lparr>sd_count := sd_count d2 + 1\<rparr>) rest })"

text \<open>
  \<open>ds_strdict_create_environ\<close>: the NULL-terminated array is the list of its strings. The
  freshly allocated slots have unknown contents; they are written before they are read, and the
  model starts them as NULL.
\<close>

definition ds_strdict_create_environ :: "allocators \<Rightarrow> string list option \<Rightarrow> ds_strdict option" where
  "ds_strdict_create_environ al environ =
     (case environ of
        None \<Rightarrow> ds_strdict_create al
      | Some env \<Rightarrow>
          do { dict \<leftarrow> ds_strdict_create al;
               let entries_count = (of_nat (length env) :: u32);
               items \<leftarrow> (if entries_count > 0
                         then (case libds_malloc al (4 * entries_count * 2) of
                                 None \<Rightarrow> Some None
                               | Some b \<Rightarrow> Some (Some (replicate (length b div 4) None)))
                         else Some None);
               environ_loop al (dict\<lparr>sd_capacity := entries_count, sd_items := items,
                                     sd_count := 0\<rparr>) env })"

definition ds_strdict_set ::
  "allocators \<Rightarrow> ds_strdict option \<Rightarrow> string \<Rightarrow> string \<Rightarrow> bool \<Rightarrow> (ds_result \<times> ds_strdict option) option" where
  "ds_strdict_set al dict key v overwrite =
     (case dict of
        None \<Rightarrow> Some (DS_ERR_INVALID, None)
      | Some d \<Rightarrow>
          do { existing_index \<leftarrow> dict_find_key d key;
               if existing_index \<ge> 0 \<and> \<not> overwrite then Some (DS_ERR_DUPLICATE, Some d)
               else if existing_index \<ge> 0 then
                 do { c \<leftarrow> copy_str al v;
                      d1 \<leftarrow> items_set d (nat (existing_index * 2 + 1)) (Some c);
                      Some (DS_SUCCESS, Some d1) }
               else
                 do { d1 \<leftarrow> (if sd_capacity d = sd_count d then dict_grow al d else Some d);
                      let key_idx = unat (sd_count d1 * 2);
                      kc \<leftarrow> copy_str al key;
                      vc \<leftarrow> copy_str al v;
                      d2 \<leftarrow> items_set d1 key_idx (Some kc);
                      d3 \<leftarrow> items_set d2 (key_idx + 1) (Some vc);
                      Some (DS_SUCCESS, Some (d3\<lparr>sd_count := sd_count d3 + 1\<rparr>)) } })"

definition ds_strdict_add ::
  "allocators \<Rightarrow> ds_strdict option \<Rightarrow> string \<Rightarrow> string \<Rightarrow> (ds_result \<times> ds_strdict option) option" where
  "ds_strdict_add al dict key v =
     map_option (\<lambda>(res, d). (if res = DS_ERR_DUPLICATE then DS_SUCCESS else res, d))
       (ds_strdict_set al dict key v False)"

text \<open>The string stored to \<open>*val\<close> is the second component of the result.\<close>

definition ds_strdict_get :: "ds_strdict option \<Rightarrow> string \<Rightarrow> (ds_result \<times> string option) option" where
  "ds_strdict_get dict key =
     (case dict of
        None \<Rightarrow> Some (DS_ERR_INVALID, None)
      | Some d \<Rightarrow>
          do { index \<leftarrow> dict_find_key d key;
               if index < 0 then Some (DS_ERR_NOT_FOUND, None)
               else do { p \<leftarrow> items_get d (nat (index * 2 + 1)); Some (DS_SUCCESS, p) } })"

definition ds_strdict_has :: "ds_strdict option \<Rightarrow> string \<Rightarrow> bool option" where
  "ds_strdict_has dict key =
     (case dict of None \<Rightarrow> Some False
      | Some d \<Rightarrow> do { index \<leftarrow> dict_find_key d key; Some (index \<ge> 0) })"

definition ds_strdict_clear :: "ds_strdict option \<Rightarrow> ds_result \<times> ds_strdict option" where
  "ds_strdict_clear dict =
     (case dict of
        None \<Rightarrow> (DS_ERR_INVALID, None)
      | Some d \<Rightarrow> (DS_SUCCESS, Some (d\<lparr>sd_items := None, sd_capacity := 0, sd_count := 0\<rparr>)))"

text \<open>
  Removal: the pairs after the removed one move down by \<open>memmove\<close>, and the last slot pair is
  set to NULL.
\<close>

definition ds_strdict_remove ::
  "ds_strdict option \<Rightarrow> string \<Rightarrow> (ds_result \<times> ds_strdict option) option" where
  "ds_strdict_remove dict key =
     (case dict of
        None \<Rightarrow> Some (DS_ERR_INVALID, None)
      | Some d \<Rightarrow>
          do { index \<leftarrow> dict_find_key d key;
               if index < 0 then Some (DS_ERR_NOT_FOUND, Some d)
               else
                 do { let key_idx = nat (index * 2);
                      xs \<leftarrow> sd_items d;
                      let items_to_move = unat ((sd_count d - of_int index - 1) * 2);
                      ys \<leftarrow> (if items_to_move > 0 then
                              (if key_idx + 2 + items_to_move \<le> length xs
                               then Some (take key_idx xs @ take items_to_move (drop (key_idx + 2) xs)
                                          @ drop (key_idx + items_to_move) xs)
                               else None)
                             else Some xs);
                      let n = sd_count d - 1;
                      d1 \<leftarrow> items_set (d\<lparr>sd_items := Some ys, sd_count := n\<rparr>) (unat (n * 2)) None;
                      d2 \<leftarrow> items_set d1 (unat (n * 2 + 1)) None;
                      Some (DS_SUCCESS, Some d2) } })"

definition ds_strdict_size :: "ds_strdict option \<Rightarrow> u32" where
  "ds_strdict_size dict = (case dict of None \<Rightarrow> 0 | Some d \<Rightarrow> sd_count d)"

definition ds_strdict_is_empty :: "ds_strdict option \<Rightarrow> bool" where
  "ds_strdict_is_empty dict \<longleftrightarrow> ds_strdict_size dict = 0"

fun dump_loop :: "allocators \<Rightarrow> ds_strdict \<Rightarrow> nat \<Rightarrow> nat \<Rightarrow> string list option" where
  "dump_loop al d i 0 = Some []"
| "dump_loop al d i (Suc n) =
     do { kp \<leftarrow> items_get d (i * 2);
          key \<leftarrow> kp;
          vp \<leftarrow> items_get d (i * 2 + 1);
          val \<leftarrow> vp;
          entry \<leftarrow> copy_str al (key @ ''='' @ val);
          rest \<leftarrow> dump_loop al d (Suc i) n;
          Some (entry # rest) }"

text \<open>The inner option is the NULL result for a NULL dictionary.\<close>

definition ds_strdict_dump_environ ::
  "allocators \<Rightarrow> ds_strdict option \<Rightarrow> string list option option" where
  "ds_strdict_dump_environ al dict =
     (case dict of
        None \<Rightarrow> Some None
      | Some d \<Rightarrow>
          (case libds_malloc al (4 * (sd_count d + 1)) of
             None \<Rightarrow> None
           | Some _ \<Rightarrow> map_option Some (dump_loop al d 0 (unat (sd_count d)))))"

subsection \<open>Invariant and abstraction\<close>

definition sd_list :: "ds_strdict \<Rightarrow> string option list" where
  "sd_list d = (case sd_items d of None \<Rightarrow> [] | Some xs \<Rightarrow> xs)"

fun flat :: "(string \<times> string) list \<Rightarrow> string option list" where
  "flat [] = []"
| "flat ((k, v) # ps) = Some k # Some v # flat ps"

text \<open>
  \<open>sd_rep d ps\<close>: the dictionary holds exactly the pairs \<open>ps\<close>, in order, at the start of an array
  of \<open>2 * capacity\<close> pointers. The bound on the capacity keeps the byte size below \<open>2 ^ 32\<close>.
\<close>

definition sd_rep :: "ds_strdict \<Rightarrow> (string \<times> string) list \<Rightarrow> bool" where
  "sd_rep d ps \<longleftrightarrow>
     unat (sd_count d) = length ps \<and>
     length ps \<le> unat (sd_capacity d) \<and>
     unat (sd_capacity d) \<le> 2 ^ 28 \<and>
     length (sd_list d) = 2 * unat (sd_capacity d) \<and>
     take (2 * length ps) (sd_list d) = flat ps \<and>
     (sd_items d = None \<longrightarrow> sd_capacity d = 0)"

lemma sd_list_Some [simp]: "sd_items d = Some xs \<Longrightarrow> sd_list d = xs"
  by (simp add: sd_list_def)

lemma length_flat [simp]: "length (flat ps) = 2 * length ps"
  by (induction ps rule: flat.induct) auto

lemma flat_append [simp]: "flat (ps @ qs) = flat ps @ flat qs"
  by (induction ps rule: flat.induct) auto

lemma flat_nth:
  "i < length ps \<Longrightarrow> flat ps ! (2 * i) = Some (fst (ps ! i)) \<and> flat ps ! (2 * i + 1) = Some (snd (ps ! i))"
proof (induction ps arbitrary: i rule: flat.induct)
  case (2 k v ps)
  then show ?case by (cases i) auto
qed simp

lemma flat_take: "flat (take n ps) = take (2 * n) (flat ps)"
  by (induction ps arbitrary: n rule: flat.induct) (auto simp: take_Cons' diff_mult_distrib2 numeral_2_eq_2)

lemma flat_drop: "flat (drop n ps) = drop (2 * n) (flat ps)"
  by (induction ps arbitrary: n rule: flat.induct) (auto simp: drop_Cons' diff_mult_distrib2 numeral_2_eq_2)

lemma flat_update:
  assumes "i < length ps"
  shows "flat (ps[i := (k, v)]) = (flat ps)[2 * i := Some k, 2 * i + 1 := Some v]"
  using assms
proof (induction ps arbitrary: i rule: flat.induct)
  case (2 k v ps)
  then show ?case by (cases i) auto
qed simp

text \<open>The position of the first pair with a key.\<close>

abbreviation key_pos :: "string \<Rightarrow> (string \<times> string) list \<Rightarrow> nat" where
  "key_pos k ps \<equiv> length (takeWhile (\<lambda>p. fst p \<noteq> k) ps)"

lemma key_pos_less: "k \<in> fst ` set ps \<Longrightarrow> key_pos k ps < length ps"
  by (induction ps) auto

lemma key_pos_key: "k \<in> fst ` set ps \<Longrightarrow> fst (ps ! key_pos k ps) = k"
  by (induction ps) auto

lemma map_of_key_pos: "k \<in> fst ` set ps \<Longrightarrow> map_of ps k = Some (snd (ps ! key_pos k ps))"
  by (induction ps) (auto split: if_splits)

lemma update_present: "k \<in> fst ` set ps \<Longrightarrow> AList.update k v ps = ps[key_pos k ps := (k, v)]"
  by (induction ps) auto

lemma update_absent: "k \<notin> fst ` set ps \<Longrightarrow> AList.update k v ps = ps @ [(k, v)]"
  by (induction ps) auto

lemma delete_present:
  assumes "distinct (map fst ps)" and "k \<in> fst ` set ps"
  shows "AList.delete k ps = take (key_pos k ps) ps @ drop (Suc (key_pos k ps)) ps"
  using assms
proof (induction ps)
  case (Cons p ps)
  show ?case
  proof (cases "fst p = k")
    case True
    then have "k \<notin> fst ` set ps" using Cons.prems(1) by auto
    then have "AList.delete k ps = ps" by (simp add: delete_id)
    then show ?thesis using True by (cases p) simp
  next
    case False
    then show ?thesis using Cons by (cases p) auto
  qed
qed simp

lemma sd_rep_items:
  assumes "sd_rep d ps" and "i < length ps"
  shows "items_get d (2 * i) = Some (Some (fst (ps ! i)))"
    and "items_get d (2 * i + 1) = Some (Some (snd (ps ! i)))"
proof -
  have r: "take (2 * length ps) (sd_list d) = flat ps" "length ps \<le> unat (sd_capacity d)"
    "length (sd_list d) = 2 * unat (sd_capacity d)" "sd_items d = None \<longrightarrow> sd_capacity d = 0"
    using assms(1) by (auto simp: sd_rep_def)
  obtain xs where xs: "sd_items d = Some xs" "sd_list d = xs"
    using r assms(2) by (cases "sd_items d") (auto simp: sd_list_def)
  have "xs ! j = flat ps ! j" if "j < 2 * length ps" for j
    using r(1) that unfolding xs(2) by (metis nth_take)
  moreover have "2 * i + 1 < length xs" using r(2,3) assms(2) xs(2) by simp
  ultimately show "items_get d (2 * i) = Some (Some (fst (ps ! i)))"
    "items_get d (2 * i + 1) = Some (Some (snd (ps ! i)))"
    using flat_nth [OF assms(2)] assms(2) by (simp_all add: items_get_def xs(1))
qed

lemma dict_find_loop_rep:
  assumes "sd_rep d ps" and "i + n = length ps"
  shows "dict_find_loop d k i n =
    Some (if k \<in> fst ` set (drop i ps) then int (i + key_pos k (drop i ps)) else -1)"
  using assms(2)
proof (induction n arbitrary: i)
  case (Suc n)
  then have i: "i < length ps" by simp
  then have d: "drop i ps = ps ! i # drop (Suc i) ps" by (simp add: Cons_nth_drop_Suc)
  show ?case
    using sd_rep_items(1) [OF assms(1) i] Suc.IH [of "Suc i"] Suc.prems
    by (auto simp: d mult.commute)
qed simp

lemma dict_find_key_rep:
  assumes "sd_rep d ps"
  shows "dict_find_key d k = Some (if k \<in> fst ` set ps then int (key_pos k ps) else -1)"
  using dict_find_loop_rep [OF assms, of 0 "length ps" k] assms
  by (simp add: dict_find_key_def sd_rep_def)

subsection \<open>The operations on represented dictionaries\<close>

lemma copy_str_total:
  assumes "alloc_total al" and "length s + 1 < 2 ^ 32"
  shows "copy_str al s = Some s"
proof -
  have "unat (of_nat (length s) + 1 :: u32) = length s + 1"
    using assms(2) by (intro unat_eqI) simp_all
  moreover obtain b where "libds_malloc al (of_nat (length s) + 1) = Some b"
      "length b = unat (of_nat (length s) + 1 :: u32)"
    using assms(1) unfolding alloc_total_def by blast
  ultimately show ?thesis by (simp add: copy_str_def)
qed

lemma dict_create_rep: "alloc_total al \<Longrightarrow> \<exists>d. ds_strdict_create al = Some d \<and> sd_rep d []"
  by (auto simp: ds_strdict_create_def alloc_total_def sd_rep_def sd_list_def split: option.split)

lemma dict_clear_rep: "\<exists>d'. ds_strdict_clear (Some d) = (DS_SUCCESS, Some d') \<and> sd_rep d' []"
  by (simp add: ds_strdict_clear_def sd_rep_def sd_list_def)

lemma dict_get_rep:
  assumes "sd_rep d ps"
  shows "ds_strdict_get (Some d) k =
    Some (case map_of ps k of None \<Rightarrow> (DS_ERR_NOT_FOUND, None) | Some v \<Rightarrow> (DS_SUCCESS, Some v))"
proof (cases "k \<in> fst ` set ps")
  case True
  then show ?thesis
    using sd_rep_items(2) [OF assms key_pos_less [OF True]] map_of_key_pos [OF True]
    by (simp add: ds_strdict_get_def dict_find_key_rep [OF assms] nat_add_distrib nat_mult_distrib
        mult.commute)
next
  case False
  then have "map_of ps k = None" by (simp add: map_of_eq_None_iff)
  then show ?thesis using False by (simp add: ds_strdict_get_def dict_find_key_rep [OF assms])
qed

lemma dict_has_rep:
  assumes "sd_rep d ps"
  shows "ds_strdict_has (Some d) k = Some (map_of ps k \<noteq> None)"
  using dict_find_key_rep [OF assms, of k]
  by (auto simp: ds_strdict_has_def map_of_eq_None_iff)

lemma dict_grow_rep:
  assumes "alloc_total al" and "sd_rep d ps" and "unat (sd_capacity d) + 10 \<le> 2 ^ 28"
  shows "\<exists>d'. dict_grow al d = Some d' \<and> sd_rep d' ps \<and> sd_count d' = sd_count d \<and>
           unat (sd_capacity d') = unat (sd_capacity d) + 10"
proof -
  define c where "c = unat (sd_capacity d)"
  have cw: "sd_capacity d = of_nat c" by (simp add: c_def)
  have b: "c + 10 \<le> 2 ^ 28" using assms(3) by (simp add: c_def)
  have n1: "unat (sd_capacity d + 10) = c + 10" using b by (intro unat_eqI) (simp_all add: cw)
  have n2: "unat (4 * (sd_capacity d + 10) * 2) = 8 * (c + 10)"
    using b by (intro unat_eqI) (simp_all add: cw)
  have n3: "unat (sd_capacity d * 2) = 2 * c" using b by (intro unat_eqI) (simp_all add: cw)
  have len: "length (sd_list d) = 2 * c" "take (2 * length ps) (sd_list d) = flat ps"
    "length ps \<le> c" using assms(2) by (simp_all add: sd_rep_def c_def)
  have old: "(case sd_items d of None \<Rightarrow> [] | Some xs \<Rightarrow> xs) = sd_list d" by (simp add: sd_list_def)
  have slots: "8 * (c + 10) div 4 = 2 * c + 20" by simp
  define d' where "d' = d\<lparr>sd_capacity := sd_capacity d + 10,
      sd_items := Some (sd_list d @ replicate 20 None)\<rparr>"
  have "dict_grow al d = Some d'"
    using assms(1) len(1)
    unfolding dict_grow_def DICT_GROW_COUNT_def Let_def n2 n3 old slots d'_def alloc_total_def
    by simp
  moreover have "sd_rep d' ps"
    using assms(2) b len n1 by (simp add: sd_rep_def d'_def c_def [symmetric])
  ultimately show ?thesis using n1 by (auto simp: d'_def c_def)
qed

lemma sd_rep_array:
  assumes "sd_rep d ps" and "0 < unat (sd_capacity d)"
  obtains xs where "sd_items d = Some xs" and "length xs = 2 * unat (sd_capacity d)"
    and "take (2 * length ps) xs = flat ps"
  using assms by (cases "sd_items d") (auto simp: sd_rep_def)

lemma sd_rep_count: "sd_rep d ps \<Longrightarrow> sd_count d = of_nat (length ps)"
  by (rule word_eq_of_nat) (simp add: sd_rep_def)

lemma sd_rep_replace:
  assumes "sd_rep d ps" and i: "i < length ps"
  shows "\<exists>d'. items_set d (2 * i + 1) (Some v) = Some d' \<and> sd_rep d' (ps[i := (fst (ps ! i), v)])"
proof -
  have r: "length ps \<le> unat (sd_capacity d)" using assms(1) by (simp add: sd_rep_def)
  then obtain xs where xs: "sd_items d = Some xs" "length xs = 2 * unat (sd_capacity d)"
      "take (2 * length ps) xs = flat ps"
    using sd_rep_array [OF assms(1)] i by auto
  define d' where "d' = d\<lparr>sd_items := Some (xs[2 * i + 1 := Some v])\<rparr>"
  have "take (2 * length ps) (xs[2 * i + 1 := Some v]) = (flat ps)[2 * i + 1 := Some v]"
    using xs(3) by (metis take_update_swap)
  also have "\<dots> = flat (ps[i := (fst (ps ! i), v)])"
    using flat_update [OF i, of "fst (ps ! i)" v] flat_nth [OF i] list_update_id
    by metis
  finally have "sd_rep d' (ps[i := (fst (ps ! i), v)])"
    using assms(1) xs(1,2) by (simp add: sd_rep_def d'_def)
  then show ?thesis using xs(1,2) r i by (auto simp: items_set_def d'_def)
qed

lemma sd_rep_append:
  assumes "sd_rep d ps" and c: "length ps < unat (sd_capacity d)"
  shows "\<exists>d1 d2. items_set d (2 * length ps) (Some k) = Some d1 \<and> sd_count d1 = sd_count d \<and>
           items_set d1 (2 * length ps + 1) (Some v) = Some d2 \<and>
           sd_capacity d2 = sd_capacity d \<and> sd_rep (d2\<lparr>sd_count := sd_count d2 + 1\<rparr>) (ps @ [(k, v)])"
proof -
  obtain xs where xs: "sd_items d = Some xs" "length xs = 2 * unat (sd_capacity d)"
      "take (2 * length ps) xs = flat ps"
    using sd_rep_array [OF assms(1)] c by auto
  let ?n = "length ps"
  let ?ys = "xs[2 * ?n := Some k, 2 * ?n + 1 := Some v]"
  define d2 where "d2 = d\<lparr>sd_items := Some ?ys\<rparr>"
  have cnt: "unat (sd_count d) = ?n" "unat (sd_capacity d) \<le> 2 ^ 28"
    using assms(1) by (simp_all add: sd_rep_def)
  have n1: "unat (sd_count d + 1) = ?n + 1"
    using c cnt(2) by (intro unat_eqI) (simp_all flip: cnt(1))
  have "take (2 * ?n + 2) ?ys = take (2 * ?n) ?ys @ [Some k, Some v]"
    using xs(2) c by (simp add: take_Suc_conv_app_nth)
  also have "take (2 * ?n) ?ys = flat ps" using xs(3) by simp
  finally have "take (2 * ?n + 2) ?ys = flat (ps @ [(k, v)])" by simp
  then have "sd_rep (d2\<lparr>sd_count := sd_count d2 + 1\<rparr>) (ps @ [(k, v)])"
    using assms(1) xs c n1 by (simp add: sd_rep_def d2_def)
  then show ?thesis using xs(1,2) c by (auto simp: items_set_def d2_def)
qed

lemma dict_set_rep:
  assumes al: "alloc_total al" and rep: "sd_rep d ps" and room: "length ps + 10 < 2 ^ 28"
    and k: "length k + 1 < 2 ^ 32" and v: "length v + 1 < 2 ^ 32"
  shows "\<exists>d'. ds_strdict_set al (Some d) k v ow =
           Some (if k \<in> fst ` set ps \<and> \<not> ow then DS_ERR_DUPLICATE else DS_SUCCESS, Some d') \<and>
         sd_rep d' (if k \<in> fst ` set ps \<and> \<not> ow then ps else AList.update k v ps)"
proof (cases "k \<in> fst ` set ps")
  case True
  have "\<exists>d'. items_set d (2 * key_pos k ps + 1) (Some v) = Some d' \<and> sd_rep d' (AList.update k v ps)"
    using sd_rep_replace [OF rep key_pos_less [OF True], of v]
    by (simp add: update_present [OF True] key_pos_key [OF True])
  then show ?thesis
    using True rep by (auto simp: ds_strdict_set_def dict_find_key_rep [OF rep]
        copy_str_total [OF al v] nat_add_distrib nat_mult_distrib mult.commute)
next
  case False
  have cap: "unat (sd_count d) = length ps" "length ps \<le> unat (sd_capacity d)"
    using rep by (simp_all add: sd_rep_def)
  obtain d1 where d1: "(if sd_capacity d = sd_count d then dict_grow al d else Some d) = Some d1"
      "sd_rep d1 ps" "length ps < unat (sd_capacity d1)"
  proof (cases "sd_capacity d = sd_count d")
    case True
    then show ?thesis using dict_grow_rep [OF al rep] room cap that by auto
  next
    case False
    then have "length ps < unat (sd_capacity d)" using cap by (metis le_neq_implies_less word_unat_eq_iff)
    then show ?thesis using False rep that by simp
  qed
  have "unat (sd_count d1 * 2) = 2 * length ps"
    using room by (intro unat_eqI) (simp_all add: sd_rep_count [OF d1(2)] mult.commute)
  then show ?thesis
    using False d1 sd_rep_append [OF d1(2,3), of k v]
    by (auto simp: ds_strdict_set_def dict_find_key_rep [OF rep] Let_def
        copy_str_total [OF al v] copy_str_total [OF al k] update_absent)
qed

lemma take_memmove:
  assumes "i < n" and "2 * n \<le> length xs" and "take (2 * n) xs = flat ps" and "length ps = n"
    and "ys = take (2 * i) xs @ take (2 * (n - i - 1)) (drop (2 * i + 2) xs) @ drop (2 * (n - 1)) xs"
  shows "take (2 * (n - 1)) ys = flat (take i ps @ drop (Suc i) ps)" and "length ys = length xs"
proof -
  have a: "take (2 * i) xs = flat (take i ps)"
    using assms(1) by (simp add: flat_take flip: assms(3))
  have "take (2 * (n - i - 1)) (drop (2 * i + 2) xs) = drop (2 * i + 2) (take (2 * n) xs)"
    using assms(1) by (simp add: drop_take diff_mult_distrib2)
  also have "\<dots> = flat (drop (Suc i) ps)"
    by (simp add: assms(3) flat_drop)
  finally have b: "take (2 * (n - i - 1)) (drop (2 * i + 2) xs) = flat (drop (Suc i) ps)" .
  have l: "length (take (2 * i) xs @ take (2 * (n - i - 1)) (drop (2 * i + 2) xs)) = 2 * (n - 1)"
    using assms(1,2) by simp
  have c: "ys = (take (2 * i) xs @ take (2 * (n - i - 1)) (drop (2 * i + 2) xs)) @ drop (2 * (n - 1)) xs"
    using assms(5) by simp
  have "take (2 * (n - 1)) ys = take (2 * i) xs @ take (2 * (n - i - 1)) (drop (2 * i + 2) xs)"
    unfolding c by (subst l [symmetric]) (rule append_eq_conv_conj [THEN iffD1, THEN conjunct1, symmetric], rule refl)
  then show "take (2 * (n - 1)) ys = flat (take i ps @ drop (Suc i) ps)"
    by (simp only: a b flat_append)
  show "length ys = length xs" using l assms(1,2) by (simp add: c)
qed

lemma dict_remove_rep:
  assumes rep: "sd_rep d ps" and dist: "distinct (map fst ps)"
  shows "\<exists>d'. ds_strdict_remove (Some d) k =
           Some (if k \<in> fst ` set ps then DS_SUCCESS else DS_ERR_NOT_FOUND, Some d') \<and>
         sd_rep d' (AList.delete k ps)"
proof (cases "k \<in> fst ` set ps")
  case False
  then show ?thesis
    using rep by (simp add: ds_strdict_remove_def dict_find_key_rep [OF rep] delete_id)
next
  case True
  define i n where "i = key_pos k ps" and "n = length ps"
  have i: "i < n" using key_pos_less [OF True] by (simp add: i_def n_def)
  have cap: "n \<le> unat (sd_capacity d)" "unat (sd_capacity d) \<le> 2 ^ 28"
    using rep by (simp_all add: sd_rep_def n_def)
  obtain xs where xs: "sd_items d = Some xs" "length xs = 2 * unat (sd_capacity d)"
      "take (2 * n) xs = flat ps"
    using sd_rep_array [OF rep] i cap unfolding n_def by auto
  have cnt: "sd_count d = of_nat n" using sd_rep_count [OF rep] by (simp add: n_def)
  have move: "unat ((sd_count d - of_int (int i) - 1) * 2) = 2 * (n - i - 1)"
    using i cap by (intro unat_eqI) (simp_all add: cnt of_nat_diff mult.commute)
  have n1: "unat (sd_count d - 1) = n - 1" "unat ((sd_count d - 1) * 2) = 2 * (n - 1)"
      "unat ((sd_count d - 1) * 2 + 1) = 2 * (n - 1) + 1"
    using i cap by (intro unat_eqI; simp add: cnt of_nat_diff mult.commute)+
  define ys where
    "ys = take (2 * i) xs @ take (2 * (n - i - 1)) (drop (2 * i + 2) xs) @ drop (2 * (n - 1)) xs"
  have ys: "take (2 * (n - 1)) ys = flat (take i ps @ drop (Suc i) ps)" "length ys = length xs"
    using take_memmove [OF i _ xs(3) n_def [symmetric] ys_def] xs(2) cap by simp_all
  have moved: "(if 0 < 2 * (n - i - 1)
      then if 2 * i + 2 + 2 * (n - i - 1) \<le> length xs
           then Some (take (2 * i) xs @ take (2 * (n - i - 1)) (drop (2 * i + 2) xs)
                      @ drop (2 * i + 2 * (n - i - 1)) xs) else None
      else Some xs) = Some ys"
  proof (cases "n = i + 1")
    case False
    then have "2 * i + 2 + 2 * (n - i - 1) = 2 * n" "2 * i + 2 * (n - i - 1) = 2 * (n - 1)"
      using i by auto
    then show ?thesis using False i cap xs(2) by (simp add: ys_def)
  qed (simp add: ys_def)
  have find: "dict_find_key d k = Some (int i)"
    using True by (simp add: dict_find_key_rep [OF rep] i_def)
  have key: "nat (int i * 2) = 2 * i" and pos: "\<not> int i < 0" by simp_all
  define d' where "d' = d\<lparr>sd_items := Some (ys[2 * (n - 1) := None, 2 * (n - 1) + 1 := None]),
      sd_count := sd_count d - 1\<rparr>"
  have "ds_strdict_remove (Some d) k = Some (DS_SUCCESS, Some d')"
    using i cap xs(2) ys(2) unfolding ds_strdict_remove_def option.case find Option.bind.simps if_not_P [OF pos]
      Let_def key xs(1) move moved n1 by (simp add: items_set_def d'_def)
  moreover have "sd_rep d' (AList.delete k ps)"
    using rep xs ys n1 i cap
    by (simp add: delete_present [OF dist True] i_def [symmetric] sd_rep_def d'_def n_def [symmetric])
  ultimately show ?thesis using True by auto
qed

subsection \<open>Environments\<close>

definition join_eq :: "string \<times> string \<Rightarrow> string" where
  "join_eq p = fst p @ ''='' @ snd p"

lemma split_eq_length: "split_eq e = Some (k, v) \<Longrightarrow> length e = length k + length v + 1"
  by (induction e arbitrary: k) (auto split: if_splits)

lemma split_eq_join: "split_eq e = Some p \<Longrightarrow> join_eq p = e"
  by (induction e arbitrary: p) (auto simp: join_eq_def split: if_splits)

lemma split_join_eq: "CHR ''='' \<notin> set k \<Longrightarrow> split_eq (join_eq (k, v)) = Some (k, v)"
  by (induction k) (auto simp: join_eq_def)

lemma split_eq_None: "split_eq e = None \<longleftrightarrow> CHR ''='' \<notin> set e"
  by (induction e) auto

lemma has_eq: "CHR ''='' \<in> set e \<longleftrightarrow> (\<exists>p. split_eq e = Some p)"
  using split_eq_None [of e] by auto

lemma map_join_filter: "map join_eq (List.map_filter split_eq env) = filter (\<lambda>e. CHR ''='' \<in> set e) env"
  by (induction env) (auto simp: map_filter_simps split_eq_join has_eq split: option.split)

lemma environ_loop_rep:
  assumes "alloc_total al" and "sd_rep d ps" and "length ps + length env \<le> unat (sd_capacity d)"
    and "\<forall>e\<in>set env. length e < 2 ^ 31"
  shows "\<exists>d'. environ_loop al d env = Some d' \<and> sd_rep d' (ps @ List.map_filter split_eq env)"
  using assms(2-)
proof (induction env arbitrary: d ps)
  case Nil
  then show ?case by (simp add: map_filter_simps)
next
  case (Cons e env)
  show ?case
  proof (cases "split_eq e")
    case None
    then show ?thesis using Cons by (simp add: map_filter_simps)
  next
    case (Some p)
    obtain k v where p: "p = (k, v)" by (cases p)
    have len: "length k + 1 < 2 ^ 32" "length v + 1 < 2 ^ 32"
      using split_eq_length Some p Cons.prems(3) by fastforce+
    have cap: "length ps < unat (sd_capacity d)" "unat (sd_capacity d) \<le> 2 ^ 28"
      using Cons.prems(1,2) by (simp_all add: sd_rep_def)
    obtain d1 d2 where d2: "items_set d (2 * length ps) (Some k) = Some d1" "sd_count d1 = sd_count d"
        "items_set d1 (2 * length ps + 1) (Some v) = Some d2" "sd_capacity d2 = sd_capacity d"
        "sd_rep (d2\<lparr>sd_count := sd_count d2 + 1\<rparr>) (ps @ [(k, v)])"
      using sd_rep_append [OF Cons.prems(1) cap(1), of k v] by blast
    have idx: "unat (sd_count d * 2) = 2 * length ps" "unat (sd_count d * 2 + 1) = 2 * length ps + 1"
      using cap by (intro unat_eqI; simp add: sd_rep_count [OF Cons.prems(1)] mult.commute)+
    show ?thesis
      using Cons.IH [OF d2(5)] Cons.prems(2,3) d2 idx
      by (simp add: Some p copy_str_total [OF assms(1) len(1)] copy_str_total [OF assms(1) len(2)]
          map_filter_simps)
  qed
qed

lemma create_environ_rep:
  assumes "alloc_total al" and "length env \<le> 2 ^ 28" and "\<forall>e\<in>set env. length e < 2 ^ 31"
  shows "\<exists>d. ds_strdict_create_environ al (Some env) = Some d \<and> sd_rep d (List.map_filter split_eq env)"
proof -
  let ?n = "of_nat (length env) :: u32"
  obtain d0 where d0: "ds_strdict_create al = Some d0"
    using dict_create_rep [OF assms(1)] by blast
  have n: "unat ?n = length env" "unat (4 * ?n * 2) = 8 * length env"
    using assms(2) by (intro unat_eqI; simp)+
  obtain b where b: "libds_malloc al (4 * ?n * 2) = Some b" "length b = 8 * length env"
    using assms(1) n(2) unfolding alloc_total_def by metis
  define items where "items = (if ?n > 0 then Some (replicate (2 * length env) (None :: string option)) else None)"
  define d where "d = d0\<lparr>sd_capacity := ?n, sd_items := items, sd_count := 0\<rparr>"
  have pos: "?n > 0 \<longleftrightarrow> env \<noteq> []" using n(1) by (auto simp: word_less_nat_alt)
  have "sd_rep d []"
    using assms(2) n(1) by (auto simp: sd_rep_def d_def items_def pos sd_list_def)
  then obtain d' where "environ_loop al d env = Some d'" "sd_rep d' (List.map_filter split_eq env)"
    using environ_loop_rep [OF assms(1), of d "[]" env] assms(3) n(1) by (auto simp: d_def)
  moreover have "ds_strdict_create_environ al (Some env) = environ_loop al d env"
    using b by (simp add: ds_strdict_create_environ_def d0 Let_def d_def items_def)
  ultimately show ?thesis by simp
qed

lemma dump_loop_rep:
  assumes "alloc_total al" and "sd_rep d ps" and "i + n = length ps"
    and "\<forall>p\<in>set ps. length (join_eq p) + 1 < 2 ^ 32"
  shows "dump_loop al d i n = Some (map join_eq (drop i ps))"
  using assms(3)
proof (induction n arbitrary: i)
  case (Suc n)
  then have i: "i < length ps" by simp
  then have "length (join_eq (ps ! i)) + 1 < 2 ^ 32" using assms(4) by simp
  from copy_str_total [OF assms(1) this]
  have "copy_str al (fst (ps ! i) @ ''='' @ snd (ps ! i)) = Some (join_eq (ps ! i))"
    by (simp add: join_eq_def)
  then show ?case
    using sd_rep_items [OF assms(2) i] Suc
    by (simp add: mult.commute Cons_nth_drop_Suc [OF i, symmetric])
qed simp

lemma dump_environ_rep:
  assumes "alloc_total al" and "sd_rep d ps" and "\<forall>p\<in>set ps. length (join_eq p) + 1 < 2 ^ 32"
  shows "ds_strdict_dump_environ al (Some d) = Some (Some (map join_eq ps))"
proof -
  obtain b where "libds_malloc al (4 * (sd_count d + 1)) = Some b"
    using assms(1) by (auto simp: alloc_total_def)
  then show ?thesis
    using dump_loop_rep [OF assms(1,2) _ assms(3), of 0 "length ps"] assms(2)
    by (simp add: ds_strdict_dump_environ_def sd_rep_def)
qed

subsection \<open>Dictionaries are string maps\<close>

text \<open>The pairs in the array, and the store formed by the allocators and a dictionary.\<close>

definition sd_pairs :: "ds_strdict \<Rightarrow> (string \<times> string) list" where
  "sd_pairs d = map (\<lambda>i. (the (sd_list d ! (2 * i)), the (sd_list d ! (2 * i + 1)))) [0..<unat (sd_count d)]"

definition dict_inv :: "allocators \<times> ds_strdict \<Rightarrow> bool" where
  "dict_inv s \<longleftrightarrow> alloc_total (fst s) \<and> sd_rep (snd s) (sd_pairs (snd s)) \<and>
     distinct (map fst (sd_pairs (snd s)))"

definition dict_map :: "allocators \<times> ds_strdict \<Rightarrow> (string \<rightharpoonup> string)" where
  "dict_map s = map_of (sd_pairs (snd s))"

definition dict_room :: "allocators \<times> ds_strdict \<Rightarrow> nat" where
  "dict_room s = 2 ^ 28 - 10 - unat (sd_count (snd s))"

definition dict_put ::
  "allocators \<times> ds_strdict \<Rightarrow> string \<Rightarrow> string \<Rightarrow> bool \<Rightarrow> (allocators \<times> ds_strdict) option" where
  "dict_put s k v ow =
     (case ds_strdict_set (fst s) (Some (snd s)) k v ow of
        Some (_, Some d) \<Rightarrow> Some (fst s, d) | _ \<Rightarrow> None)"

definition dict_del :: "allocators \<times> ds_strdict \<Rightarrow> string \<Rightarrow> (allocators \<times> ds_strdict) option" where
  "dict_del s k =
     (case ds_strdict_remove (Some (snd s)) k of Some (_, Some d) \<Rightarrow> Some (fst s, d) | _ \<Rightarrow> None)"

definition dict_get :: "allocators \<times> ds_strdict \<Rightarrow> string \<Rightarrow> string option option" where
  "dict_get s k = map_option snd (ds_strdict_get (Some (snd s)) k)"

definition c_len :: "string \<Rightarrow> bool" where
  "c_len s \<longleftrightarrow> length s + 1 < 2 ^ 32"

lemma sd_pairs_rep:
  assumes "sd_rep d ps"
  shows "sd_pairs d = ps"
proof (rule nth_equalityI)
  show "length (sd_pairs d) = length ps" using assms by (simp add: sd_pairs_def sd_rep_def)
  fix i assume "i < length (sd_pairs d)"
  then have i: "i < length ps" using assms by (simp add: sd_pairs_def sd_rep_def)
  have "items_get d j = Some p \<Longrightarrow> sd_list d ! j = p" for j p
    by (auto simp: items_get_def split: option.splits if_splits)
  then have "sd_list d ! (2 * i) = Some (fst (ps ! i))" "sd_list d ! (2 * i + 1) = Some (snd (ps ! i))"
    using sd_rep_items [OF assms i] by blast+
  then show "sd_pairs d ! i = ps ! i" using assms i by (simp add: sd_pairs_def sd_rep_def)
qed

lemma dict_invI:
  "alloc_total al \<Longrightarrow> sd_rep d ps \<Longrightarrow> distinct (map fst ps) \<Longrightarrow>
     dict_inv (al, d) \<and> dict_map (al, d) = map_of ps \<and> dict_room (al, d) = 2 ^ 28 - 10 - length ps"
  by (simp add: dict_inv_def dict_map_def dict_room_def sd_pairs_rep) (simp add: sd_rep_def)

lemma length_update_le: "length (AList.update k v ps) \<le> Suc (length ps)"
  by (induction ps) auto

interpretation strdict: string_map dict_inv dict_map dict_room c_len "\<lambda>_. c_len"
  dict_put dict_del dict_get
proof unfold_locales
  fix s k v ow
  assume inv: "dict_inv s" and ok: "c_len k" "c_len v" "0 < dict_room s"
  obtain al d where s: "s = (al, d)" by (cases s)
  define ps where "ps = sd_pairs d"
  have i: "alloc_total al" "sd_rep d ps" "distinct (map fst ps)"
    using inv by (simp_all add: dict_inv_def s ps_def)
  let ?ps' = "if k \<in> fst ` set ps \<and> \<not> ow then ps else AList.update k v ps"
  have "length ps + 10 < 2 ^ 28" using ok(3) dict_invI [OF i] by (simp add: s)
  with dict_set_rep [OF i(1,2), of k v ow] ok(1,2) obtain d' r where
    d': "ds_strdict_set al (Some d) k v ow = Some (r, Some d')" "sd_rep d' ?ps'"
    by (auto simp: c_len_def)
  have "distinct (map fst ?ps')" using i(3) by (simp add: distinct_update)
  from dict_invI [OF i(1) d'(2) this] d'(1) dict_invI [OF i] length_update_le [of k v ps]
  show "\<exists>s'. dict_put s k v ow = Some s' \<and> dict_inv s' \<and> dict_room s \<le> Suc (dict_room s') \<and>
      dict_map s' = (if \<not> ow \<and> dict_map s k \<noteq> None then dict_map s else (dict_map s)(k \<mapsto> v))"
    by (auto simp: dict_put_def s update_conv' map_of_eq_None_iff)
next
  fix s k
  assume inv: "dict_inv s" and ok: "c_len k"
  obtain al d where s: "s = (al, d)" by (cases s)
  define ps where "ps = sd_pairs d"
  have i: "alloc_total al" "sd_rep d ps" "distinct (map fst ps)"
    using inv by (simp_all add: dict_inv_def s ps_def)
  obtain d' r where d': "ds_strdict_remove (Some d) k = Some (r, Some d')" "sd_rep d' (AList.delete k ps)"
    using dict_remove_rep [OF i(2,3), of k] by blast
  have "distinct (map fst (AList.delete k ps))" using i(3) by (simp add: distinct_delete)
  from dict_invI [OF i(1) d'(2) this] d'(1) dict_invI [OF i] length_delete_le [of k ps]
  show "\<exists>s'. dict_del s k = Some s' \<and> dict_inv s' \<and> dict_room s \<le> dict_room s' \<and>
      dict_map s' = (dict_map s)(k := None)"
    by (auto simp: dict_del_def s delete_conv')
  show "dict_get s k = Some (dict_map s k)"
    using dict_get_rep [OF i(2), of k] dict_invI [OF i] by (auto simp: dict_get_def s split: option.split)
qed

subsection \<open>Properties\<close>

text \<open>
  C2. A dictionary is a finite map: any history of \<open>set\<close>, \<open>remove\<close> and \<open>get\<close> calls on a fresh
  dictionary runs without a memory fault, answers every lookup as the abstract map does and ends
  with exactly the pairs of the abstract map, through all growths of the array.
\<close>

theorem strdict_refines_map:
  assumes "alloc_total al"
    and "\<forall>op\<in>set ops. op_fits c_len (\<lambda>_. c_len) op"
    and "length ops \<le> 2 ^ 28 - 10"
  shows "\<exists>d as s'. ds_strdict_create al = Some d \<and>
           store_run dict_put dict_del dict_get (al, d) ops = Some (as, s') \<and>
           dict_inv s' \<and> map_run (\<lambda>_. None) ops = (as, dict_map s')"
proof -
  obtain d where d: "ds_strdict_create al = Some d" "sd_rep d []"
    using dict_create_rep [OF assms(1)] by blast
  have "dict_inv (al, d)" "dict_map (al, d) = (\<lambda>_. None)" "dict_room (al, d) = 2 ^ 28 - 10"
    using dict_invI [OF assms(1) d(2)] by (simp_all add: fun_eq_iff)
  then show ?thesis using strdict.run_refines [of "(al, d)" ops] assms(2,3) d(1) by simp
qed

theorem strdict_refines_map_witness:
  "\<exists>d as s'. ds_strdict_create zero_alloc = Some d \<and>
     store_run dict_put dict_del dict_get (zero_alloc, d)
       [MPut ''A'' ''1'' True, MPut ''A'' ''2'' False, MGet ''A'', MDel ''A'', MGet ''A''] = Some (as, s') \<and>
     as = [None, None, Some ''1'', None, None]"
  using strdict_refines_map [OF zero_alloc_total,
      of "[MPut ''A'' ''1'' True, MPut ''A'' ''2'' False, MGet ''A'', MDel ''A'', MGet ''A'']"]
  by (auto simp: c_len_def)

text \<open>
  C3. Reading an environment and dumping it again gives back exactly the entries that contain an
  equality sign, in order; the dictionary answers a lookup with the first entry of that name.
\<close>

theorem strdict_environ_roundtrip:
  assumes "alloc_total al" and "length env \<le> 2 ^ 28" and "\<forall>e\<in>set env. length e < 2 ^ 31"
  shows "\<exists>d. ds_strdict_create_environ al (Some env) = Some d \<and>
           ds_strdict_dump_environ al (Some d) = Some (Some (filter (\<lambda>e. CHR ''='' \<in> set e) env)) \<and>
           (\<forall>k. ds_strdict_get (Some d) k =
              Some (case map_of (List.map_filter split_eq env) k of
                      None \<Rightarrow> (DS_ERR_NOT_FOUND, None) | Some v \<Rightarrow> (DS_SUCCESS, Some v)))"
proof -
  obtain d where d: "ds_strdict_create_environ al (Some env) = Some d"
      "sd_rep d (List.map_filter split_eq env)"
    using create_environ_rep [OF assms] by blast
  have "\<forall>p\<in>set (List.map_filter split_eq env). length (join_eq p) + 1 < 2 ^ 32"
    using assms(3) by (fastforce simp: map_filter_def split_eq_join)
  from dump_environ_rep [OF assms(1) d(2) this] show ?thesis
    using d dict_get_rep by (auto simp: map_join_filter)
qed

theorem strdict_environ_roundtrip_witness:
  "\<exists>d. ds_strdict_create_environ zero_alloc (Some [''A=1'', ''junk'', ''B='']) = Some d \<and>
     ds_strdict_dump_environ zero_alloc (Some d) = Some (Some [''A=1'', ''B=''])"
  using strdict_environ_roundtrip [OF zero_alloc_total, of "[''A=1'', ''junk'', ''B='']"] by auto

text \<open>
  C4. Dumping a dictionary and reading the result back gives a dictionary that answers every
  lookup in the same way, provided no key contains an equality sign.
\<close>

theorem strdict_dump_create:
  assumes "dict_inv (al, d)"
    and "\<forall>p\<in>set (sd_pairs d). CHR ''='' \<notin> set (fst p) \<and> length (join_eq p) < 2 ^ 31"
  shows "\<exists>env d'. ds_strdict_dump_environ al (Some d) = Some (Some env) \<and>
           ds_strdict_create_environ al (Some env) = Some d' \<and>
           (\<forall>k. ds_strdict_get (Some d') k = ds_strdict_get (Some d) k)"
proof -
  define ps where "ps = sd_pairs d"
  have i: "alloc_total al" "sd_rep d ps" using assms(1) by (simp_all add: dict_inv_def ps_def)
  have len: "length (join_eq p) < 2 ^ 31" "CHR ''='' \<notin> set (fst p)" if "p \<in> set ps" for p
    using assms(2) that by (simp_all add: ps_def)
  have dump: "ds_strdict_dump_environ al (Some d) = Some (Some (map join_eq ps))"
    using len(1) by (intro dump_environ_rep [OF i]) fastforce
  have "split_eq (join_eq p) = Some p" if "p \<in> set ps" for p
    using split_join_eq [of "fst p" "snd p"] len(2) [OF that] by simp
  then have "List.map_filter split_eq (map join_eq ps) = ps"
    by (induction ps) (simp_all add: map_filter_simps)
  moreover have "length ps \<le> 2 ^ 28" using i(2) by (simp add: sd_rep_def)
  ultimately obtain d' where "ds_strdict_create_environ al (Some (map join_eq ps)) = Some d'" "sd_rep d' ps"
    using create_environ_rep [OF i(1), of "map join_eq ps"] len(1) by auto
  then show ?thesis using dump dict_get_rep i(2) by auto
qed

theorem strdict_dump_create_witness:
  "\<exists>env d'. ds_strdict_dump_environ zero_alloc
       (Some \<lparr>sd_capacity = 1, sd_count = 1, sd_items = Some [Some ''A'', Some ''x=y'']\<rparr>) = Some (Some env) \<and>
     ds_strdict_create_environ zero_alloc (Some env) = Some d' \<and>
     ds_strdict_get (Some d') ''A'' = Some (DS_SUCCESS, Some ''x=y'')"
proof -
  let ?d = "\<lparr>sd_capacity = 1, sd_count = 1, sd_items = Some [Some ''A'', Some ''x=y'']\<rparr>"
  have p: "sd_pairs ?d = [(''A'', ''x=y'')]" by (simp add: sd_pairs_def sd_list_def)
  have rep: "sd_rep ?d [(''A'', ''x=y'')]" by (simp add: sd_rep_def sd_list_def)
  then have "dict_inv (zero_alloc, ?d)" using zero_alloc_total by (simp add: dict_inv_def p)
  then show ?thesis
    using strdict_dump_create [of zero_alloc ?d] dict_get_rep [OF rep, of "''A''"]
    by (auto simp: p join_eq_def)
qed

end
