(* ===== verification/Environ.thy ===== *)
theory Environ
  imports Strdict
begin

section \<open>The process environment (libc/src/stdlib/*env*.c)\<close>

text \<open>
  The environment of a user program: the global array \<open>environ\<close> of \<open>name=value\<close> strings, ended by
  a NULL pointer, and the functions on it. The array is a list of string pointers that includes
  the terminator and any cells after it; \<open>None\<close> for the array itself is NULL. What the functions
  need of the allocator is whether a request succeeds. \<open>putenv\<close> stores the caller's pointer; the
  model keeps the string it points to.
\<close>

record env_alloc =
  malloc_ok :: "u32 \<Rightarrow> bool"
  realloc_ok :: "u32 \<Rightarrow> bool"

type_synonym environ = "string option list option"

text \<open>The counting loop of \<open>__stdlib_environ_size\<close>; \<open>None\<close> runs past the end of the array.\<close>

fun environ_count :: "string option list \<Rightarrow> nat option" where
  "environ_count [] = None"
| "environ_count (None # xs) = Some 0"
| "environ_count (Some e # xs) = map_option Suc (environ_count xs)"

definition stdlib_environ_size :: "environ \<Rightarrow> nat option" where
  "stdlib_environ_size env = (case env of None \<Rightarrow> Some 0 | Some xs \<Rightarrow> environ_count xs)"

text \<open>\<open>strncmp(a, b, n) == 0\<close> on C strings, and the byte at an index, NUL at the end.\<close>

fun strncmp_eq :: "string \<Rightarrow> string \<Rightarrow> nat \<Rightarrow> bool" where
  "strncmp_eq a b 0 = True"
| "strncmp_eq [] b (Suc n) = (b = [])"
| "strncmp_eq (x # xs) [] (Suc n) = False"
| "strncmp_eq (x # xs) (y # ys) (Suc n) = (x = y \<and> strncmp_eq xs ys n)"

definition c_at :: "string \<Rightarrow> nat \<Rightarrow> char" where
  "c_at s i = (if i < length s then s ! i else CHR 0x00)"

text \<open>The search loop shared by \<open>__stdlib_environ_find\<close>, \<open>getenv\<close> and \<open>putenv\<close>.\<close>

fun env_search :: "string \<Rightarrow> nat \<Rightarrow> string option list \<Rightarrow> nat \<Rightarrow> int option" where
  "env_search name name_len [] i = None"
| "env_search name name_len (None # xs) i = Some (-1)"
| "env_search name name_len (Some e # xs) i =
     (if strncmp_eq e name name_len \<and> c_at e name_len = CHR ''='' then Some (int i)
      else env_search name name_len xs (Suc i))"

definition stdlib_environ_find :: "environ \<Rightarrow> string option \<Rightarrow> int option" where
  "stdlib_environ_find env name =
     (case (env, name) of
        (Some xs, Some nm) \<Rightarrow> env_search nm (length nm) xs 0
      | _ \<Rightarrow> Some (-1))"

text \<open>
  \<open>__stdlib_environ_append\<close>: \<open>realloc\<close> keeps the old cells up to the new size. The result is the
  status and the new array.
\<close>

definition stdlib_environ_append :: "env_alloc \<Rightarrow> environ \<Rightarrow> string \<Rightarrow> (int \<times> environ) option" where
  "stdlib_environ_append al env entry =
     do { sz \<leftarrow> stdlib_environ_size env;
          let bytes = (4 * (of_nat sz + 2) :: u32);
          let old = (case env of None \<Rightarrow> [] | Some xs \<Rightarrow> xs);
          let cells = unat bytes div 4;
          if \<not> realloc_ok al bytes then Some (-1, env)
          else if sz + 1 < cells then
            Some (0, Some ((take cells (old @ replicate cells None))[sz := Some entry, sz + 1 := None]))
          else None }"

fun shift_left :: "'a list \<Rightarrow> nat \<Rightarrow> nat \<Rightarrow> 'a list" where
  "shift_left xs i 0 = xs"
| "shift_left xs i (Suc n) = shift_left (xs[i := xs ! (i + 1)]) (Suc i) n"

text \<open>\<open>__stdlib_environ_remove_index\<close>: called with an index below the size.\<close>

definition stdlib_environ_remove_index :: "environ \<Rightarrow> nat \<Rightarrow> environ option" where
  "stdlib_environ_remove_index env index =
     do { xs \<leftarrow> env;
          sz \<leftarrow> environ_count xs;
          if index < sz
          then Some (Some ((shift_left xs index (sz - 1 - index))[sz - 1 := None]))
          else None }"

definition getenv :: "environ \<Rightarrow> string option \<Rightarrow> string option option" where
  "getenv env name =
     (case (env, name) of
        (Some xs, Some nm) \<Rightarrow>
          do { i \<leftarrow> env_search nm (length nm) xs 0;
               if i < 0 then Some None
               else do { e \<leftarrow> xs ! nat i; Some (Some (drop (length nm + 1) e)) } }
      | _ \<Rightarrow> Some None)"

text \<open>The invalid names of \<open>setenv\<close> and \<open>unsetenv\<close>; then \<open>errno\<close> is \<open>EINVAL\<close>.\<close>

definition bad_name :: "string option \<Rightarrow> bool" where
  "bad_name name = (case name of None \<Rightarrow> True | Some nm \<Rightarrow> nm = [] \<or> CHR ''='' \<in> set nm)"

datatype env_status = EnvOk | EnvEinval | EnvFail

definition env_ret :: "int \<Rightarrow> env_status" where
  "env_ret r = (if r = 0 then EnvOk else EnvFail)"

definition setenv ::
  "env_alloc \<Rightarrow> environ \<Rightarrow> string option \<Rightarrow> string \<Rightarrow> bool \<Rightarrow> (env_status \<times> environ) option" where
  "setenv al env name v overwrite =
     (if bad_name name then Some (EnvEinval, env)
      else
        do { index \<leftarrow> stdlib_environ_find env name;
             if index \<ge> 0 \<and> \<not> overwrite then Some (EnvOk, env)
             else
               (let nm = the name; bytes = (of_nat (length nm) + of_nat (length v) + 2 :: u32) in
                if \<not> malloc_ok al bytes then Some (EnvFail, env)
                else if length nm + length v + 2 > unat bytes then None
                else
                  (let entry = nm @ ''='' @ v in
                   if index \<ge> 0 then Some (EnvOk, map_option (\<lambda>xs. xs[nat index := Some entry]) env)
                   else map_option (\<lambda>(r, env1). (env_ret r, env1)) (stdlib_environ_append al env entry))) })"

definition putenv :: "env_alloc \<Rightarrow> environ \<Rightarrow> string option \<Rightarrow> (int \<times> environ) option" where
  "putenv al env str =
     (case str of
        None \<Rightarrow> Some (-1, env)
      | Some s \<Rightarrow>
          (case split_eq s of
             None \<Rightarrow> Some (-1, env)
           | Some (nm, _) \<Rightarrow>
               if length nm = 0 then Some (-1, env)
               else
                 (case env of
                    None \<Rightarrow> stdlib_environ_append al env s
                  | Some xs \<Rightarrow>
                      do { i \<leftarrow> env_search s (length nm) xs 0;
                           if i \<ge> 0 then Some (0, Some (xs[nat i := Some s]))
                           else stdlib_environ_append al env s })))"

definition unsetenv :: "environ \<Rightarrow> string option \<Rightarrow> (env_status \<times> environ) option" where
  "unsetenv env name =
     (if bad_name name then Some (EnvEinval, env)
      else
        do { index \<leftarrow> stdlib_environ_find env name;
             if index < 0 then Some (EnvOk, env)
             else do { env1 \<leftarrow> stdlib_environ_remove_index env (nat index); Some (EnvOk, env1) } })"

definition clearenv :: "environ \<Rightarrow> int \<times> environ" where
  "clearenv env = (0, None)"

subsection \<open>Invariant and abstraction\<close>

text \<open>\<open>env_rep env es\<close>: the strings before the terminator are \<open>es\<close>.\<close>

definition env_rep :: "environ \<Rightarrow> string list \<Rightarrow> bool" where
  "env_rep env es \<longleftrightarrow>
     (case env of None \<Rightarrow> es = [] | Some xs \<Rightarrow> \<exists>rest. xs = map Some es @ None # rest)"

definition env_pairs :: "string list \<Rightarrow> (string \<times> string) list" where
  "env_pairs es = List.map_filter split_eq es"

lemma env_pairs_simps [simp]:
  "env_pairs [] = []"
  "env_pairs (e # es) = (case split_eq e of None \<Rightarrow> env_pairs es | Some p \<Rightarrow> p # env_pairs es)"
  "env_pairs (es @ fs) = env_pairs es @ env_pairs fs"
  by (simp_all add: env_pairs_def map_filter_simps split: option.split) (simp add: map_filter_def)

lemma environ_count_rep: "environ_count (map Some es @ None # rest) = Some (length es)"
  by (induction es) simp_all

lemma size_rep: "env_rep env es \<Longrightarrow> stdlib_environ_size env = Some (length es)"
  by (auto simp: env_rep_def stdlib_environ_size_def environ_count_rep split: option.splits)

lemma strncmp_eq_take: "strncmp_eq e nm n \<longleftrightarrow> take n e = take n nm" 
  by (induction e nm n rule: strncmp_eq.induct) auto

text \<open>An entry matches a name without an equality sign exactly when it splits at that name.\<close>

lemma entry_match:
  assumes "CHR ''='' \<notin> set k"
  shows "strncmp_eq e k (length k) \<and> c_at e (length k) = CHR ''='' \<longleftrightarrow> (\<exists>v. split_eq e = Some (k, v))"
proof
  assume l: "strncmp_eq e k (length k) \<and> c_at e (length k) = CHR ''=''"
  then have "length k < length e" "take (length k) e = k" "e ! length k = CHR ''=''"
    by (auto simp: strncmp_eq_take c_at_def split: if_splits)
  then have "e = k @ ''='' @ drop (Suc (length k)) e"
    by (metis append_Cons append_Nil id_take_nth_drop)
  then have "split_eq e = Some (k, drop (Suc (length k)) e)"
    using split_join_eq [OF assms, of "drop (Suc (length k)) e"] by (simp add: join_eq_def)
  then show "\<exists>v. split_eq e = Some (k, v)" by blast
next
  assume "\<exists>v. split_eq e = Some (k, v)"
  then obtain v where "join_eq (k, v) = e" using split_eq_join by blast
  then show "strncmp_eq e k (length k) \<and> c_at e (length k) = CHR ''=''"
    by (auto simp: join_eq_def strncmp_eq_take c_at_def)
qed

lemma no_key_None: "map_of (env_pairs es) k = None \<Longrightarrow> e \<in> set es \<Longrightarrow> split_eq e \<noteq> Some (k, v)"
  by (induction es) (auto split: option.splits if_splits)

lemma env_search_rep:
  assumes k: "CHR ''='' \<notin> set k"
    and nm: "\<And>e. strncmp_eq e nm (length k) = strncmp_eq e k (length k)"
  shows "case map_of (env_pairs es) k of
      None \<Rightarrow> env_search nm (length k) (map Some es @ None # rest) i = Some (-1)
    | Some v \<Rightarrow> \<exists>A e B. es = A @ e # B \<and> split_eq e = Some (k, v) \<and> map_of (env_pairs A) k = None \<and>
        env_search nm (length k) (map Some es @ None # rest) i = Some (int (i + length A))"
proof (induction es arbitrary: i)
  case Nil
  then show ?case by simp
next
  case (Cons e es)
  show ?case
  proof (cases "\<exists>v. split_eq e = Some (k, v)")
    case True
    then obtain v where v: "split_eq e = Some (k, v)" by blast
    then have "es = es \<and> env_search nm (length k) (map Some (e # es) @ None # rest) i = Some (int i)"
      using entry_match [OF k, of e] by (simp add: nm)
    then have "\<exists>A e' B. e # es = A @ e' # B \<and> split_eq e' = Some (k, v) \<and> map_of (env_pairs A) k = None \<and>
        env_search nm (length k) (map Some (e # es) @ None # rest) i = Some (int (i + length A))"
      using v by (intro exI [of _ "[]"] exI [of _ e] exI [of _ es]) simp
    then show ?thesis using v by simp
  next
    case False
    then have step: "env_search nm (length k) (map Some (e # es) @ None # rest) i =
        env_search nm (length k) (map Some es @ None # rest) (Suc i)"
      using entry_match [OF k, of e] by (auto simp: nm)
    have m: "map_of (env_pairs (e # A)) k = map_of (env_pairs A) k" for A
      using False by (auto split: option.split)
    show ?thesis
    proof (cases "map_of (env_pairs es) k")
      case None
      then show ?thesis using Cons.IH [of "Suc i"] unfolding m step by simp
    next
      case (Some v)
      obtain A e' B where "es = A @ e' # B" "split_eq e' = Some (k, v)" "map_of (env_pairs A) k = None"
          "env_search nm (length k) (map Some es @ None # rest) (Suc i) = Some (int (Suc i + length A))"
        using Cons.IH [of "Suc i"] unfolding Some option.case by blast
      then have "e # es = (e # A) @ e' # B \<and> split_eq e' = Some (k, v) \<and> map_of (env_pairs (e # A)) k = None \<and>
          env_search nm (length k) (map Some (e # es) @ None # rest) i = Some (int (i + length (e # A)))"
        unfolding m step by simp
      then have "\<exists>A e' B. e # es = A @ e' # B \<and> split_eq e' = Some (k, v) \<and> map_of (env_pairs A) k = None \<and>
          env_search nm (length k) (map Some (e # es) @ None # rest) i = Some (int (i + length A))"
        by (intro exI)
      then show ?thesis unfolding m [of es] Some option.case .
    qed
  qed
qed

lemma env_find_None:
  assumes "env_rep env es" and "CHR ''='' \<notin> set k" and "map_of (env_pairs es) k = None"
  shows "stdlib_environ_find env (Some k) = Some (-1)"
  using assms env_search_rep [OF assms(2) refl, of es] 
  by (auto simp: stdlib_environ_find_def env_rep_def split: option.splits)

lemma env_find_Some:
  assumes "env_rep env es" and "CHR ''='' \<notin> set k" and "map_of (env_pairs es) k = Some v"
  obtains A e B rest where "es = A @ e # B" and "split_eq e = Some (k, v)"
    and "map_of (env_pairs A) k = None" and "env = Some (map Some es @ None # rest)"
    and "stdlib_environ_find env (Some k) = Some (int (length A))"
proof -
  obtain rest where "env = Some (map Some es @ None # rest)"
    using assms(1,3) by (auto simp: env_rep_def split: option.splits)
  then show ?thesis
    using that env_search_rep [OF assms(2) refl, of es rest 0] assms(3)
    by (auto simp: stdlib_environ_find_def)
qed

lemma split_eq_entry: "CHR ''='' \<notin> set k \<Longrightarrow> split_eq (k @ CHR ''='' # v) = Some (k, v)"
  using split_join_eq [of k v] by (simp add: join_eq_def)

lemma getenv_rep:
  assumes "env_rep env es" and "CHR ''='' \<notin> set k"
  shows "getenv env (Some k) = Some (map_of (env_pairs es) k)"
proof (cases "map_of (env_pairs es) k")
  case None
  then show ?thesis
    using env_find_None [OF assms None]
    by (auto simp: getenv_def stdlib_environ_find_def split: option.splits)
next
  case (Some v)
  obtain A e B rest where *: "es = A @ e # B" "split_eq e = Some (k, v)"
      "env = Some (map Some es @ None # rest)" "stdlib_environ_find env (Some k) = Some (int (length A))"
    using env_find_Some [OF assms Some] by metis
  have nth: "(map Some es @ None # rest) ! length A = Some e" by (simp add: *(1) nth_append)
  have drp: "drop (length k + 1) e = v" using split_eq_join [OF *(2)] by (auto simp: join_eq_def)
  have "env_search k (length k) (map Some es @ None # rest) 0 = Some (int (length A))"
    using *(4) unfolding *(3) stdlib_environ_find_def by simp
  then show ?thesis
    unfolding getenv_def *(3) Some prod.case option.case by (simp only: Option.bind.simps nth nat_int drp) simp
qed

lemma append_rep:
  assumes "env_rep env es" and "length es < 2 ^ 29" and "\<forall>n. realloc_ok al n"
  shows "\<exists>env'. stdlib_environ_append al env entry = Some (0, env') \<and> env_rep env' (es @ [entry])"
proof -
  let ?n = "length es"
  define cells where "cells = unat (4 * (of_nat ?n + 2) :: u32) div 4"
  have "unat (4 * (of_nat ?n + 2) :: u32) = 4 * (?n + 2)"
    using assms(2) by (intro unat_eqI) simp_all
  then have cells: "cells = ?n + 2" by (simp add: cells_def)
  define old where "old = (case env of None \<Rightarrow> [] | Some xs \<Rightarrow> xs)"
  define X where "X = old @ replicate cells None"
  have X: "take ?n X = map Some es" "cells \<le> length X"
    using assms(1) cells by (auto simp: env_rep_def old_def X_def split: option.splits)
  define ys where "ys = take cells X"
  have ys: "take ?n ys = map Some es" "length (drop ?n ys) = 2"
    using X cells by (simp_all add: ys_def)
  obtain a b where "drop ?n ys = [a, b]"
    using ys(2) unfolding length_2_conv by blast
  then have "ys = map Some es @ [a, b]" using ys(1) append_take_drop_id [of ?n ys] by simp
  then have "ys[?n := Some entry, ?n + 1 := None] = map Some es @ [Some entry, None]"
    by (simp add: list_update_append)
  then have "env_rep (Some (ys[?n := Some entry, ?n + 1 := None])) (es @ [entry])"
    by (simp add: env_rep_def)
  moreover have "stdlib_environ_append al env entry = Some (0, Some (ys[?n := Some entry, ?n + 1 := None]))"
    unfolding stdlib_environ_append_def size_rep [OF assms(1)] Option.bind.simps Let_def
      cells_def [symmetric] old_def [symmetric] X_def [symmetric] ys_def [symmetric]
    using assms(3) cells by simp
  ultimately show ?thesis by blast
qed

definition name_ok :: "string \<Rightarrow> bool" where
  "name_ok k \<longleftrightarrow> k \<noteq> [] \<and> CHR ''='' \<notin> set k"

definition entry_ok :: "string \<Rightarrow> string \<Rightarrow> bool" where
  "entry_ok k v \<longleftrightarrow> length k + length v + 2 < 2 ^ 32"

definition env_alloc_total :: "env_alloc \<Rightarrow> bool" where
  "env_alloc_total al \<longleftrightarrow> (\<forall>n. malloc_ok al n) \<and> (\<forall>n. realloc_ok al n)"

lemma env_rep_replace:
  assumes "env_rep (Some (map Some (A @ e # B) @ None # rest)) (A @ e # B)"
  shows "env_rep (Some ((map Some (A @ e # B) @ None # rest)[length A := Some e'])) (A @ e' # B)"
  by (auto simp: env_rep_def list_update_append)

lemma shift_left_append:
  "shift_left (A @ x # B @ C) (length A) (length B) = A @ B @ last (x # B) # C"
proof (induction B arbitrary: A x)
  case (Cons b B)
  have "shift_left (A @ x # (b # B) @ C) (length A) (length (b # B)) =
      shift_left ((A @ [b]) @ b # B @ C) (length (A @ [b])) (length B)"
    by (simp add: list_update_append nth_append)
  then show ?case by (simp only: Cons.IH) simp
qed simp

lemma remove_rep:
  assumes "env = Some (map Some (A @ e # B) @ None # rest)"
  shows "\<exists>env'. stdlib_environ_remove_index env (length A) = Some env' \<and> env_rep env' (A @ B)"
proof -
  let ?sz = "length (A @ e # B)"
  have cnt: "environ_count (map Some (A @ e # B) @ None # rest) = Some ?sz" by (rule environ_count_rep)
  have "shift_left (map Some (A @ e # B) @ None # rest) (length A) (length B) =
      map Some A @ map Some B @ last (Some e # map Some B) # None # rest"
    using shift_left_append [of "map Some A" "Some e" "map Some B" "None # rest"] by simp
  moreover have "?sz - 1 - length A = length B" "?sz - 1 = length (map Some A @ map Some B)" by simp_all
  ultimately have "stdlib_environ_remove_index env (length A) =
      Some (Some (map Some (A @ B) @ None # None # rest))"
    unfolding assms stdlib_environ_remove_index_def cnt Option.bind.simps
    by (simp add: list_update_append)
  then show ?thesis by (simp add: env_rep_def)
qed

lemma setenv_rep:
  assumes rep: "env_rep env es" and al: "env_alloc_total al" and k: "name_ok k" and v: "entry_ok k v"
    and room: "length es < 2 ^ 29" and dist: "distinct (map fst (env_pairs es))"
  shows "\<exists>env' es'. setenv al env (Some k) v ow = Some (EnvOk, env') \<and> env_rep env' es' \<and>
           length es' \<le> Suc (length es) \<and>
           distinct (map fst (env_pairs es')) \<and>
           map_of (env_pairs es') =
             (if \<not> ow \<and> map_of (env_pairs es) k \<noteq> None then map_of (env_pairs es)
              else (map_of (env_pairs es))(k \<mapsto> v))"
proof -
  have k': "CHR ''='' \<notin> set k" "\<not> bad_name (Some k)" using k by (simp_all add: name_ok_def bad_name_def)
  have bytes: "unat (of_nat (length k) + of_nat (length v) + 2 :: u32) = length k + length v + 2"
    using v by (intro unat_eqI) (simp_all add: entry_ok_def)
  have ok: "malloc_ok al n" for n using al by (simp add: env_alloc_total_def)
  show ?thesis
  proof (cases "map_of (env_pairs es) k")
    case None
    have find: "stdlib_environ_find env (Some k) = Some (-1)" by (rule env_find_None [OF rep k'(1) None])
    obtain env' where env': "stdlib_environ_append al env (k @ ''='' @ v) = Some (0, env')"
        "env_rep env' (es @ [k @ ''='' @ v])"
      using append_rep [OF rep room, of al "k @ ''='' @ v"] al unfolding env_alloc_total_def by blast
    have "setenv al env (Some k) v ow = Some (EnvOk, env')"
      using env'(1) k'(2) by (simp add: setenv_def find bytes ok Let_def env_ret_def)
    moreover have "env_pairs (es @ [k @ ''='' @ v]) = env_pairs es @ [(k, v)]"
      using split_eq_entry [OF k'(1)] by simp
    moreover have "k \<notin> fst ` set (env_pairs es)" using None by (simp add: map_of_eq_None_iff)
    moreover have "map_of (env_pairs es @ [(k, v)]) = (map_of (env_pairs es))(k \<mapsto> v)"
      using None by (auto simp: map_add_def split: option.splits)
    ultimately show ?thesis using env'(2) dist None
      by (intro exI [of _ env'] exI [of _ "es @ [k @ ''='' @ v]"]) simp
  next
    case (Some w)
    obtain A e B rest where *: "es = A @ e # B" "split_eq e = Some (k, w)"
        "map_of (env_pairs A) k = None" "env = Some (map Some es @ None # rest)"
        "stdlib_environ_find env (Some k) = Some (int (length A))"
      using env_find_Some [OF rep k'(1) Some] by metis
    have pairs: "env_pairs es = env_pairs A @ (k, w) # env_pairs B" using *(1,2) by simp
    show ?thesis
    proof (cases ow)
      case False
      then have "setenv al env (Some k) v ow = Some (EnvOk, env)"
        using k'(2) *(5) by (simp add: setenv_def)
      then show ?thesis using rep dist Some False by auto
    next
      case True
      define env' where "env' = Some ((map Some es @ None # rest)[length A := Some (k @ ''='' @ v)])"
      have "setenv al env (Some k) v ow = Some (EnvOk, env')"
        using True k'(2) *(5) by (simp add: setenv_def bytes ok Let_def) (simp add: *(4) env'_def)
      moreover have "env_rep env' (A @ (k @ ''='' @ v) # B)"
        using env_rep_replace [of A e B rest "k @ ''='' @ v"] rep unfolding *(4) env'_def *(1) by simp
      moreover have "env_pairs (A @ (k @ ''='' @ v) # B) = env_pairs A @ (k, v) # env_pairs B"
        using split_eq_entry [OF k'(1)] by simp
      moreover have "map_of (env_pairs A @ (k, v) # env_pairs B) = (map_of (env_pairs es))(k \<mapsto> v)"
        using *(3) by (auto simp: pairs fun_eq_iff map_add_def split: option.splits)
      ultimately show ?thesis using dist True pairs *(1)
        by (intro exI [of _ env'] exI [of _ "A @ (k @ ''='' @ v) # B"]) simp
    qed
  qed
qed

lemma unsetenv_rep:
  assumes rep: "env_rep env es" and k: "name_ok k" and dist: "distinct (map fst (env_pairs es))"
  shows "\<exists>env' es'. unsetenv env (Some k) = Some (EnvOk, env') \<and> env_rep env' es' \<and>
           length es' \<le> length es \<and> distinct (map fst (env_pairs es')) \<and>
           map_of (env_pairs es') = (map_of (env_pairs es))(k := None)"
proof -
  have k': "CHR ''='' \<notin> set k" "\<not> bad_name (Some k)" using k by (simp_all add: name_ok_def bad_name_def)
  show ?thesis
  proof (cases "map_of (env_pairs es) k")
    case None
    have "unsetenv env (Some k) = Some (EnvOk, env)"
      using k'(2) by (simp add: unsetenv_def env_find_None [OF rep k'(1) None])
    then show ?thesis using rep dist None by (auto simp: fun_upd_idem)
  next
    case (Some w)
    obtain A e B rest where *: "es = A @ e # B" "split_eq e = Some (k, w)"
        "map_of (env_pairs A) k = None" "env = Some (map Some es @ None # rest)"
        "stdlib_environ_find env (Some k) = Some (int (length A))"
      using env_find_Some [OF rep k'(1) Some] by metis
    obtain env' where env': "stdlib_environ_remove_index env (length A) = Some env'" "env_rep env' (A @ B)"
      using remove_rep *(1,4) by blast
    have pairs: "env_pairs es = env_pairs A @ (k, w) # env_pairs B" using *(1,2) by simp
    have "map_of (env_pairs B) k = None"
      using dist pairs by (simp add: map_of_eq_None_iff)
    then have "map_of (env_pairs (A @ B)) = (map_of (env_pairs es))(k := None)"
      using *(3) by (simp add: pairs fun_eq_iff map_add_def split: option.split)
    moreover have "unsetenv env (Some k) = Some (EnvOk, env')"
      using k'(2) *(5) env'(1) by (simp add: unsetenv_def)
    moreover have "distinct (map fst (env_pairs (A @ B)))" using dist pairs by auto
    ultimately show ?thesis using env'(2) *(1) by auto
  qed
qed

subsection \<open>The environment is a string map\<close>

definition env_entries :: "environ \<Rightarrow> string list" where
  "env_entries env = (case env of None \<Rightarrow> [] | Some xs \<Rightarrow> map the (takeWhile (\<lambda>x. x \<noteq> None) xs))"

lemma entries_map: "map the (takeWhile (\<lambda>x. x \<noteq> None) (map Some es @ None # rest)) = es"
  by (induction es) simp_all

lemma env_entries_rep: "env_rep env es \<Longrightarrow> env_entries env = es"
  using entries_map by (auto simp: env_rep_def env_entries_def split: option.splits simp del: not_None_eq)

definition env_inv :: "env_alloc \<times> environ \<Rightarrow> bool" where
  "env_inv s \<longleftrightarrow> env_alloc_total (fst s) \<and> env_rep (snd s) (env_entries (snd s)) \<and>
     distinct (map fst (env_pairs (env_entries (snd s))))"

definition env_map :: "env_alloc \<times> environ \<Rightarrow> (string \<rightharpoonup> string)" where
  "env_map s = map_of (env_pairs (env_entries (snd s)))"

definition env_room :: "env_alloc \<times> environ \<Rightarrow> nat" where
  "env_room s = 2 ^ 29 - length (env_entries (snd s))"

definition env_put ::
  "env_alloc \<times> environ \<Rightarrow> string \<Rightarrow> string \<Rightarrow> bool \<Rightarrow> (env_alloc \<times> environ) option" where
  "env_put s k v ow = map_option (\<lambda>r. (fst s, snd r)) (setenv (fst s) (snd s) (Some k) v ow)"

definition env_del :: "env_alloc \<times> environ \<Rightarrow> string \<Rightarrow> (env_alloc \<times> environ) option" where
  "env_del s k = map_option (\<lambda>r. (fst s, snd r)) (unsetenv (snd s) (Some k))"

definition env_get :: "env_alloc \<times> environ \<Rightarrow> string \<Rightarrow> string option option" where
  "env_get s k = getenv (snd s) (Some k)"

lemma env_invI:
  "env_alloc_total al \<Longrightarrow> env_rep env es \<Longrightarrow> distinct (map fst (env_pairs es)) \<Longrightarrow>
     env_inv (al, env) \<and> env_map (al, env) = map_of (env_pairs es) \<and> env_room (al, env) = 2 ^ 29 - length es"
  by (simp add: env_inv_def env_map_def env_room_def env_entries_rep)

interpretation environ_map: string_map env_inv env_map env_room name_ok entry_ok env_put env_del env_get
proof unfold_locales
  fix s k v ow
  assume inv: "env_inv s" and ok: "name_ok k" "entry_ok k v" "0 < env_room s"
  obtain al env where s: "s = (al, env)" by (cases s)
  define es where "es = env_entries env"
  have i: "env_alloc_total al" "env_rep env es" "distinct (map fst (env_pairs es))"
    using inv by (simp_all add: env_inv_def s es_def)
  have "length es < 2 ^ 29" using ok(3) env_invI [OF i] by (simp add: s)
  from setenv_rep [OF i(2,1) ok(1,2) this i(3), of ow] obtain env' es' where
    *: "setenv al env (Some k) v ow = Some (EnvOk, env')" "env_rep env' es'"
      "length es' \<le> Suc (length es)" "distinct (map fst (env_pairs es'))"
      "map_of (env_pairs es') = (if \<not> ow \<and> map_of (env_pairs es) k \<noteq> None then map_of (env_pairs es)
         else (map_of (env_pairs es))(k \<mapsto> v))" by blast
  then show "\<exists>s'. env_put s k v ow = Some s' \<and> env_inv s' \<and> env_room s \<le> Suc (env_room s') \<and>
      env_map s' = (if \<not> ow \<and> env_map s k \<noteq> None then env_map s else (env_map s)(k \<mapsto> v))"
    using env_invI [OF i(1) *(2,4)] env_invI [OF i] by (simp add: env_put_def s) linarith
next
  fix s k
  assume inv: "env_inv s" and ok: "name_ok k"
  obtain al env where s: "s = (al, env)" by (cases s)
  define es where "es = env_entries env"
  have i: "env_alloc_total al" "env_rep env es" "distinct (map fst (env_pairs es))"
    using inv by (simp_all add: env_inv_def s es_def)
  from unsetenv_rep [OF i(2) ok i(3)] obtain env' es' where
    *: "unsetenv env (Some k) = Some (EnvOk, env')" "env_rep env' es'" "length es' \<le> length es"
      "distinct (map fst (env_pairs es'))"
      "map_of (env_pairs es') = (map_of (env_pairs es))(k := None)" by blast
  then show "\<exists>s'. env_del s k = Some s' \<and> env_inv s' \<and> env_room s \<le> env_room s' \<and>
      env_map s' = (env_map s)(k := None)"
    using env_invI [OF i(1) *(2,4)] env_invI [OF i] by (simp add: env_del_def s)
  show "env_get s k = Some (env_map s k)"
    using getenv_rep [OF i(2)] ok env_invI [OF i] by (simp add: env_get_def s name_ok_def)
qed



end
