(* ===== verification/Cstring.thy ===== *)
theory Cstring
  imports Prelude
begin

section \<open>The C string library (libc/src/string)\<close>

text \<open>
  The string functions of libc and libk over a flat 32-bit byte memory. Pointers are 32-bit
  words and pointer arithmetic wraps. Loops that run for a given number of bytes recurse on that
  number; loops that run until a NUL byte are \<open>partial_function\<close>s, whose value \<open>None\<close> is a loop
  that never ends, and the lemmas show that they end on C strings. The results: the word-wise
  \<open>memcpy\<close>, \<open>memset\<close> and \<open>memmove\<close> move exactly the bytes the byte-wise definition does, also for
  overlapping regions; \<open>strcmp\<close> and \<open>memcmp\<close> decide equality and the lexicographic order;
  \<open>strtok_r\<close> enumerates the fields of a string; \<open>memmem\<close> finds the first occurrence of a short
  needle, and its branch for long needles can report a match that is not there.
\<close>

type_synonym cmem = "u32 \<Rightarrow> u8"

text \<open>32-bit loads and stores, little endian.\<close>

definition load32 :: "cmem \<Rightarrow> u32 \<Rightarrow> u32" where
  "load32 m p = ucast (m p) OR push_bit 8 (ucast (m (p + 1)))
     OR push_bit 16 (ucast (m (p + 2))) OR push_bit 24 (ucast (m (p + 3)))"

definition store32 :: "cmem \<Rightarrow> u32 \<Rightarrow> u32 \<Rightarrow> cmem" where
  "store32 m p w = m(p := ucast w, p + 1 := ucast (drop_bit 8 w),
     p + 2 := ucast (drop_bit 16 w), p + 3 := ucast (drop_bit 24 w))"

subsection \<open>Copying and filling\<close>

text \<open>The three loops of \<open>memcpy\<close>: head bytes until the target is aligned, words, tail bytes.\<close>

fun copy_head :: "cmem \<Rightarrow> u32 \<Rightarrow> u32 \<Rightarrow> nat \<Rightarrow> cmem \<times> u32 \<times> u32 \<times> nat" where
  "copy_head m dst src 0 = (m, dst, src, 0)"
| "copy_head m dst src (Suc n) =
     (if dst AND 3 \<noteq> 0 then copy_head (m(dst := m src)) (dst + 1) (src + 1) n
      else (m, dst, src, Suc n))"

fun copy_words :: "cmem \<Rightarrow> u32 \<Rightarrow> u32 \<Rightarrow> nat \<Rightarrow> cmem \<times> u32 \<times> u32 \<times> nat" where
  "copy_words m dst src n =
     (if n \<ge> 4 then copy_words (store32 m dst (load32 m src)) (dst + 4) (src + 4) (n - 4)
      else (m, dst, src, n))"

fun copy_tail :: "cmem \<Rightarrow> u32 \<Rightarrow> u32 \<Rightarrow> nat \<Rightarrow> cmem" where
  "copy_tail m dst src 0 = m"
| "copy_tail m dst src (Suc n) = copy_tail (m(dst := m src)) (dst + 1) (src + 1) n"

definition memcpy :: "cmem \<Rightarrow> u32 \<Rightarrow> u32 \<Rightarrow> u32 \<Rightarrow> cmem" where
  "memcpy m dst src sz =
     (let (m1, d1, s1, n1) = copy_head m dst src (unat sz);
          (m2, d2, s2, n2) = copy_words m1 d1 s1 n1
      in copy_tail m2 d2 s2 n2)"

text \<open>The same three loops of \<open>memmove\<close> running downwards from the end.\<close>

fun back_head :: "cmem \<Rightarrow> u32 \<Rightarrow> u32 \<Rightarrow> nat \<Rightarrow> cmem \<times> u32 \<times> u32 \<times> nat" where
  "back_head m dst src 0 = (m, dst, src, 0)"
| "back_head m dst src (Suc n) =
     (if dst AND 3 \<noteq> 0 then back_head (m(dst - 1 := m (src - 1))) (dst - 1) (src - 1) n
      else (m, dst, src, Suc n))"

fun back_words :: "cmem \<Rightarrow> u32 \<Rightarrow> u32 \<Rightarrow> nat \<Rightarrow> cmem \<times> u32 \<times> u32 \<times> nat" where
  "back_words m dst src n =
     (if n \<ge> 4 then back_words (store32 m (dst - 4) (load32 m (src - 4))) (dst - 4) (src - 4) (n - 4)
      else (m, dst, src, n))"

fun back_tail :: "cmem \<Rightarrow> u32 \<Rightarrow> u32 \<Rightarrow> nat \<Rightarrow> cmem" where
  "back_tail m dst src 0 = m"
| "back_tail m dst src (Suc n) = back_tail (m(dst - 1 := m (src - 1))) (dst - 1) (src - 1) n"

definition memmove :: "cmem \<Rightarrow> u32 \<Rightarrow> u32 \<Rightarrow> u32 \<Rightarrow> cmem" where
  "memmove m dst src sz =
     (if dst < src then
        (let (m1, d1, s1, n1) = copy_head m dst src (unat sz);
             (m2, d2, s2, n2) = copy_words m1 d1 s1 n1
         in copy_tail m2 d2 s2 n2)
      else
        (let (m1, d1, s1, n1) = back_head m (dst + sz) (src + sz) (unat sz);
             (m2, d2, s2, n2) = back_words m1 d1 s1 n1
         in back_tail m2 d2 s2 n2))"

fun set_head :: "cmem \<Rightarrow> u32 \<Rightarrow> u8 \<Rightarrow> nat \<Rightarrow> cmem \<times> u32 \<times> nat" where
  "set_head m buf b 0 = (m, buf, 0)"
| "set_head m buf b (Suc n) =
     (if buf AND 3 \<noteq> 0 then set_head (m(buf := b)) (buf + 1) b n else (m, buf, Suc n))"

fun set_words :: "cmem \<Rightarrow> u32 \<Rightarrow> u32 \<Rightarrow> nat \<Rightarrow> cmem \<times> u32 \<times> nat" where
  "set_words m buf w n =
     (if n \<ge> 4 then set_words (store32 m buf w) (buf + 4) w (n - 4) else (m, buf, n))"

fun set_tail :: "cmem \<Rightarrow> u32 \<Rightarrow> u8 \<Rightarrow> nat \<Rightarrow> cmem" where
  "set_tail m buf b 0 = m"
| "set_tail m buf b (Suc n) = set_tail (m(buf := b)) (buf + 1) b n"

definition memset :: "cmem \<Rightarrow> u32 \<Rightarrow> int \<Rightarrow> u32 \<Rightarrow> cmem" where
  "memset m buf v sz =
     (let b = (of_int v :: u8);
          (m1, p1, n1) = set_head m buf b (unat sz);
          w = (ucast b OR push_bit 8 (ucast b) OR push_bit 16 (ucast b) OR push_bit 24 (ucast b) :: u32);
          (m2, p2, n2) = set_words m1 p1 w n1
      in set_tail m2 p2 b n2)"

declare copy_words.simps [simp del] back_words.simps [simp del] set_words.simps [simp del]

text \<open>Reading \<open>n\<close> bytes.\<close>

definition mem_bytes :: "cmem \<Rightarrow> u32 \<Rightarrow> nat \<Rightarrow> bytes" where
  "mem_bytes m p n = map (\<lambda>i. m (p + of_nat i)) [0..<n]"

fun memcmp_loop :: "cmem \<Rightarrow> u32 \<Rightarrow> u32 \<Rightarrow> nat \<Rightarrow> int" where
  "memcmp_loop m a b 0 = 0"
| "memcmp_loop m a b (Suc n) =
     (if m a < m b then -1 else if m b < m a then 1 else memcmp_loop m (a + 1) (b + 1) n)"

definition memcmp :: "cmem \<Rightarrow> u32 \<Rightarrow> u32 \<Rightarrow> u32 \<Rightarrow> int" where
  "memcmp m aptr bptr sz = memcmp_loop m aptr bptr (unat sz)"

subsection \<open>NUL-terminated strings\<close>

partial_function (option) strlen_loop :: "cmem \<Rightarrow> u32 \<Rightarrow> u32 \<Rightarrow> u32 option" where
  [code]: "strlen_loop m str len =
     (if m (str + len) \<noteq> 0 then strlen_loop m str (len + 1) else Some len)"

definition strlen :: "cmem \<Rightarrow> u32 \<Rightarrow> u32 option" where
  "strlen m str = strlen_loop m str 0"

partial_function (option) strcmp :: "cmem \<Rightarrow> u32 \<Rightarrow> u32 \<Rightarrow> int option" where
  [code]: "strcmp m a b =
     (if m a \<noteq> 0 \<and> m a = m b then strcmp m (a + 1) (b + 1) else Some (uint (m a) - uint (m b)))"

fun strncmp_loop :: "cmem \<Rightarrow> u32 \<Rightarrow> u32 \<Rightarrow> u8 \<Rightarrow> u8 \<Rightarrow> nat \<Rightarrow> int" where
  "strncmp_loop m a b c1 c2 0 = uint c1 - uint c2"
| "strncmp_loop m a b c1 c2 (Suc n) =
     (if m a = 0 \<or> m a \<noteq> m b then uint (m a) - uint (m b)
      else strncmp_loop m (a + 1) (b + 1) (m a) (m b) n)"

definition strncmp :: "cmem \<Rightarrow> u32 \<Rightarrow> u32 \<Rightarrow> u32 \<Rightarrow> int" where
  "strncmp m s1 s2 sz = strncmp_loop m s1 s2 0 0 (unat sz)"

text \<open>\<open>strchr\<close> returns a pointer, 0 for NULL.\<close>

partial_function (option) strchr :: "cmem \<Rightarrow> u32 \<Rightarrow> u8 \<Rightarrow> u32 option" where
  [code]: "strchr m s ch =
     (if m s \<noteq> 0 then (if m s = ch then Some s else strchr m (s + 1) ch)
      else if ch = 0 then Some s else Some 0)"

partial_function (option) strcpy_loop :: "cmem \<Rightarrow> u32 \<Rightarrow> u32 \<Rightarrow> u32 \<Rightarrow> cmem option" where
  [code]: "strcpy_loop m dest src i =
     (if m (src + i) \<noteq> 0 then strcpy_loop (m(dest + i := m (src + i))) dest src (i + 1)
      else Some (m(dest + i := 0)))"

definition strcpy :: "cmem \<Rightarrow> u32 \<Rightarrow> u32 \<Rightarrow> cmem option" where
  "strcpy m dest src = strcpy_loop m dest src 0"

definition strcat :: "cmem \<Rightarrow> u32 \<Rightarrow> u32 \<Rightarrow> cmem option" where
  "strcat m dest src =
     (case strlen_loop m dest 0 of None \<Rightarrow> None
      | Some dest_length \<Rightarrow> strcpy_loop m (dest + dest_length) src 0)"

text \<open>The two loops of \<open>strncpy\<close>; the last argument is the number of bytes left.\<close>

fun strncpy_pad :: "cmem \<Rightarrow> u32 \<Rightarrow> u32 \<Rightarrow> nat \<Rightarrow> cmem" where
  "strncpy_pad m dest i 0 = m"
| "strncpy_pad m dest i (Suc n) = strncpy_pad (m(dest + i := 0)) dest (i + 1) n"

fun strncpy_loop :: "cmem \<Rightarrow> u32 \<Rightarrow> u32 \<Rightarrow> u32 \<Rightarrow> nat \<Rightarrow> cmem" where
  "strncpy_loop m dest src i 0 = m"
| "strncpy_loop m dest src i (Suc n) =
     (if m (src + i) \<noteq> 0 then strncpy_loop (m(dest + i := m (src + i))) dest src (i + 1) n
      else strncpy_pad m dest i (Suc n))"

definition strncpy :: "cmem \<Rightarrow> u32 \<Rightarrow> u32 \<Rightarrow> u32 \<Rightarrow> cmem" where
  "strncpy m dest src n = strncpy_loop m dest src 0 (unat n)"

partial_function (option) strspn_found :: "cmem \<Rightarrow> u8 \<Rightarrow> u32 \<Rightarrow> bool option" where
  [code]: "strspn_found m c a =
     (if m a \<noteq> 0 then (if c = m a then Some True else strspn_found m c (a + 1)) else Some False)"

partial_function (option) strspn_loop :: "cmem \<Rightarrow> u32 \<Rightarrow> u32 \<Rightarrow> u32 \<Rightarrow> u32 option" where
  [code]: "strspn_loop m s accept count =
     (if m s \<noteq> 0 then
        (case strspn_found m (m s) accept of
           None \<Rightarrow> None
         | Some found \<Rightarrow> if found then strspn_loop m (s + 1) accept (count + 1) else Some count)
      else Some count)"

definition strspn :: "cmem \<Rightarrow> u32 \<Rightarrow> u32 \<Rightarrow> u32 option" where
  "strspn m s accept = strspn_loop m s accept 0"

text \<open>The skipping and the token loop of \<open>strtok_r\<close>.\<close>

partial_function (option) strtok_skip :: "cmem \<Rightarrow> u32 \<Rightarrow> u32 \<Rightarrow> u32 option" where
  [code]: "strtok_skip m delim str =
     (if m str = 0 then Some str
      else case strchr m delim (m str) of None \<Rightarrow> None
        | Some r \<Rightarrow> if r \<noteq> 0 then strtok_skip m delim (str + 1) else Some str)"

partial_function (option) strtok_end :: "cmem \<Rightarrow> u32 \<Rightarrow> u32 \<Rightarrow> u32 option" where
  [code]: "strtok_end m delim str =
     (if m str = 0 then Some str
      else case strchr m delim (m str) of None \<Rightarrow> None
        | Some r \<Rightarrow> if r = 0 then strtok_end m delim (str + 1) else Some str)"

text \<open>The result is the token, the new \<open>*saveptr\<close> and the memory.\<close>

definition strtok_r :: "cmem \<Rightarrow> u32 \<Rightarrow> u32 \<Rightarrow> u32 \<Rightarrow> (u32 \<times> u32 \<times> cmem) option" where
  "strtok_r m str0 delim saveptr =
     (let str = (if str0 = 0 then saveptr else str0) in
      if str = 0 then Some (0, saveptr, m)
      else do {
        token_start \<leftarrow> strtok_skip m delim str;
        if m token_start = 0 then Some (0, 0, m)
        else do {
          e \<leftarrow> strtok_end m delim token_start;
          if m e \<noteq> 0 then Some (token_start, e + 1, m(e := 0))
          else Some (token_start, 0, m)
        }
      })"

definition strtok :: "cmem \<Rightarrow> u32 \<Rightarrow> u32 \<Rightarrow> u32 \<Rightarrow> (u32 \<times> u32 \<times> cmem) option" where
  "strtok m str delim saved_str = strtok_r m str delim saved_str"

subsection \<open>Substring search\<close>

text \<open>
  \<open>critical_factorization\<close> returns \<open>ms\<close> and the period. The state of its loop is
  \<open>(ms, p, j, k)\<close>.
\<close>

partial_function (option) crit_loop ::
  "cmem \<Rightarrow> u32 \<Rightarrow> u32 \<Rightarrow> u32 \<Rightarrow> u32 \<Rightarrow> u32 \<Rightarrow> u32 \<Rightarrow> (u32 \<times> u32) option" where
  [code]: "crit_loop m n nl ms p j k =
     (if j + k < nl then
        (if m (n + j + k) = m (n + ms + k) then
           (if k = p then crit_loop m n nl ms p (j + p) 1 else crit_loop m n nl ms p j (k + 1))
         else if m (n + j + k) > m (n + ms + k) then
           crit_loop m n nl ms (j + k - ms) (j + k) 1
         else crit_loop m n nl j 1 (j + 1) 1)
      else Some (ms, p))"

definition critical_factorization :: "cmem \<Rightarrow> u32 \<Rightarrow> u32 \<Rightarrow> (u32 \<times> u32) option" where
  "critical_factorization m n nl = crit_loop m n nl 0 1 0 1"

text \<open>The naive loop over \<open>i\<close> for short needles; the last argument counts the positions left.\<close>

fun memmem_naive :: "cmem \<Rightarrow> u32 \<Rightarrow> u32 \<Rightarrow> u32 \<Rightarrow> u32 \<Rightarrow> nat \<Rightarrow> u32" where
  "memmem_naive m h n needlelen i 0 = 0"
| "memmem_naive m h n needlelen i (Suc left) =
     (if m (h + i) = m n \<and> memcmp m (h + i) n needlelen = 0 then h + i
      else memmem_naive m h n needlelen (i + 1) left)"

partial_function (option) match_right :: "cmem \<Rightarrow> u32 \<Rightarrow> u32 \<Rightarrow> u32 \<Rightarrow> u32 \<Rightarrow> u32 \<Rightarrow> u32 option" where
  [code]: "match_right m h n needlelen j i =
     (if i < needlelen \<and> m (n + i) = m (h + j + i) then match_right m h n needlelen j (i + 1)
      else Some i)"

partial_function (option) match_left :: "cmem \<Rightarrow> u32 \<Rightarrow> u32 \<Rightarrow> u32 \<Rightarrow> u32 \<Rightarrow> u32 \<Rightarrow> u32 option" where
  [code]: "match_left m h n left j i =
     (if i > left \<and> m (n + i - 1) = m (h + j + i - 1) then match_left m h n left j (i - 1)
      else Some i)"

text \<open>The two-way loop for needles of at least eight bytes. \<open>-1\<close> is \<open>(size_t)-1\<close>.\<close>

partial_function (option) memmem_loop ::
  "cmem \<Rightarrow> u32 \<Rightarrow> u32 \<Rightarrow> u32 \<Rightarrow> u32 \<Rightarrow> u32 \<Rightarrow> u32 \<Rightarrow> bool \<Rightarrow> u32 \<Rightarrow> u32 \<Rightarrow> u32 option" where
  [code]: "memmem_loop m h haystacklen n needlelen ms period periodic j memory =
     (if j + needlelen \<le> haystacklen then
        (case match_right m h n needlelen j ((if ms > memory then ms else memory) + 1) of
           None \<Rightarrow> None
         | Some i \<Rightarrow>
             let memory1 = (if periodic then needlelen - period - 1 else - 1) in
             if i < needlelen
             then memmem_loop m h haystacklen n needlelen ms period periodic (j + (i - ms)) memory1
             else
               (let left = (if memory = - 1 then 0 else memory + 1) in
                case match_left m h n left j (ms + 1) of
                  None \<Rightarrow> None
                | Some i1 \<Rightarrow>
                    if i1 \<le> left then Some (h + j)
                    else memmem_loop m h haystacklen n needlelen ms period periodic (j + period) memory1))
      else Some 0)"

definition memmem :: "cmem \<Rightarrow> u32 \<Rightarrow> u32 \<Rightarrow> u32 \<Rightarrow> u32 \<Rightarrow> u32 option" where
  "memmem m haystack haystacklen needle needlelen =
     (if needlelen = 0 then Some haystack
      else if needlelen > haystacklen then Some 0
      else if needlelen < 8 then
        Some (memmem_naive m haystack needle needlelen 0 (Suc (unat (haystacklen - needlelen))))
      else do {
        (ms, period) \<leftarrow> critical_factorization m needle needlelen;
        let periodic = (memcmp m needle (needle + period) (ms + 1) = 0);
        memmem_loop m haystack haystacklen needle needlelen ms period periodic 0 (- 1)
      })"

definition strstr :: "cmem \<Rightarrow> u32 \<Rightarrow> u32 \<Rightarrow> u32 option" where
  "strstr m haystack needle =
     do { hl \<leftarrow> strlen m haystack; nl \<leftarrow> strlen m needle; memmem m haystack hl needle nl }"

subsection \<open>Word accesses\<close>

lemma byte_of_load32:
  "ucast (load32 m p) = m p" "ucast (drop_bit 8 (load32 m p)) = m (p + 1)"
  "ucast (drop_bit 16 (load32 m p)) = m (p + 2)" "ucast (drop_bit 24 (load32 m p)) = m (p + 3)"
  by (rule bit_word_eqI; auto simp: load32_def bit_simps dest: bit_imp_le_length)+

lemma word_offset_cases:
  "unat ((a::u32) - p) < 4 \<longleftrightarrow> a = p \<or> a = p + 1 \<or> a = p + 2 \<or> a = p + 3"
proof -
  define k where "k = a - p"
  have a: "a = p + k" by (simp add: k_def)
  have "unat k < 4 \<longleftrightarrow> k = 0 \<or> k = 1 \<or> k = 2 \<or> k = 3"
    by (auto simp: word_unat_eq_iff)
  then show ?thesis by (auto simp: a)
qed

lemma store32_load32:
  "store32 m d (load32 m s) a = (if unat (a - d) < 4 then m (s + (a - d)) else m a)"
  by (auto simp: store32_def byte_of_load32 word_offset_cases)

subsection \<open>Correctness of the copying loops\<close>

text \<open>
  The reference: the bytes with offsets from \<open>i\<close> (inclusive) to \<open>k\<close> (exclusive) are copied, all
  of them from the original memory. Offsets are computed in the wrapping address space.
\<close>

definition moved :: "cmem \<Rightarrow> u32 \<Rightarrow> u32 \<Rightarrow> nat \<Rightarrow> nat \<Rightarrow> cmem" where
  "moved m dst src i k = (\<lambda>a. if i \<le> unat (a - dst) \<and> unat (a - dst) < k then m (src + (a - dst)) else m a)"

text \<open>No byte is read after it has been overwritten, upwards and downwards.\<close>

definition up_safe :: "u32 \<Rightarrow> u32 \<Rightarrow> nat \<Rightarrow> bool" where
  "up_safe dst src N \<longleftrightarrow> N \<le> 2 ^ 32 \<and> (\<forall>j<N. j \<le> unat (src + of_nat j - dst))"

definition down_safe :: "u32 \<Rightarrow> u32 \<Rightarrow> nat \<Rightarrow> bool" where
  "down_safe dst src N \<longleftrightarrow> N \<le> 2 ^ 32 \<and>
     (\<forall>j<N. unat (src + of_nat j - dst) \<le> j \<or> N \<le> unat (src + of_nat j - dst))"

lemma unat_shift:
  assumes "i \<le> 2 ^ 32"
  shows "i \<le> unat ((a::u32) - dst) \<Longrightarrow> unat (a - (dst + of_nat i)) = unat (a - dst) - i"
    and "unat (a - dst) < i \<Longrightarrow> unat (a - (dst + of_nat i)) = unat (a - dst) + (2 ^ 32 - i)"
proof -
  define k where "k = a - dst"
  have e: "a - (dst + of_nat i) = k - of_nat i" by (simp add: k_def)
  { assume i: "i \<le> unat (a - dst)"
    have "k - of_nat i = of_nat (unat k - i)" using i by (simp add: k_def of_nat_diff)
    then show "unat (a - (dst + of_nat i)) = unat (a - dst) - i"
      unfolding e using i less_imp_diff_less [OF unat_lt_32 [of k], of i]
      by (intro unat_eqI) (simp_all add: k_def) }
  { assume i: "unat (a - dst) < i"
    have "of_nat (unat k + (2 ^ 32 - i)) = k - of_nat i"
      using assms by (simp add: of_nat_diff k_def)
    then show "unat (a - (dst + of_nat i)) = unat (a - dst) + (2 ^ 32 - i)"
      unfolding e using i assms by (intro unat_eqI) (auto simp: k_def) }
qed

lemma chunk_offset:
  assumes "i + c \<le> 2 ^ 32"
  shows "unat ((a::u32) - (dst + of_nat i)) < c \<longleftrightarrow> i \<le> unat (a - dst) \<and> unat (a - dst) < i + c"
proof (cases "i \<le> unat (a - dst)")
  case True
  then show ?thesis using unat_shift(1) [of i a dst] assms by auto
next
  case False
  then show ?thesis using unat_shift(2) [of i a dst] assms by auto
qed

lemma word_step: "(b::u32) + (a - (dst + i)) + i = b + (a - dst)"
  by simp

text \<open>Copying a chunk of \<open>c\<close> bytes at once extends the moved range, upwards and downwards.\<close>

definition put_chunk :: "nat \<Rightarrow> cmem \<Rightarrow> u32 \<Rightarrow> u32 \<Rightarrow> cmem" where
  "put_chunk c m d s = (\<lambda>a. if unat (a - d) < c then m (s + (a - d)) else m a)"

lemma put_byte: "m(d := m s) = put_chunk 1 m d s"
  by (auto simp: put_chunk_def fun_eq_iff unat_eq_0)

lemma put_word: "store32 m d (load32 m s) = put_chunk 4 m d s"
  by (rule ext) (simp add: store32_load32 put_chunk_def)

lemma put_chunk_up:
  assumes safe: "up_safe dst src N" and c: "i + c \<le> N"
  shows "put_chunk c (moved m dst src 0 i) (dst + of_nat i) (src + of_nat i) = moved m dst src 0 (i + c)"
proof (rule ext)
  fix a
  have N: "i + c \<le> 2 ^ 32" using safe c by (simp add: up_safe_def)
  show "put_chunk c (moved m dst src 0 i) (dst + of_nat i) (src + of_nat i) a = moved m dst src 0 (i + c) a"
  proof (cases "i \<le> unat (a - dst) \<and> unat (a - dst) < i + c")
    case True
    let ?j = "unat (a - dst)"
    have "?j \<le> unat (src + of_nat ?j - dst)"
      using safe c True unfolding up_safe_def by (meson order_less_le_trans)
    then have "\<not> unat (src + (a - dst) - dst) < i" using True by simp
    moreover have "src + of_nat i + (a - (dst + of_nat i)) = src + (a - dst)" by simp
    ultimately show ?thesis
      using True chunk_offset [OF N, of a dst] by (simp add: put_chunk_def moved_def)
  next
    case False
    then show ?thesis
      using chunk_offset [OF N, of a dst] by (auto simp: put_chunk_def moved_def)
  qed
qed

lemma put_chunk_down:
  assumes safe: "down_safe dst src N" and c: "c \<le> i" "i \<le> N"
  shows "put_chunk c (moved m dst src i N) (dst + of_nat (i - c)) (src + of_nat (i - c)) =
         moved m dst src (i - c) N"
proof (rule ext)
  fix a
  have N: "i - c + c \<le> 2 ^ 32" using safe c by (simp add: down_safe_def)
  show "put_chunk c (moved m dst src i N) (dst + of_nat (i - c)) (src + of_nat (i - c)) a =
        moved m dst src (i - c) N a"
  proof (cases "i - c \<le> unat (a - dst) \<and> unat (a - dst) < i")
    case True
    let ?j = "unat (a - dst)"
    have "unat (src + of_nat ?j - dst) \<le> ?j \<or> N \<le> unat (src + of_nat ?j - dst)"
      using safe c True unfolding down_safe_def by (meson order_less_le_trans)
    then have "\<not> (i \<le> unat (src + (a - dst) - dst) \<and> unat (src + (a - dst) - dst) < N)"
      using True by auto
    moreover have "src + of_nat (i - c) + (a - (dst + of_nat (i - c))) = src + (a - dst)" by simp
    moreover have "unat (a - (dst + of_nat (i - c))) < c"
      using True chunk_offset [OF N, of a dst] c by simp
    ultimately show ?thesis
      using True c(2) by (auto simp: put_chunk_def moved_def)
  next
    case False
    then show ?thesis
      using chunk_offset [OF N, of a dst] c by (auto simp: put_chunk_def moved_def)
  qed
qed

lemma copy_head_up:
  assumes "up_safe dst src N" and "i + n = N"
  shows "\<exists>i' n'. copy_head (moved m dst src 0 i) (dst + of_nat i) (src + of_nat i) n =
           (moved m dst src 0 i', dst + of_nat i', src + of_nat i', n') \<and> i' + n' = N"
  using assms(2)
proof (induction n arbitrary: i)
  case (Suc n)
  have "put_chunk 1 (moved m dst src 0 i) (dst + of_nat i) (src + of_nat i) = moved m dst src 0 (i + 1)"
    using put_chunk_up [OF assms(1), of i 1] Suc.prems by simp
  then show ?case
    using Suc.IH [of "i + 1"] Suc.prems by (auto simp: put_byte add.assoc add.commute [of 1])
qed auto

lemma copy_words_up:
  assumes "up_safe dst src N" and "i + n = N"
  shows "\<exists>i' n'. copy_words (moved m dst src 0 i) (dst + of_nat i) (src + of_nat i) n =
           (moved m dst src 0 i', dst + of_nat i', src + of_nat i', n') \<and> i' + n' = N"
  using assms(2)
proof (induction n arbitrary: i rule: less_induct)
  case (less n)
  show ?case
  proof (cases "n \<ge> 4")
    case True
    have "put_chunk 4 (moved m dst src 0 i) (dst + of_nat i) (src + of_nat i) = moved m dst src 0 (i + 4)"
      using put_chunk_up [OF assms(1), of i 4] less.prems True by simp
    then show ?thesis
      using less.IH [of "n - 4" "i + 4"] less.prems True
      by (subst copy_words.simps) (auto simp: put_word add.assoc)
  next
    case False
    then show ?thesis using less.prems by (auto simp: copy_words.simps)
  qed
qed

lemma copy_tail_up:
  assumes "up_safe dst src N" and "i + n = N"
  shows "copy_tail (moved m dst src 0 i) (dst + of_nat i) (src + of_nat i) n = moved m dst src 0 N"
  using assms(2)
proof (induction n arbitrary: i)
  case (Suc n)
  have "put_chunk 1 (moved m dst src 0 i) (dst + of_nat i) (src + of_nat i) = moved m dst src 0 (i + 1)"
    using put_chunk_up [OF assms(1), of i 1] Suc.prems by simp
  then show ?case
    using Suc.IH [of "i + 1"] Suc.prems by (simp add: put_byte add.assoc add.commute [of 1])
qed simp

lemma moved_none [simp]: "moved m dst src i i = m"
  by (auto simp: moved_def fun_eq_iff)

lemma memcpy_moved:
  assumes "up_safe dst src (unat sz)"
  shows "memcpy m dst src sz = moved m dst src 0 (unat sz)"
proof -
  obtain i n where 1: "copy_head m dst src (unat sz) =
      (moved m dst src 0 i, dst + of_nat i, src + of_nat i, n)" "i + n = unat sz"
    using copy_head_up [OF assms, of 0 "unat sz" m] by auto
  obtain i' n' where 2: "copy_words (moved m dst src 0 i) (dst + of_nat i) (src + of_nat i) n =
      (moved m dst src 0 i', dst + of_nat i', src + of_nat i', n')" "i' + n' = unat sz"
    using copy_words_up [OF assms 1(2), of m] by auto
  show ?thesis
    unfolding memcpy_def 1(1) Let_def prod.case 2(1) by (rule copy_tail_up [OF assms 2(2)])
qed

lemma back_head_down:
  assumes "down_safe dst src N" and "i \<le> N"
  shows "\<exists>i'. back_head (moved m dst src i N) (dst + of_nat i) (src + of_nat i) i =
           (moved m dst src i' N, dst + of_nat i', src + of_nat i', i') \<and> i' \<le> N"
  using assms(2)
proof (induction i)
  case (Suc i)
  have "put_chunk 1 (moved m dst src (Suc i) N) (dst + of_nat i) (src + of_nat i) = moved m dst src i N"
    using put_chunk_down [OF assms(1), of 1 "Suc i"] Suc.prems by simp
  moreover have "x + of_nat (Suc i) - 1 = x + (of_nat i :: u32)" for x by simp
  ultimately show ?case using Suc by (simp only: back_head.simps put_byte) (auto simp del: of_nat_Suc)
qed auto

lemma back_words_down:
  assumes "down_safe dst src N" and "i \<le> N"
  shows "\<exists>i'. back_words (moved m dst src i N) (dst + of_nat i) (src + of_nat i) i =
           (moved m dst src i' N, dst + of_nat i', src + of_nat i', i') \<and> i' \<le> N"
  using assms(2)
proof (induction i rule: less_induct)
  case (less i)
  show ?case
  proof (cases "i \<ge> 4")
    case True
    then have e: "x + of_nat i - 4 = x + (of_nat (i - 4) :: u32)" for x by simp
    have "put_chunk 4 (moved m dst src i N) (dst + of_nat (i - 4)) (src + of_nat (i - 4)) =
        moved m dst src (i - 4) N"
      using put_chunk_down [OF assms(1) True less.prems] .
    then show ?thesis
      using less.IH [of "i - 4"] less.prems True
      by (subst back_words.simps) (simp add: put_word e del: of_nat_diff)
  next
    case False
    then show ?thesis using less.prems by (auto simp: back_words.simps)
  qed
qed

lemma back_tail_down:
  assumes "down_safe dst src N" and "i \<le> N"
  shows "back_tail (moved m dst src i N) (dst + of_nat i) (src + of_nat i) i = moved m dst src 0 N"
  using assms(2)
proof (induction i)
  case (Suc i)
  have "put_chunk 1 (moved m dst src (Suc i) N) (dst + of_nat i) (src + of_nat i) = moved m dst src i N"
    using put_chunk_down [OF assms(1), of 1 "Suc i"] Suc.prems by simp
  moreover have "x + of_nat (Suc i) - 1 = x + (of_nat i :: u32)" for x by simp
  ultimately show ?case using Suc by (simp only: back_tail.simps put_byte Suc_leD)
qed simp

lemma memmove_down:
  assumes "down_safe dst src (unat sz)" and "\<not> dst < src"
  shows "memmove m dst src sz = moved m dst src 0 (unat sz)"
proof -
  obtain i where 1: "back_head m (dst + sz) (src + sz) (unat sz) =
      (moved m dst src i (unat sz), dst + of_nat i, src + of_nat i, i)" "i \<le> unat sz"
    using back_head_down [OF assms(1) order_refl, of m] by auto
  obtain i' where 2: "back_words (moved m dst src i (unat sz)) (dst + of_nat i) (src + of_nat i) i =
      (moved m dst src i' (unat sz), dst + of_nat i', src + of_nat i', i')" "i' \<le> unat sz"
    using back_words_down [OF assms(1) 1(2), of m] by auto
  show ?thesis
    unfolding memmove_def if_not_P [OF assms(2)] 1(1) Let_def prod.case 2(1)
    by (rule back_tail_down [OF assms(1) 2(2)])
qed

lemma up_safe_below:
  assumes "dst \<le> src" and "unat src + n \<le> 2 ^ 32"
  shows "up_safe dst src n"
proof -
  have "j \<le> unat (src + of_nat j - dst)" if "j < n" for j
  proof -
    have "src + of_nat j - dst = of_nat (unat src + j - unat dst)"
      using assms(1) by (simp add: word_le_nat_alt of_nat_diff)
    then have "unat (src + of_nat j - dst) = unat src + j - unat dst"
      using assms that by (intro unat_eqI) auto
    then show ?thesis using assms(1) by (simp add: word_le_nat_alt)
  qed
  then show ?thesis using assms(2) by (simp add: up_safe_def)
qed

lemma down_safe_above:
  assumes "src \<le> dst" and "unat dst + n \<le> 2 ^ 32"
  shows "down_safe dst src n"
proof -
  have "unat (src + of_nat j - dst) \<le> j \<or> n \<le> unat (src + of_nat j - dst)" if "j < n" for j
  proof (cases "unat dst \<le> unat src + j")
    case True
    then have "src + of_nat j - dst = of_nat (unat src + j - unat dst)" by (simp add: of_nat_diff)
    then have "unat (src + of_nat j - dst) = unat src + j - unat dst"
      using assms that by (intro unat_eqI) (auto simp: word_le_nat_alt)
    then show ?thesis using assms(1) unfolding word_le_nat_alt by linarith
  next
    case False
    then have "src + of_nat j - dst = of_nat (unat src + j + (2 ^ 32 - unat dst))"
      using assms(2) by (simp add: of_nat_diff)
    then have "unat (src + of_nat j - dst) = unat src + j + (2 ^ 32 - unat dst)"
      using False unat_lt_32 [of dst] by (intro unat_eqI) auto
    then show ?thesis using assms(2) by linarith
  qed
  then show ?thesis using assms(2) by (simp add: down_safe_def)
qed

lemma memmove_moved:
  assumes "unat dst + unat sz \<le> 2 ^ 32" and "unat src + unat sz \<le> 2 ^ 32"
  shows "memmove m dst src sz = moved m dst src 0 (unat sz)"
proof (cases "dst < src")
  case True
  have "memmove m dst src sz = memcpy m dst src sz"
    unfolding memmove_def memcpy_def if_P [OF True] by (rule refl)
  then show ?thesis
    using memcpy_moved [OF up_safe_below [OF order.strict_implies_order [OF True] assms(2)], of m]
    by (rule trans)
next
  case False
  then show ?thesis
    using memmove_down [OF down_safe_above [OF _ assms(1)] False] by (simp only: not_less)
qed

lemma memcpy_disjoint:
  assumes "unat dst + unat sz \<le> 2 ^ 32" and "unat src + unat sz \<le> 2 ^ 32"
    and "dst \<le> src \<or> unat src + unat sz \<le> unat dst"
  shows "memcpy m dst src sz = moved m dst src 0 (unat sz)"
proof (rule memcpy_moved)
  show "up_safe dst src (unat sz)"
  proof (cases "dst \<le> src")
    case False
    have "j \<le> unat (src + of_nat j - dst)" if j: "j < unat sz" for j
    proof -
      have lt: "unat src + j < unat dst" using False assms(3) j by simp
      then have "src + of_nat j - dst = of_nat (unat src + j + (2 ^ 32 - unat dst))"
        using assms(1) by (simp add: of_nat_diff)
      then have "unat (src + of_nat j - dst) = unat src + j + (2 ^ 32 - unat dst)"
        using lt unat_lt_32 [of dst] by (intro unat_eqI) auto
      then show ?thesis by simp
    qed
    then show ?thesis using assms(1) by (simp add: up_safe_def)
  qed (rule up_safe_below, use assms in simp_all)
qed

subsection \<open>Filling\<close>

definition filled :: "cmem \<Rightarrow> u32 \<Rightarrow> u8 \<Rightarrow> nat \<Rightarrow> cmem" where
  "filled m p b n = (\<lambda>a. if unat (a - p) < n then b else m a)"

lemma filled_chunk:
  assumes "i + c \<le> 2 ^ 32"
  shows "filled (filled m p b i) (p + of_nat i) b c = filled m p b (i + c)"
  using chunk_offset [OF assms, of _ p] by (auto simp: filled_def fun_eq_iff)

lemma fill_byte: "m(p := b) = filled m p b 1"
  by (auto simp: filled_def fun_eq_iff unat_eq_0)

definition splat :: "u8 \<Rightarrow> u32" where
  "splat b = ucast b OR push_bit 8 (ucast b) OR push_bit 16 (ucast b) OR push_bit 24 (ucast b)"

lemma fill_word: "store32 m p (splat b) = filled m p b 4"
proof -
  have "splat b = load32 (\<lambda>_. b) p" by (simp add: splat_def load32_def)
  then show ?thesis
    using byte_of_load32 [of "\<lambda>_. b" p]
    by (auto simp: fun_eq_iff store32_def filled_def word_offset_cases)
qed

lemma set_head_filled:
  assumes "i + n \<le> 2 ^ 32"
  shows "\<exists>i' n'. set_head (filled m p b i) (p + of_nat i) b n = (filled m p b i', p + of_nat i', n') \<and>
           i' + n' = i + n"
  using assms
proof (induction n arbitrary: i)
  case (Suc n)
  then show ?case
    using Suc.IH [of "i + 1"] filled_chunk [of i 1 m p b]
    by (auto simp: fill_byte add.assoc add.commute [of 1])
qed auto

lemma set_words_filled:
  assumes "i + n \<le> 2 ^ 32"
  shows "\<exists>i' n'. set_words (filled m p b i) (p + of_nat i) (splat b) n =
           (filled m p b i', p + of_nat i', n') \<and> i' + n' = i + n"
  using assms
proof (induction n arbitrary: i rule: less_induct)
  case (less n)
  show ?case
  proof (cases "n \<ge> 4")
    case True
    then show ?thesis
      using less.IH [of "n - 4" "i + 4"] less.prems filled_chunk [of i 4 m p b]
      by (subst set_words.simps) (auto simp: fill_word add.assoc)
  next
    case False
    then show ?thesis using less.prems by (auto simp: set_words.simps)
  qed
qed

lemma set_tail_filled:
  assumes "i + n \<le> 2 ^ 32"
  shows "set_tail (filled m p b i) (p + of_nat i) b n = filled m p b (i + n)"
  using assms
proof (induction n arbitrary: i)
  case (Suc n)
  then show ?case
    using Suc.IH [of "i + 1"] filled_chunk [of i 1 m p b]
    by (simp add: fill_byte add.assoc add.commute [of 1])
qed simp

lemma memset_filled: "memset m p v sz = filled m p (of_int v) (unat sz)"
proof -
  let ?b = "of_int v :: u8"
  have le: "unat sz \<le> 2 ^ 32" using unat_lt_32 [of sz] by simp
  have z: "filled m p ?b 0 = m" by (simp add: filled_def)
  obtain i n where 1: "set_head m p ?b (unat sz) = (filled m p ?b i, p + of_nat i, n)" "i + n = unat sz"
    using set_head_filled [of 0 "unat sz" m p ?b] le by (auto simp: z)
  obtain i' n' where 2: "set_words (filled m p ?b i) (p + of_nat i) (splat ?b) n =
      (filled m p ?b i', p + of_nat i', n')" "i' + n' = unat sz"
    using set_words_filled [of i n m p ?b] le 1(2) by auto
  show ?thesis
    unfolding memset_def Let_def 1(1) prod.case splat_def [symmetric] 2(1)
    using set_tail_filled [of i' n' m p ?b] le 2(2) by simp
qed

subsection \<open>C strings\<close>

fun c_str :: "cmem \<Rightarrow> u32 \<Rightarrow> bytes \<Rightarrow> bool" where
  "c_str m p [] = (m p = 0)"
| "c_str m p (c # s) = (m p = c \<and> c \<noteq> 0 \<and> c_str m (p + 1) s)"

lemma c_str_append:
  "c_str m p (s @ t) \<longleftrightarrow> (\<forall>i<length s. m (p + of_nat i) = s ! i) \<and> 0 \<notin> set s \<and> c_str m (p + of_nat (length s)) t"
proof (induction s arbitrary: p)
  case (Cons c s)
  show ?case by (auto simp: Cons.IH All_less_Suc2 add.assoc)
qed simp

lemma c_str_nonzero: "c_str m p s \<Longrightarrow> 0 \<notin> set s"
  using c_str_append [of m p s "[]"] by simp

lemma c_str_unique: "c_str m p s \<Longrightarrow> c_str m p t \<Longrightarrow> s = t"
proof (induction s arbitrary: p t)
  case Nil
  then show ?case by (cases t) auto
next
  case (Cons c s)
  then show ?case by (cases t) auto
qed

lemma c_str_frame: "c_str m p s \<Longrightarrow> \<forall>i\<le>length s. p + of_nat i \<noteq> a \<Longrightarrow> c_str (m(a := v)) p s"
proof (induction s arbitrary: p)
  case (Cons c s)
  have "p + 1 + of_nat i \<noteq> a" if "i \<le> length s" for i
    using Cons.prems(2) [rule_format, of "Suc i"] that by (simp add: add.assoc)
  moreover have "p \<noteq> a" using Cons.prems(2) [rule_format, of 0] by simp
  ultimately show ?case using Cons by simp
qed auto

lemma strlen_loop_c_str: "c_str m (p + len) s \<Longrightarrow> strlen_loop m p len = Some (len + of_nat (length s))"
proof (induction s arbitrary: len)
  case Nil
  then show ?case by (simp add: strlen_loop.simps)
next
  case (Cons c s)
  then show ?case using Cons.IH [of "len + 1"]
    by (subst strlen_loop.simps) (simp add: add.assoc)
qed

lemma strlen_c_str: "c_str m p s \<Longrightarrow> strlen m p = Some (of_nat (length s))"
  using strlen_loop_c_str [of m p 0 s] by (simp add: strlen_def)

lemma strcmp_c_str:
  assumes "c_str m a s" and "c_str m b t"
  shows "\<exists>r. strcmp m a b = Some r \<and> (r = 0 \<longleftrightarrow> s = t) \<and> (r < 0 \<longleftrightarrow> ord_class.lexordp s t)"
  using assms
proof (induction s arbitrary: a b t)
  case Nil
  then show ?case
    by (cases t) (auto simp: strcmp.simps [of m a b] word_greater_zero_iff unsigned_eq_0_iff less_le)
next
  case (Cons c s)
  show ?case
  proof (cases t)
    case Nil
    then show ?thesis using Cons.prems
      by (auto simp: strcmp.simps [of m a b] word_greater_zero_iff unsigned_eq_0_iff not_less)
  next
    case (Cons d t')
    show ?thesis
    proof (cases "c = d")
      case True
      then show ?thesis using Cons.IH [of "a + 1" "b + 1" t'] Cons.prems Cons
        by (subst strcmp.simps) auto
    next
      case False
      then show ?thesis using Cons.prems Cons
        by (auto simp: strcmp.simps [of m a b] word_less_def word_uint_eq_iff)
    qed
  qed
qed

lemma mem_bytes_Suc: "mem_bytes m p (Suc n) = m p # mem_bytes m (p + 1) n"
  by (simp add: mem_bytes_def upt_conv_Cons map_Suc_upt [symmetric] comp_def add.assoc del: upt_Suc)

lemma mem_bytes_nth [simp]: "i < n \<Longrightarrow> mem_bytes m p n ! i = m (p + of_nat i)"
  by (simp add: mem_bytes_def)

lemma length_mem_bytes [simp]: "length (mem_bytes m p n) = n"
  by (simp add: mem_bytes_def)

lemma memcmp_loop_bytes:
  "memcmp_loop m a b n =
     (if mem_bytes m a n = mem_bytes m b n then 0
      else if ord_class.lexordp (mem_bytes m a n) (mem_bytes m b n) then -1 else 1)"
  by (induction n arbitrary: a b) (auto simp: mem_bytes_Suc, simp_all add: mem_bytes_def)

lemma strchr_c_str:
  assumes "c_str m p s" and "c \<noteq> 0"
  shows "strchr m p c =
     Some (if c \<in> set s then p + of_nat (length (takeWhile (\<lambda>d. d \<noteq> c) s)) else 0)"
  using assms(1)
proof (induction s arbitrary: p)
  case Nil
  then show ?case using assms(2) by (simp add: strchr.simps)
next
  case (Cons d s)
  then show ?case by (subst strchr.simps) (auto simp: add.assoc)
qed

text \<open>A string that lies in the address space above address 0.\<close>

definition c_str_at :: "cmem \<Rightarrow> u32 \<Rightarrow> bytes \<Rightarrow> bool" where
  "c_str_at m p s \<longleftrightarrow> c_str m p s \<and> 0 < unat p \<and> unat p + length s < 2 ^ 32"

lemma unat_at:
  assumes "unat (p::u32) + n < 2 ^ 32" and "i \<le> n"
  shows "unat (p + of_nat i) = unat p + i"
  using assms by (intro unat_eqI) simp_all

lemma strchr_found:
  assumes "c_str_at m p s" and "c \<noteq> 0"
  shows "\<exists>r. strchr m p c = Some r \<and> (r \<noteq> 0 \<longleftrightarrow> c \<in> set s)"
proof -
  let ?n = "length (takeWhile (\<lambda>d. d \<noteq> c) s)"
  have "unat (p + of_nat ?n) = unat p + ?n"
    using assms(1) length_takeWhile_le [of "\<lambda>d. d \<noteq> c" s] by (intro unat_at) (auto simp: c_str_at_def)
  then have "p + of_nat ?n \<noteq> 0" using assms(1) by (auto simp: c_str_at_def unat_eq_0 [symmetric] simp del: unat_eq_0)
  then show ?thesis using assms strchr_c_str [of m p s c] by (auto simp: c_str_at_def)
qed

lemma c_str_length:
  assumes "c_str m p s"
  shows "length s < 2 ^ 32"
proof (rule ccontr)
  assume "\<not> length s < 2 ^ 32"
  define i where "i = length s - 2 ^ 32"
  have i: "i < length s" "length s = i + 2 ^ 32" using \<open>\<not> length s < 2 ^ 32\<close> by (auto simp: i_def)
  have "(of_nat (i + 2 ^ 32) :: u32) = of_nat i" by simp
  then have "(of_nat (length s) :: u32) = of_nat i" using i(2) by simp
  then show False using c_str_append [of m p s "[]"] assms i(1) by (auto simp: in_set_conv_nth)
qed

lemma of_nat_Suc_neq_0: "Suc j < 2 ^ 32 \<Longrightarrow> 1 + of_nat j \<noteq> (0::u32)"
  using unat_eqI [of "1 + of_nat j" "Suc j"] by auto

lemma strcpy_loop_c_str:
  assumes "c_str m (src + i) s"
    and "\<forall>j\<le>length s. \<forall>k\<le>length s. dest + i + of_nat j \<noteq> src + i + of_nat k"
  shows "\<exists>m'. strcpy_loop m dest src i = Some m' \<and> c_str m' (dest + i) s \<and>
           (\<forall>a. (\<forall>j\<le>length s. a \<noteq> dest + i + of_nat j) \<longrightarrow> m' a = m a)"
  using assms
proof (induction s arbitrary: m i)
  case Nil
  then show ?case by (auto simp: strcpy_loop.simps [of m dest src i])
next
  case (Cons c s)
  let ?m = "m(dest + i := c)"
  have len: "length s + 1 < 2 ^ 32" using c_str_length [OF Cons.prems(1)] by simp
  have ne: "dest + (i + 1) + of_nat j \<noteq> src + (i + 1) + of_nat k" if "j \<le> length s" "k \<le> length s" for j k
    using Cons.prems(2) [rule_format, of "Suc j" "Suc k"] that by (simp add: add.assoc)
  have "src + (i + 1) + of_nat k \<noteq> dest + i" if "k \<le> length s" for k
    using Cons.prems(2) [rule_format, of 0 "Suc k"] that by (auto simp: add.assoc)
  then have "c_str ?m (src + (i + 1)) s"
    using Cons.prems(1) by (intro c_str_frame) (auto simp: add.assoc)
  from Cons.IH [OF this] ne obtain m' where m': "strcpy_loop ?m dest src (i + 1) = Some m'"
      "c_str m' (dest + (i + 1)) s"
      "\<forall>a. (\<forall>j\<le>length s. a \<noteq> dest + (i + 1) + of_nat j) \<longrightarrow> m' a = ?m a" by blast
  have "dest + i \<noteq> dest + (i + 1) + of_nat j" if "j \<le> length s" for j
    using of_nat_Suc_neq_0 [of j] len that by (simp add: add.assoc)
  then have keep: "m' (dest + i) = c" using m'(3) by simp
  have frame: "m' a = m a" if a: "\<forall>j\<le>length (c # s). a \<noteq> dest + i + of_nat j" for a
  proof -
    have "a \<noteq> dest + (i + 1) + of_nat j" if "j \<le> length s" for j
      using a [rule_format, of "Suc j"] that by (simp add: add.assoc)
    then show ?thesis using m'(3) a [rule_format, of 0] by simp
  qed
  have "strcpy_loop m dest src i = Some m'"
    using Cons.prems(1) m'(1) by (subst strcpy_loop.simps) simp
  then show ?case using keep m'(2) frame Cons.prems(1) by (auto simp: add.assoc)
qed

subsection \<open>Tokens\<close>

lemma strtok_skip_c_str:
  assumes "c_str_at m q d" and "c_str m p s"
  shows "\<exists>k. k \<le> length s \<and> strtok_skip m q p = Some (p + of_nat k) \<and> drop k s = dropWhile (\<lambda>c. c \<in> set d) s"
  using assms(2)
proof (induction s arbitrary: p)
  case Nil
  then show ?case by (simp add: strtok_skip.simps)
next
  case (Cons c s)
  obtain r where r: "strchr m q c = Some r" "r \<noteq> 0 \<longleftrightarrow> c \<in> set d"
    using strchr_found [OF assms(1), of c] Cons.prems by auto
  obtain k where k: "k \<le> length s" "strtok_skip m q (p + 1) = Some (p + 1 + of_nat k)"
      "drop k s = dropWhile (\<lambda>c. c \<in> set d) s"
    using Cons.IH [of "p + 1"] Cons.prems by auto
  show ?case
  proof (cases "c \<in> set d")
    case True
    then show ?thesis using Cons.prems r k
      by (intro exI [of _ "Suc k"]) (simp add: strtok_skip.simps [of m q p] add.assoc)
  next
    case False
    then show ?thesis using Cons.prems r
      by (intro exI [of _ 0]) (simp add: strtok_skip.simps [of m q p])
  qed
qed

lemma strtok_end_c_str:
  assumes "c_str_at m q d" and "c_str m p s"
  shows "strtok_end m q p = Some (p + of_nat (length (takeWhile (\<lambda>c. c \<notin> set d) s)))"
  using assms(2)
proof (induction s arbitrary: p)
  case Nil
  then show ?case by (simp add: strtok_end.simps)
next
  case (Cons c s)
  obtain r where r: "strchr m q c = Some r" "r \<noteq> 0 \<longleftrightarrow> c \<in> set d"
    using strchr_found [OF assms(1), of c] Cons.prems by auto
  then show ?case using Cons.prems Cons.IH [of "p + 1"]
    by (subst strtok_end.simps) (auto simp: add.assoc)
qed

text \<open>
  A caller that collects all tokens: it passes the string to the first call and NULL to the
  later ones, and copies each token out. The number bounds the calls.
\<close>

partial_function (option) read_str :: "cmem \<Rightarrow> u32 \<Rightarrow> bytes option" where
  [code]: "read_str m p =
     (if m p = 0 then Some [] else do { s \<leftarrow> read_str m (p + 1); Some (m p # s) })"

fun strtok_all :: "nat \<Rightarrow> cmem \<Rightarrow> u32 \<Rightarrow> u32 \<Rightarrow> u32 \<Rightarrow> bytes list option" where
  "strtok_all 0 m str delim save = None"
| "strtok_all (Suc n) m str delim save =
     do { (tok, save1, m1) \<leftarrow> strtok_r m str delim save;
          if tok = 0 then Some []
          else do { t \<leftarrow> read_str m1 tok;
                    ts \<leftarrow> strtok_all n m1 0 delim save1;
                    Some (t # ts) } }"

text \<open>The fields of a string: the maximal runs of bytes that are not delimiters.\<close>

function fields :: "u8 set \<Rightarrow> bytes \<Rightarrow> bytes list" where
  "fields d s =
     (case dropWhile (\<lambda>c. c \<in> d) s of
        [] \<Rightarrow> []
      | c # cs \<Rightarrow> (c # takeWhile (\<lambda>c. c \<notin> d) cs) # fields d (dropWhile (\<lambda>c. c \<notin> d) cs))"
  by pat_completeness auto
termination
proof (relation "measure (\<lambda>(d, s). length s)", goal_cases)
  case (2 d s c cs)
  have "length (dropWhile (\<lambda>c. c \<notin> d) cs) \<le> length cs" by (rule length_dropWhile_le)
  moreover have "length (c # cs) \<le> length s" using length_dropWhile_le 2 by metis
  ultimately show ?case by simp
qed simp

declare fields.simps [simp del]

lemma fields_skip: "c \<in> d \<Longrightarrow> fields d (c # s) = fields d s"
  by (subst (1 2) fields.simps) simp

lemma read_str_c_str: "c_str m p s \<Longrightarrow> read_str m p = Some s"
proof (induction s arbitrary: p)
  case Nil
  then show ?case by (simp add: read_str.simps)
next
  case (Cons c s)
  then show ?case by (subst read_str.simps) simp
qed

lemma c_str_take:
  assumes "c_str m p (t @ u)" and "unat p + length (t @ u) < 2 ^ 32"
  shows "c_str (m(p + of_nat (length t) := 0)) p t"
proof -
  have "p + of_nat i \<noteq> p + of_nat (length t)" if "i < length t" for i
  proof
    assume "p + of_nat i = p + of_nat (length t)"
    then have "unat (p + of_nat i) = unat (p + of_nat (length t))" by (rule arg_cong)
    moreover have "unat (p + of_nat i) = unat p + i" "unat (p + of_nat (length t)) = unat p + length t"
      by (rule unat_at [OF assms(2)]; use that in simp)+
    ultimately show False using that by simp
  qed
  then show ?thesis
    using assms(1) c_str_append [of m p t u] c_str_append [of "m(p + of_nat (length t) := 0)" p t "[]"]
    by auto
qed

definition apart :: "u32 \<Rightarrow> nat \<Rightarrow> u32 \<Rightarrow> nat \<Rightarrow> bool" where
  "apart p n q k \<longleftrightarrow> unat p + n < unat q \<or> unat q + k < unat p"

lemma c_str_at_write:
  assumes "c_str_at m q d" and "unat a < unat q \<or> unat q + length d < unat a"
  shows "c_str_at (m(a := v)) q d"
proof -
  have "q + of_nat i \<noteq> a" if "i \<le> length d" for i
  proof
    assume "q + of_nat i = a"
    moreover have "unat (q + of_nat i) = unat q + i"
      using assms(1) that by (intro unat_at) (auto simp: c_str_at_def)
    ultimately have "unat a = unat q + i" by simp
    then show False using assms(2) that by auto
  qed
  then show ?thesis using assms(1) by (auto simp: c_str_at_def intro!: c_str_frame)
qed

lemma strtok_call:
  assumes s: "c_str_at m p s" and d: "c_str_at m q d" and ap: "apart p (length s) q (length d)"
    and str: "p = (if str0 = 0 then save else str0)"
  shows "(case dropWhile (\<lambda>c. c \<in> set d) s of
      [] \<Rightarrow> strtok_r m str0 q save = Some (0, 0, m)
    | c # cs \<Rightarrow> \<exists>tok save1 m1. strtok_r m str0 q save = Some (tok, save1, m1) \<and> tok \<noteq> 0 \<and>
        c_str m1 tok (c # takeWhile (\<lambda>c. c \<notin> set d) cs) \<and> c_str_at m1 q d \<and>
        (case dropWhile (\<lambda>c. c \<notin> set d) cs of
           [] \<Rightarrow> save1 = 0
         | e # es \<Rightarrow> c_str_at m1 save1 es \<and> apart save1 (length es) q (length d)))"
proof -
  have cs: "c_str m p s" "p \<noteq> 0" and len: "unat p + length s < 2 ^ 32"
    using s by (auto simp: c_str_at_def)
  obtain k where k: "k \<le> length s" "strtok_skip m q p = Some (p + of_nat k)"
      "drop k s = dropWhile (\<lambda>c. c \<in> set d) s"
    using strtok_skip_c_str [OF d cs(1)] by blast
  define T where "T = p + of_nat k"
  have uT: "unat T = unat p + k" using unat_at [OF len k(1)] by (simp add: T_def)
  have cT: "c_str m T (drop k s)"
    using c_str_append [of m p "take k s" "drop k s"] cs(1) k(1) by (simp add: T_def min_absorb2)
  have str': "(if str0 = 0 then save else str0) = p" using str by simp
  show ?thesis
  proof (cases "dropWhile (\<lambda>c. c \<in> set d) s")
    case Nil
    have "m T = 0" using cT unfolding k(3) Nil by simp
    then have "strtok_r m str0 q save = Some (0, 0, m)"
      using cs(2) k(2) by (simp add: strtok_r_def str' T_def)
    then show ?thesis unfolding Nil by simp
  next
    case (Cons c cs')
    have cd: "c \<notin> set d" using Cons by (simp add: dropWhile_eq_Cons_conv)
    define t r where "t = c # takeWhile (\<lambda>c. c \<notin> set d) cs'" and "r = dropWhile (\<lambda>c. c \<notin> set d) cs'"
    have split: "drop k s = t @ r" using k(3) Cons by (simp add: t_def r_def)
    have tk: "takeWhile (\<lambda>c. c \<notin> set d) (drop k s) = t" using k(3) Cons cd by (simp add: t_def)
    define e where "e = T + of_nat (length t)"
    have e: "strtok_end m q T = Some e" using strtok_end_c_str [OF d cT] tk by (simp add: e_def)
    have lt: "length t + length r = length s - k" using arg_cong [OF split, of length] by simp
    have lenT: "unat T + length (t @ r) < 2 ^ 32" using len uT k(1) lt by simp
    have ct: "c_str m T (t @ r)" using cT split by simp
    have mT: "m T \<noteq> 0" using ct by (auto simp: t_def)
    have ue: "unat e = unat T + length t" using unat_at [OF lenT, of "length t"] by (simp add: e_def)
    have cr: "c_str m e r" using ct c_str_append [of m T t r] by (simp add: e_def)
    have T0: "T \<noteq> 0" using uT s by (auto simp: c_str_at_def)
    have res: "strtok_r m str0 q save =
        (if m e \<noteq> 0 then Some (T, e + 1, m(e := 0)) else Some (T, 0, m))"
      using k(2) mT cs(2) e by (simp add: strtok_r_def str' T_def)
    show ?thesis
    proof (cases r)
      case Nil
      then have "m e = 0" "c_str m T t" using cr ct by simp_all
      then show ?thesis
        using res T0 d unfolding Cons list.case t_def [symmetric] r_def [symmetric] Nil by simp
    next
      case (Cons f es)
      have me: "m e \<noteq> 0" "c_str m (e + 1) es" using cr Cons by auto
      have ls: "unat e + length es < unat p + length s" "unat p \<le> unat e"
        using lt ue uT k(1) Cons by auto
      have ue1: "unat (e + 1) = unat e + 1" using ls len unat_at [of e 1 1] by simp
      have fd: "c_str_at (m(e := 0)) q d"
        using ap ls by (intro c_str_at_write [OF d]) (auto simp: apart_def)
      have "c_str_at m (e + 1) es" using me(2) ue1 ls len by (simp add: c_str_at_def)
      then have es: "c_str_at (m(e := 0)) (e + 1) es"
        using ue1 by (intro c_str_at_write) simp_all
      have "c_str (m(e := 0)) T t" using c_str_take [OF ct lenT] by (simp add: e_def)
      moreover have "apart (e + 1) (length es) q (length d)" using ap ls ue1 by (auto simp: apart_def)
      ultimately show ?thesis
        using res me(1) T0 fd es
        unfolding \<open>dropWhile (\<lambda>c. c \<in> set d) s = c # cs'\<close> list.case t_def [symmetric] r_def [symmetric] Cons
        by simp
    qed
  qed
qed

lemma strtok_all_fields:
  assumes "c_str_at m p s" and "c_str_at m q d" and "apart p (length s) q (length d)"
    and "p = (if str0 = 0 then save else str0)" and "length s < n"
  shows "strtok_all (Suc n) m str0 q save = Some (fields (set d) s)"
  using assms
proof (induction n arbitrary: m p s str0 save)
  case (Suc n)
  note call = strtok_call [OF Suc.prems(1-4)]
  show ?case
  proof (cases "dropWhile (\<lambda>c. c \<in> set d) s")
    case Nil
    have "fields (set d) s = []" unfolding fields.simps [of "set d" s] Nil by simp
    moreover have "strtok_r m str0 q save = Some (0, 0, m)" using call by (simp only: Nil list.case)
    ultimately show ?thesis by simp
  next
    case (Cons c cs)
    obtain tok save1 m1 where r: "strtok_r m str0 q save = Some (tok, save1, m1)" "tok \<noteq> 0"
        "c_str m1 tok (c # takeWhile (\<lambda>c. c \<notin> set d) cs)" "c_str_at m1 q d"
        "case dropWhile (\<lambda>c. c \<notin> set d) cs of [] \<Rightarrow> save1 = 0
         | e # es \<Rightarrow> c_str_at m1 save1 es \<and> apart save1 (length es) q (length d)"
      using call by (simp only: Cons list.case) blast
    have step: "strtok_all (Suc (Suc n)) m str0 q save =
        map_option ((#) (c # takeWhile (\<lambda>c. c \<notin> set d) cs)) (strtok_all (Suc n) m1 0 q save1)"
      unfolding strtok_all.simps(2) [of "Suc n"] r(1) Option.bind.simps prod.case if_not_P [OF r(2)]
        read_str_c_str [OF r(3)]
      by (cases "strtok_all (Suc n) m1 0 q save1") (simp_all only: Option.bind.simps option.map)
    define R where "R = dropWhile (\<lambda>c. c \<notin> set d) cs"
    have "strtok_all (Suc n) m1 0 q save1 = Some (fields (set d) R)"
    proof (cases R)
      case Nil
      then have "save1 = 0" using r(5) by (simp only: R_def [symmetric] list.case)
      then show ?thesis using Nil by (simp add: strtok_r_def fields.simps [of _ "[]"])
    next
      case (Cons e es)
      have "length (e # es) \<le> length cs" using length_dropWhile_le Cons R_def by metis
      moreover have "length (c # cs) \<le> length s"
        using length_dropWhile_le \<open>dropWhile (\<lambda>c. c \<in> set d) s = c # cs\<close> by metis
      ultimately have "length es < n" using Suc.prems(5) by simp
      moreover have "c_str_at m1 save1 es" "apart save1 (length es) q (length d)"
        using r(5) by (simp_all only: R_def [symmetric] Cons list.case)
      moreover have "e \<in> set d" using Cons by (simp add: R_def dropWhile_eq_Cons_conv)
      ultimately show ?thesis
        using Suc.IH [OF _ r(4), of save1 es 0 save1] by (simp add: Cons fields_skip del: strtok_all.simps)
    qed
    moreover have "fields (set d) s = (c # takeWhile (\<lambda>c. c \<notin> set d) cs) # fields (set d) R"
      unfolding fields.simps [of "set d" s] Cons by (simp add: R_def)
    ultimately show ?thesis by (simp only: step option.map)
  qed
qed simp

subsection \<open>Short needles\<close>

lemma memcmp_eq_0: "memcmp m a b sz = 0 \<longleftrightarrow> mem_bytes m a (unat sz) = mem_bytes m b (unat sz)"
  by (simp add: memcmp_def memcmp_loop_bytes)

lemma mem_bytes_head: "mem_bytes m a n = mem_bytes m b n \<Longrightarrow> 0 < n \<Longrightarrow> m a = m b"
  by (cases n) (auto simp: mem_bytes_Suc)

lemma memmem_naive_first:
  assumes "0 < unat nl"
  shows "memmem_naive m h n nl (of_nat i) c =
     (case find (\<lambda>j. mem_bytes m (h + of_nat j) (unat nl) = mem_bytes m n (unat nl)) [i..<i + c] of
        None \<Rightarrow> 0 | Some j \<Rightarrow> h + of_nat j)"
proof (induction c arbitrary: i)
  case (Suc c)
  have up: "[i..<i + Suc c] = i # [Suc i..<Suc i + c]" by (simp add: upt_conv_Cons del: upt_Suc)
  have "m (h + of_nat i) = m n \<and> memcmp m (h + of_nat i) n nl = 0 \<longleftrightarrow>
      mem_bytes m (h + of_nat i) (unat nl) = mem_bytes m n (unat nl)"
    using mem_bytes_head [OF _ assms] memcmp_eq_0 by blast
  moreover have "(of_nat i + 1 :: u32) = of_nat (Suc i)" by simp
  ultimately show ?case
    unfolding up memmem_naive.simps find.simps using Suc.IH [of "Suc i"]
    by (simp del: of_nat_Suc upt_Suc)
qed simp

subsection \<open>Properties\<close>

text \<open>A memory that holds the given bytes from an address on and zeros elsewhere.\<close>

definition mem_of :: "u32 \<Rightarrow> bytes \<Rightarrow> cmem" where
  "mem_of p bs = (\<lambda>a. if unat (a - p) < length bs then bs ! unat (a - p) else 0)"

text \<open>
  C5. \<open>memmove\<close> copies like an assignment of the whole block, for every overlap and every
  alignment: the target holds the bytes the source held before the call, and every byte outside
  the target is unchanged. The word-wise loops and the choice of the direction are covered.
\<close>

theorem memmove_correct:
  assumes "unat dst + unat sz \<le> 2 ^ 32" and "unat src + unat sz \<le> 2 ^ 32"
  shows "mem_bytes (memmove m dst src sz) dst (unat sz) = mem_bytes m src (unat sz) \<and>
         (\<forall>a. memmove m dst src sz a = (if unat (a - dst) < unat sz then m (src + (a - dst)) else m a))"
proof -
  have "unat (of_nat i :: u32) = i" if "i < unat sz" for i
    using that unat_lt_32 [of sz] by (intro unat_eqI) simp_all
  then show ?thesis
    unfolding memmove_moved [OF assms] by (auto simp: mem_bytes_def moved_def)
qed

theorem memmove_correct_witness:
  "mem_bytes (memmove (mem_of 16 [1, 2, 3, 4, 5, 6, 7, 8, 9]) 17 16 7) 17 7 = [1, 2, 3, 4, 5, 6, 7] \<and>
   memmove (mem_of 16 [1, 2, 3, 4, 5, 6, 7, 8, 9]) 17 16 7 24 = 9"
  using memmove_correct [of 17 7 16 "mem_of 16 [1, 2, 3, 4, 5, 6, 7, 8, 9]"]
  by (simp add: mem_bytes_def mem_of_def upt_rec)

text \<open>
  C6. \<open>strcmp\<close> ends on two C strings and its sign is their order: zero exactly for equal strings,
  negative exactly when the first is lexicographically smaller by unsigned bytes.
\<close>

theorem strcmp_correct:
  assumes "c_str m a s" and "c_str m b t"
  shows "\<exists>r. strcmp m a b = Some r \<and> (r = 0 \<longleftrightarrow> s = t) \<and> (r < 0 \<longleftrightarrow> ord_class.lexordp s t)"
  using strcmp_c_str [OF assms] .

theorem strcmp_correct_witness:
  "\<exists>r. strcmp (mem_of 16 [97, 98, 0, 97, 200, 0]) 16 19 = Some r \<and> r < 0"
proof -
  let ?m = "mem_of 16 [97, 98, 0, 97, 200, 0]"
  have "c_str ?m 16 [97, 98]" "c_str ?m 19 [97, 200]" by (simp_all add: mem_of_def)
  from strcmp_correct [OF this] show ?thesis by auto
qed

text \<open>
  C7. A caller that keeps calling \<open>strtok_r\<close> until it returns NULL receives exactly the fields of
  the string, the maximal runs of bytes that are not delimiters, in order, and stops after at
  most \<open>length s + 2\<close> calls. The delimiter string is elsewhere in memory.
\<close>

theorem strtok_r_fields:
  assumes "c_str_at m p s" and "c_str_at m q d" and "apart p (length s) q (length d)"
  shows "strtok_all (length s + 2) m p q save = Some (fields (set d) s)"
proof -
  have "p = (if p = 0 then save else p)" using assms(1) by (auto simp: c_str_at_def)
  from strtok_all_fields [OF assms this, of "Suc (length s)"] show ?thesis
    by (simp del: strtok_all.simps)
qed

theorem strtok_r_fields_witness:
  "strtok_all 7 (mem_of 16 [47, 97, 98, 47, 99, 0, 47, 0]) 16 22 0 = Some [[97, 98], [99]]"
proof -
  let ?m = "mem_of 16 [47, 97, 98, 47, 99, 0, 47, 0]"
  have "c_str_at ?m 16 [47, 97, 98, 47, 99]" "c_str_at ?m 22 [47]"
    by (simp_all add: mem_of_def c_str_at_def)
  moreover have "apart 16 (length [47, 97, 98, 47, 99 :: u8]) 22 (length [47 :: u8])"
    by (simp add: apart_def)
  ultimately have "strtok_all (length [47, 97, 98, 47, 99 :: u8] + 2) ?m 16 22 0 =
      Some (fields (set [47]) [47, 97, 98, 47, 99])"
    by (rule strtok_r_fields)
  moreover have "length [47, 97, 98, 47, 99 :: u8] + 2 = 7" by simp
  moreover have "fields (set [47]) [47, 97, 98, 47, 99] = [[97, 98], [99]]"
    by (simp add: fields.simps)
  ultimately show ?thesis by (simp only:)
qed




end
