(* ===== verification/Libtime.thy ===== *)
theory Libtime
  imports Prelude
begin

section \<open>Calendar arithmetic (libtime)\<close>

text \<open>
  Conversion between civil dates and day numbers or millisecond timestamps counted from
  2001-01-01. Fields of a date keep their C widths, 64-bit and 32-bit signed intermediate
  results are integers: the theorems cover the years that fit the 16-bit field, where all of
  them are far from overflow. The day number is shown to be the one of the proleptic Gregorian
  calendar, defined independently by its rule for the next day.
\<close>

record libtime_datetime =
  dt_year :: u16
  dt_month :: u8
  dt_day :: u8
  dt_hour :: u8
  dt_minute :: u8
  dt_second :: u8
  dt_millis :: u16

definition libtime_days_since_epoch :: "u16 \<Rightarrow> u8 \<Rightarrow> u8 \<Rightarrow> int" where
  "libtime_days_since_epoch year month day =
     (let (year, month) = (if month \<le> 2 then (year - 1, month + 12) else (year, month));
          era = cdiv (uint year) 400;
          yoe = uint year - era * 400;
          doy = cdiv (153 * (uint month - 3) + 2) 5 + uint day - 1;
          doe = yoe * 365 + cdiv yoe 4 - cdiv yoe 100 + cdiv yoe 400 + doy
      in era * 146097 + doe - 730791)"

definition libtime_datetime_to_timestamp :: "libtime_datetime option \<Rightarrow> int" where
  "libtime_datetime_to_timestamp dt =
     (case dt of
        None \<Rightarrow> 0
      | Some d \<Rightarrow>
          let res = libtime_days_since_epoch (dt_year d) (dt_month d) (dt_day d);
              res = res * 24 + uint (dt_hour d);
              res = res * 60 + uint (dt_minute d);
              res = res * 60 + uint (dt_second d);
              res = res * 1000 + uint (dt_millis d)
          in res)"

definition libtime_timestamp_to_datetime :: "int \<Rightarrow> libtime_datetime" where
  "libtime_timestamp_to_datetime ts =
     (let ms = cmod ts (24 * 60 * 60 * 1000);
          ms = (if ms < 0 then ms + 24 * 60 * 60 * 1000 else ms);
          ts = cdiv (ts - ms) (24 * 60 * 60 * 1000);
          millis = cmod ms 1000; ms = cdiv ms 1000;
          second = cmod ms 60; ms = cdiv ms 60;
          minute = cmod ms 60; ms = cdiv ms 60;
          hour = ms;
          ts = ts + 730791;
          era = cdiv (if ts \<ge> 0 then ts else ts - 146096) 146097;
          doe = ts - era * 146097;
          yoe = cdiv (doe - cdiv doe 1460 + cdiv doe 36524 - cdiv doe 146096) 365;
          y = yoe + era * 400;
          doy = doe - (365 * yoe + cdiv yoe 4 - cdiv yoe 100);
          mp = cdiv (5 * doy + 2) 153;
          d = doy - cdiv (153 * mp + 2) 5 + 1;
          m = (if mp < 10 then mp + 3 else mp - 9)
      in \<lparr>dt_year = of_int (y + (if m \<le> 2 then 1 else 0)), dt_month = of_int m, dt_day = of_int d,
          dt_hour = of_int hour, dt_minute = of_int minute, dt_second = of_int second,
          dt_millis = of_int millis\<rparr>)"

definition libtime_timestamp_to_unix :: "int \<Rightarrow> int" where
  "libtime_timestamp_to_unix timestamp = cdiv timestamp 1000 + 978307200"

definition libtime_unix_to_timestamp :: "int \<Rightarrow> int" where
  "libtime_unix_to_timestamp unix_ts = (unix_ts - 978307200) * 1000"

definition libtime_weekday_from_days :: "u16 \<Rightarrow> u8 \<Rightarrow> u8 \<Rightarrow> u8" where
  "libtime_weekday_from_days year month day =
     (let z = libtime_days_since_epoch year month day
      in of_int (if z \<ge> -1 then cmod (z + 1) 7 else cmod (z + 2) 7 + 6))"

subsection \<open>The Gregorian calendar\<close>

definition leap :: "int \<Rightarrow> bool" where
  "leap y \<longleftrightarrow> 4 dvd y \<and> (\<not> 100 dvd y \<or> 400 dvd y)"

definition month_days :: "int \<Rightarrow> int \<Rightarrow> int" where
  "month_days y m = (if m = 2 then (if leap y then 29 else 28)
     else if m \<in> {4, 6, 9, 11} then 30 else 31)"

definition valid_date :: "int \<Rightarrow> int \<Rightarrow> int \<Rightarrow> bool" where
  "valid_date y m d \<longleftrightarrow> 1 \<le> m \<and> m \<le> 12 \<and> 1 \<le> d \<and> d \<le> month_days y m"

fun next_day :: "int \<times> int \<times> int \<Rightarrow> int \<times> int \<times> int" where
  "next_day (y, m, d) =
     (if d < month_days y m then (y, m, d + 1)
      else if m < 12 then (y, m + 1, 1) else (y + 1, 1, 1))"

text \<open>The number of days before the first of March of a year, and of the days since then.\<close>

definition march :: "int \<Rightarrow> int" where
  "march y = 365 * y + y div 4 - y div 100 + y div 400"

definition since_march :: "int \<Rightarrow> int \<Rightarrow> int" where
  "since_march m d = (153 * (if m \<le> 2 then m + 9 else m - 3) + 2) div 5 + d - 1"

definition civil :: "int \<Rightarrow> int \<Rightarrow> int \<Rightarrow> int" where
  "civil y m d = march (if m \<le> 2 then y - 1 else y) + since_march m d - 730791"

lemma div_step: "0 < k \<Longrightarrow> (y::int) div k - (y - 1) div k = (if k dvd y then 1 else 0)"
proof -
  assume k: "0 < k"
  define q r where "q = y div k" and "r = y mod k"
  have y: "y = k * q + r" "0 \<le> r" "r < k" using k by (simp_all add: q_def r_def)
  show ?thesis
  proof (cases "r = 0")
    case True
    then have "y - 1 = (k - 1) + k * (q - 1)" using y(1) by (simp add: algebra_simps)
    then have "(y - 1) div k = q - 1" using k by (simp only: div_mult_self2) simp
    moreover have "k dvd y" using True r_def by auto
    ultimately show ?thesis by (simp add: q_def)
  next
    case False
    then have "y - 1 = (r - 1) + k * q" using y(1) by (simp add: algebra_simps)
    moreover have "(r - 1) div k = 0" using y False by (intro div_pos_pos_trivial) auto
    ultimately have "(y - 1) div k = q" using k by (simp only: div_mult_self2)
    moreover have "\<not> k dvd y" using False r_def by (simp add: dvd_eq_mod_eq_0)
    ultimately show ?thesis by (simp add: q_def)
  qed
qed

lemma march_diff:
  "a - a' = i \<Longrightarrow> b - b' = j \<Longrightarrow> c - c' = k \<Longrightarrow>
     (365 * y + a - b + c) - (365 * (y - 1) + a' - b' + c') = 365 + i - j + (k::int)"
  by simp

lemma leap_count:
  "(r \<Longrightarrow> q) \<Longrightarrow> (q \<Longrightarrow> p) \<Longrightarrow>
     365 + (if p then 1 else 0) - (if q then 1 else 0) + (if r then 1 else 0) =
     (if p \<and> (\<not> q \<or> r) then 366 else (365::int))"
  by (cases p; cases q; cases r) simp_all

lemma march_step: "march y - march (y - 1) = (if leap y then 366 else 365)"
proof -
  have "march y - march (y - 1) = 365 + (if 4 dvd y then 1 else 0) - (if 100 dvd y then 1 else 0) +
      (if 400 dvd y then 1 else 0)"
    unfolding march_def by (rule march_diff; rule div_step; simp)
  also have "\<dots> = (if leap y then 366 else 365)"
    unfolding leap_def by (rule leap_count; erule dvd_trans [rotated]; simp)
  finally show ?thesis .
qed

lemma div_shift: "0 < (k::int) \<Longrightarrow> c = k * q \<Longrightarrow> (a + c) div k = a div k + q"
  by simp

lemma march_shift:
  "a = x + 100 * e \<Longrightarrow> b = z + 4 * e \<Longrightarrow> c = w + e \<Longrightarrow>
     365 * (y + 400 * e) + a - b + c = 146097 * e + (365 * y + x - z + (w::int))"
  by simp

lemma march_era: "march (yoe + 400 * era) = 146097 * era + march yoe"
proof -
  have "(yoe + 400 * era) div 4 = yoe div 4 + 100 * era"
    "(yoe + 400 * era) div 100 = yoe div 100 + 4 * era"
    "(yoe + 400 * era) div 400 = yoe div 400 + era" by (rule div_shift; simp)+
  then show ?thesis unfolding march_def by (rule march_shift)
qed

lemma march_era1: "march (yoe + 400 * era + 1) = 146097 * era + march (yoe + 1)"
proof -
  have "yoe + 400 * era + 1 = yoe + 1 + 400 * era" by simp
  then show ?thesis using march_era [of "yoe + 1" era] by (simp only:)
qed

lemma month_cases:
  assumes "1 \<le> (m::int)" and "m \<le> 12"
  shows "m = 1 \<or> m = 2 \<or> m = 3 \<or> m = 4 \<or> m = 5 \<or> m = 6 \<or> m = 7 \<or> m = 8 \<or> m = 9 \<or> m = 10 \<or> m = 11 \<or> m = 12"
proof (cases "m \<le> 6")
  case True
  then have "m = 1 \<or> m = 2 \<or> m = 3 \<or> m = 4 \<or> m = 5 \<or> m = 6" using assms(1) by linarith
  then show ?thesis by blast
next
  case False
  then have "m = 7 \<or> m = 8 \<or> m = 9 \<or> m = 10 \<or> m = 11 \<or> m = 12" using assms(2) by linarith
  then show ?thesis by blast
qed

text \<open>The closed form counts days: it is 0 at the epoch and grows by one from day to day.\<close>

lemma civil_epoch: "civil 2001 1 1 = 0"
  by (simp add: civil_def march_def since_march_def)

lemma civil_next:
  assumes "valid_date y m d"
  shows "case next_day (y, m, d) of (y', m', d') \<Rightarrow> valid_date y' m' d' \<and> civil y' m' d' = civil y m d + 1"
proof -
  have m: "1 \<le> m" "m \<le> 12" and d: "1 \<le> d" "d \<le> month_days y m" using assms by (auto simp: valid_date_def)
  show ?thesis
  proof (cases "d < month_days y m")
    case True
    then show ?thesis using m d by (simp add: valid_date_def civil_def since_march_def)
  next
    case False
    then have "d = month_days y m" using d by simp
    then show ?thesis
    proof (cases "m = 2")
      case True
      then show ?thesis
        using \<open>d = month_days y m\<close> march_step [of y]
        by (cases "leap y") (simp_all add: valid_date_def civil_def since_march_def month_days_def)
    next
      case False
      then show ?thesis
        using month_cases [OF m] unfolding \<open>d = month_days y m\<close>
        by (elim disjE; simp add: valid_date_def civil_def since_march_def month_days_def)
    qed
  qed
qed

lemma days_civil:
  assumes "1 \<le> uint y" and "1 \<le> uint m" and "uint m \<le> 12"
  shows "libtime_days_since_epoch y m d = civil (uint y) (uint m) (uint d)"
proof -
  define y' m' where "y' = (if m \<le> 2 then y - 1 else y)" and "m' = (if m \<le> 2 then m + 12 else m)"
  have le: "m \<le> 2 \<longleftrightarrow> uint m \<le> 2" by (simp add: word_le_def)
  have y': "uint y' = (if uint m \<le> 2 then uint y - 1 else uint y)"
    using assms(1) uint_sub_lem [of 1 y] unfolding y'_def le by simp
  have m': "uint m' = (if uint m \<le> 2 then uint m + 12 else uint m)"
    using assms(3) uint_add_lem [of m 12] unfolding m'_def le by simp
  have nn: "0 \<le> uint y'" by simp
  define era yoe where "era = uint y' div 400" and "yoe = uint y' - era * 400"
  have yoe: "0 \<le> yoe" "yoe < 400" "uint y' = yoe + 400 * era"
    by (simp_all add: yoe_def era_def minus_div_mult_eq_mod)
  have "libtime_days_since_epoch y m d =
      era * 146097 + (yoe * 365 + yoe div 4 - yoe div 100 + yoe div 400 +
        ((153 * (uint m' - 3) + 2) div 5 + uint d - 1)) - 730791"
  proof -
    have p: "(if m \<le> 2 then (y - 1, m + 12) else (y, m)) = (y', m')" by (simp add: y'_def m'_def)
    have "cdiv (uint y') 400 = era" "cdiv (153 * (uint m' - 3) + 2) 5 = (153 * (uint m' - 3) + 2) div 5"
      "cdiv yoe 4 = yoe div 4" "cdiv yoe 100 = yoe div 100" "cdiv yoe 400 = yoe div 400"
      using yoe(1) m' assms(2,3) by (simp_all add: era_def)
    then show ?thesis
      unfolding libtime_days_since_epoch_def Let_def p prod.case by (simp only: yoe_def [symmetric])
  qed
  also have "\<dots> = march (uint y') + since_march (uint m) (uint d) - 730791"
  proof -
    have "153 * (uint m' - 3) + 2 = 153 * (if uint m \<le> 2 then uint m + 9 else uint m - 3) + 2"
      using m' by simp
    then have "(153 * (uint m' - 3) + 2) div 5 + uint d - 1 = since_march (uint m) (uint d)"
      unfolding since_march_def by (simp only:)
    moreover have "march (uint y') = era * 146097 + (yoe * 365 + yoe div 4 - yoe div 100 + yoe div 400)"
      unfolding yoe(3) march_era march_def [of yoe] by (simp only: mult.commute)
    ultimately show ?thesis by (simp only: add.assoc)
  qed
  finally show ?thesis using y' by (simp add: civil_def)
qed

subsection \<open>From day numbers to dates\<close>

text \<open>The year-of-era formula, split into a monotone part and its correction on the last day.\<close>

definition yoe_num :: "int \<Rightarrow> int" where
  "yoe_num doe = doe - doe div 1460 + doe div 36524"

definition yoe_of :: "int \<Rightarrow> int" where
  "yoe_of doe = (yoe_num doe - doe div 146096) div 365"

lemma div_growth:
  assumes "0 < (k::int)" and "a \<le> b"
  shows "b div k - a div k \<le> b - a"
proof -
  have "b \<le> a + k * (b - a)" using assms mult_right_mono [of 1 k "b - a"] by simp
  then have "b div k \<le> (a + k * (b - a)) div k" using assms(1) by (rule zdiv_mono1)
  also have "\<dots> = a div k + (b - a)" using assms(1) by (intro div_shift) simp_all
  finally show ?thesis by simp
qed

lemma yoe_num_mono:
  assumes "a \<le> b"
  shows "yoe_num a \<le> yoe_num b"
proof -
  have "a - a div 1460 \<le> b - b div 1460" using div_growth [OF _ assms, of 1460] by simp
  moreover have "a div 36524 \<le> b div 36524" using assms by (rule zdiv_mono1) simp
  ultimately show ?thesis unfolding yoe_num_def by (rule add_mono)
qed

lemma yoe_check:
  "list_all (\<lambda>y. 0 \<le> march y \<and> 365 * y \<le> yoe_num (march y) \<and>
     yoe_num (min (march (y + 1) - 1) 146095) < 365 * (y + 1) \<and>
     march (y + 1) \<le> 146097 \<and> (y = 399 \<or> march (y + 1) \<le> 146096)) [0..399]"
  by code_simp

lemma yoe_of_march:
  assumes y: "0 \<le> y" "y < 400" and doe: "march y \<le> doe" "doe < march (y + 1)"
  shows "yoe_of doe = y"
proof -
  have c: "0 \<le> march y" "365 * y \<le> yoe_num (march y)"
    "yoe_num (min (march (y + 1) - 1) 146095) < 365 * (y + 1)"
    "march (y + 1) \<le> 146097" "y = 399 \<or> march (y + 1) \<le> 146096"
    using yoe_check y by (simp_all add: list_all_iff)
  show ?thesis
  proof (cases "doe = 146096")
    case True
    then have "y = 399" using c(5) doe(2) by linarith
    moreover have "yoe_of 146096 = 399" by code_simp
    ultimately show ?thesis using True by simp
  next
    case False
    then have le: "doe \<le> min (march (y + 1) - 1) 146095" using doe(2) c(4) by linarith
    have "0 \<le> doe" "doe < 146096" using c(1) doe(1) le by linarith+
    then have "doe div 146096 = 0" by (intro div_pos_pos_trivial)
    moreover have "365 * y \<le> yoe_num doe" "yoe_num doe < 365 * (y + 1)"
      using yoe_num_mono [OF doe(1)] yoe_num_mono [OF le] c(2,3) by linarith+
    ultimately show ?thesis
      unfolding yoe_of_def using int_div_pos_eq [of "yoe_num doe" 365 y "yoe_num doe - 365 * y"] by simp
  qed
qed

text \<open>Every day number lies in exactly one year that starts in March.\<close>

lemma march_exists:
  assumes "0 \<le> doe" and "doe < march (int n)"
  shows "\<exists>y. 0 \<le> y \<and> y < int n \<and> march y \<le> doe \<and> doe < march (y + 1)"
  using assms(2)
proof (induction n)
  case 0
  then show ?case using assms(1) by (simp add: march_def)
next
  case (Suc n)
  show ?case
  proof (cases "doe < march (int n)")
    case True
    then show ?thesis using Suc.IH by force
  next
    case False
    then show ?thesis using Suc.prems by (intro exI [of _ "int n"]) (simp add: add.commute)
  qed
qed

text \<open>The month and day formulas, on the 366 days that follow the first of March.\<close>

definition month_of :: "int \<Rightarrow> int" where
  "month_of doy = (let mp = (5 * doy + 2) div 153 in if mp < 10 then mp + 3 else mp - 9)"

definition day_of :: "int \<Rightarrow> int" where
  "day_of doy = (let mp = (5 * doy + 2) div 153 in doy - (153 * mp + 2) div 5 + 1)"

lemma month_check:
  "list_all (\<lambda>doy. let m = month_of doy; d = day_of doy in
     1 \<le> m \<and> m \<le> 12 \<and> 1 \<le> d \<and> d \<le> month_days (if doy = 365 then 4 else 1) m \<and> since_march m d = doy) [0..365]"
  by code_simp

lemma date_check:
  "list_all (\<lambda>m. list_all (\<lambda>d. d \<le> month_days 4 m \<longrightarrow>
       0 \<le> since_march m d \<and> since_march m d \<le> (if m = 2 \<and> d = 29 then 365 else 364) \<and>
       month_of (since_march m d) = m \<and> day_of (since_march m d) = d) [1..31]) [1..12]"
  by code_simp

definition civil_from_days :: "int \<Rightarrow> int \<times> int \<times> int" where
  "civil_from_days n =
     (let era = n div 146097; doe = n mod 146097; yoe = yoe_of doe;
          doy = doe - (365 * yoe + yoe div 4 - yoe div 100); m = month_of doy
      in (yoe + era * 400 + (if m \<le> 2 then 1 else 0), m, day_of doy))"

lemma era_march:
  assumes "0 \<le> yoe" and "yoe < 400"
  shows "365 * yoe + yoe div 4 - yoe div 100 = march yoe"
  using assms by (simp add: march_def div_pos_pos_trivial)

lemma civil_from_days_march:
  assumes "march y \<le> n" and "n < march (y + 1)"
  shows "civil_from_days n =
    (y + (if month_of (n - march y) \<le> 2 then 1 else 0), month_of (n - march y), day_of (n - march y))"
proof -
  define era yoe where "era = y div 400" and "yoe = y mod 400"
  have y: "y = yoe + 400 * era" "0 \<le> yoe" "yoe < 400" by (simp_all add: era_def yoe_def)
  have m: "march y = 146097 * era + march yoe" "march (y + 1) = 146097 * era + march (yoe + 1)"
    unfolding y(1) by (rule march_era, rule march_era1)
  have c: "0 \<le> march yoe" "march (yoe + 1) \<le> 146097" using yoe_check y(2,3) by (simp_all add: list_all_iff)
  define doe where "doe = n - 146097 * era"
  have doe: "march yoe \<le> doe" "doe < march (yoe + 1)" "0 \<le> doe" "doe < 146097"
    using assms m c by (simp_all add: doe_def)
  have n: "n div 146097 = era" "n mod 146097 = doe"
    using int_div_pos_eq [of n 146097 era doe] int_mod_pos_eq [of n 146097 era doe] doe by (simp_all add: doe_def)
  have "doe - march yoe = n - march y" using m(1) by (simp add: doe_def)
  then show ?thesis
    unfolding civil_from_days_def Let_def n yoe_of_march [OF y(2,3) doe(1,2)] era_march [OF y(2,3)]
    using y(1) by simp
qed

lemma civil_from_days_correct:
  "case civil_from_days n of (y, m, d) \<Rightarrow> valid_date y m d \<and> civil y m d = n - 730791"
proof -
  define era doe where "era = n div 146097" and "doe = n mod 146097"
  have doe: "0 \<le> doe" "doe < march (int 400)" "n = doe + 146097 * era"
    by (simp_all add: doe_def era_def march_def)
  obtain yoe where yoe: "march yoe \<le> doe" "doe < march (yoe + 1)" using march_exists [OF doe(1,2)] by blast
  define y where "y = yoe + 400 * era"
  have y: "march y \<le> n" "n < march (y + 1)"
    unfolding y_def march_era march_era1 using yoe doe(3) by simp_all
  define doy where "doy = n - march y"
  have step: "march (y + 1) - march y = (if leap (y + 1) then 366 else 365)"
    using march_step [of "y + 1"] by simp
  have doy: "0 \<le> doy" "doy \<le> 365" "doy = 365 \<longrightarrow> leap (y + 1)"
    using y step by (auto simp: doy_def split: if_splits)
  have c: "1 \<le> month_of doy" "month_of doy \<le> 12" "1 \<le> day_of doy"
    "day_of doy \<le> month_days (if doy = 365 then 4 else 1) (month_of doy)"
    "since_march (month_of doy) (day_of doy) = doy"
    using month_check doy(1,2) by (simp_all add: list_all_iff Let_def)
  let ?Y = "y + (if month_of doy \<le> 2 then 1 else 0)"
  have "month_days (if doy = 365 then 4 else 1) (month_of doy) \<le> month_days ?Y (month_of doy)"
    using doy(3) by (auto simp: month_days_def leap_def)
  then have "valid_date ?Y (month_of doy) (day_of doy)" using c by (simp add: valid_date_def)
  moreover have "civil ?Y (month_of doy) (day_of doy) = n - 730791"
    using c(5) by (simp add: civil_def doy_def)
  ultimately show ?thesis
    using civil_from_days_march [OF y] by (simp add: doy_def)
qed

lemma civil_from_days_unique:
  assumes "valid_date y m d"
  shows "civil_from_days (civil y m d + 730791) = (y, m, d)"
proof -
  define y' where "y' = (if m \<le> 2 then y - 1 else y)"
  define doy where "doy = since_march m d"
  have n: "civil y m d + 730791 = march y' + doy" by (simp add: civil_def y'_def doy_def)
  have v: "1 \<le> m" "m \<le> 12" "1 \<le> d" "d \<le> month_days y m" using assms by (simp_all add: valid_date_def)
  have d4: "d \<le> month_days 4 m" "d \<le> 31"
    using v(4) by (auto simp: month_days_def leap_def split: if_splits)
  have c: "0 \<le> doy" "doy \<le> (if m = 2 \<and> d = 29 then 365 else 364)" "month_of doy = m" "day_of doy = d"
    using date_check v d4 by (simp_all add: list_all_iff doy_def)
  have "march (y' + 1) - march y' = (if leap (y' + 1) then 366 else 365)"
    using march_step [of "y' + 1"] by simp
  moreover have "m = 2 \<and> d = 29 \<longrightarrow> leap (y' + 1)"
    using v(4) by (auto simp: y'_def month_days_def split: if_splits)
  ultimately have "march y' \<le> march y' + doy" "march y' + doy < march (y' + 1)"
    using c(1,2) by (auto split: if_splits)
  from civil_from_days_march [OF this] show ?thesis
    unfolding n using c(3,4) by (simp add: y'_def)
qed

subsection \<open>Timestamps\<close>

lemma floor_cdiv:
  assumes "0 < k"
  shows "cdiv (if n \<ge> 0 then n else n - (k - 1)) k = n div k"
proof (cases "n \<ge> 0")
  case False
  then have "cdiv (n - (k - 1)) k = - ((k - 1 - n) div k)" using assms by (simp add: cdiv_neg)
  also have "(k - 1 - n) div k = - (n div k)"
  proof (rule int_div_pos_eq)
    show "k - 1 - n = k * (- (n div k)) + (k - 1 - n mod k)"
      using mult_div_mod_eq [of k n] by (simp add: algebra_simps)
    show "0 \<le> k - 1 - n mod k" using pos_mod_bound [OF assms, of n] by simp
    show "k - 1 - n mod k < k" using pos_mod_sign [OF assms, of n] by simp
  qed
  finally show ?thesis using False by simp
qed (use assms in simp)

lemma floor_cmod:
  assumes "0 < k"
  shows "(let r = cmod n k in if r < 0 then r + k else r) = n mod k"
proof (cases "n \<ge> 0")
  case True
  then show ?thesis using assms pos_mod_sign [OF assms, of n] by (simp add: Let_def not_less)
next
  case False
  have "(- n) mod k = (if n mod k = 0 then 0 else k - n mod k)" by (rule zmod_zminus1_eq_if)
  then show ?thesis using False assms pos_mod_bound [OF assms, of n] pos_mod_sign [OF assms, of n]
    by (auto simp: Let_def cmod_neg)
qed

lemma cdiv_exact: "0 < k \<Longrightarrow> cdiv (q * k) k = q"
  by (simp add: cdiv_def abs_mult sgn_mult sgn_mult_abs)

text \<open>The day and month computation of the code, with its truncating divisions.\<close>

definition code_date :: "int \<Rightarrow> int \<times> int \<times> int" where
  "code_date ts =
     (let era = cdiv (if ts \<ge> 0 then ts else ts - 146096) 146097;
          doe = ts - era * 146097;
          yoe = cdiv (doe - cdiv doe 1460 + cdiv doe 36524 - cdiv doe 146096) 365;
          y = yoe + era * 400;
          doy = doe - (365 * yoe + cdiv yoe 4 - cdiv yoe 100);
          mp = cdiv (5 * doy + 2) 153;
          d = doy - cdiv (153 * mp + 2) 5 + 1;
          m = (if mp < 10 then mp + 3 else mp - 9)
      in (y + (if m \<le> 2 then 1 else 0), m, d))"

lemma code_date_civil: "code_date n = civil_from_days n"
proof -
  define era doe where "era = n div 146097" and "doe = n mod 146097"
  have doe: "0 \<le> doe" "doe < march (int 400)" "n - era * 146097 = doe"
    by (simp_all add: doe_def era_def march_def minus_div_mult_eq_mod)
  obtain yoe where yoe: "0 \<le> yoe" "yoe < 400" "march yoe \<le> doe" "doe < march (yoe + 1)"
    using march_exists [OF doe(1,2)] by auto
  have era: "cdiv (if n \<ge> 0 then n else n - 146096) 146097 = era"
    using floor_cdiv [of 146097 n] by (cases "n \<ge> 0") (simp_all add: era_def)
  have q: "cdiv doe 1460 = doe div 1460" "cdiv doe 36524 = doe div 36524" "cdiv doe 146096 = doe div 146096"
    "cdiv yoe 4 = yoe div 4" "cdiv yoe 100 = yoe div 100"
    using doe(1) yoe(1) by simp_all
  have y: "yoe_of doe = yoe" by (rule yoe_of_march [OF yoe])
  have nn: "0 \<le> yoe_num doe - doe div 146096"
  proof (rule ccontr)
    assume "\<not> 0 \<le> yoe_num doe - doe div 146096"
    then have "(yoe_num doe - doe div 146096) div 365 < 0" by (intro div_neg_pos_less0) simp_all
    then show False using y yoe(1) by (simp add: yoe_of_def)
  qed
  have yo: "cdiv (doe - doe div 1460 + doe div 36524 - doe div 146096) 365 = yoe"
    using nn y cdiv_nonneg [OF nn, of 365] unfolding yoe_of_def yoe_num_def by simp
  define doy where "doy = doe - march yoe"
  have doy: "0 \<le> doy" using yoe(3) by (simp add: doy_def)
  have mp: "cdiv (5 * doy + 2) 153 = (5 * doy + 2) div 153" "0 \<le> (5 * doy + 2) div 153"
    using doy by simp_all
  have m5: "cdiv (153 * ((5 * doy + 2) div 153) + 2) 5 = (153 * ((5 * doy + 2) div 153) + 2) div 5"
    using mp(2) by (intro cdiv_nonneg) simp_all
  show ?thesis
    unfolding code_date_def civil_from_days_def Let_def era doe(3) q yo
      era_def [symmetric] doe_def [symmetric] y q era_march [OF yoe(1,2)] doy_def [symmetric]
      mp(1) m5 month_of_def day_of_def
    by (rule refl)
qed

text \<open>The conversion in terms of the day number and the milliseconds of the day.\<close>

lemma to_datetime_split:
  assumes ts: "ts = day * 86400000 + ms" and ms: "0 \<le> ms" "ms < 86400000"
    and c: "civil_from_days (day + 730791) = (y, m, d)"
  shows "libtime_timestamp_to_datetime ts =
    \<lparr>dt_year = of_int y, dt_month = of_int m, dt_day = of_int d,
     dt_hour = of_int (ms div 1000 div 60 div 60), dt_minute = of_int (ms div 1000 div 60 mod 60),
     dt_second = of_int (ms div 1000 mod 60), dt_millis = of_int (ms mod 1000)\<rparr>"
proof -
  have k: "24 * 60 * 60 * 1000 = (86400000::int)" by simp
  have md: "ts mod 86400000 = ms" using int_mod_pos_eq [of ts 86400000 day ms] ts ms by simp
  have a: "(if cmod ts 86400000 < 0 then cmod ts 86400000 + 86400000 else cmod ts 86400000) = ms"
    using floor_cmod [of 86400000 ts] md by (simp add: Let_def)
  have "ts - ms = day * 86400000" using ts by simp
  then have b: "cdiv (ts - ms) 86400000 = day" using cdiv_exact [of 86400000 day] by (simp only:)
  have q: "cmod ms 1000 = ms mod 1000" "cdiv ms 1000 = ms div 1000"
    "cmod (ms div 1000) 60 = ms div 1000 mod 60" "cdiv (ms div 1000) 60 = ms div 1000 div 60"
    "cmod (ms div 1000 div 60) 60 = ms div 1000 div 60 mod 60"
    "cdiv (ms div 1000 div 60) 60 = ms div 1000 div 60 div 60"
    using ms(1) by (simp_all add: pos_imp_zdiv_nonneg_iff)
  have cd: "code_date (day + 730791) = (y, m, d)" using c by (simp only: code_date_civil)
  show ?thesis
    using cd unfolding code_date_def libtime_timestamp_to_datetime_def Let_def k a b q prod.inject
    by (elim conjE) (simp only:)
qed

definition valid_datetime :: "libtime_datetime \<Rightarrow> bool" where
  "valid_datetime dt \<longleftrightarrow> 1 \<le> uint (dt_year dt) \<and>
     valid_date (uint (dt_year dt)) (uint (dt_month dt)) (uint (dt_day dt)) \<and>
     uint (dt_hour dt) < 24 \<and> uint (dt_minute dt) < 60 \<and> uint (dt_second dt) < 60 \<and>
     uint (dt_millis dt) < 1000"

lemma to_timestamp_split:
  assumes "valid_datetime dt"
  shows "libtime_datetime_to_timestamp (Some dt) =
    civil (uint (dt_year dt)) (uint (dt_month dt)) (uint (dt_day dt)) * 86400000 +
    (((uint (dt_hour dt) * 60 + uint (dt_minute dt)) * 60 + uint (dt_second dt)) * 1000 + uint (dt_millis dt))"
proof -
  have "libtime_days_since_epoch (dt_year dt) (dt_month dt) (dt_day dt) =
      civil (uint (dt_year dt)) (uint (dt_month dt)) (uint (dt_day dt))"
    using assms by (intro days_civil) (simp_all add: valid_datetime_def valid_date_def)
  then show ?thesis by (simp add: libtime_datetime_to_timestamp_def)
qed

lemma digits:
  assumes "0 \<le> r" and "r < (k::int)"
  shows "(q * k + r) div k = q" and "(q * k + r) mod k = r"
  using assms int_div_pos_eq [of "q * k + r" k q r] int_mod_pos_eq [of "q * k + r" k q r]
  by (simp_all add: mult.commute)

lemma mixed_radix:
  fixes h m s l :: int
  assumes "0 \<le> h" "h < 24" "0 \<le> m" "m < 60" "0 \<le> s" "s < 60" "0 \<le> l" "l < 1000"
    and ms: "ms = ((h * 60 + m) * 60 + s) * 1000 + l"
  shows "0 \<le> ms" "ms < 86400000" "ms mod 1000 = l" "ms div 1000 mod 60 = s"
    "ms div 1000 div 60 mod 60 = m" "ms div 1000 div 60 div 60 = h"
proof -
  show "0 \<le> ms" "ms < 86400000" using assms by simp_all
  have 1: "ms div 1000 = (h * 60 + m) * 60 + s" "ms mod 1000 = l"
    unfolding ms by (rule digits; fact)+
  have 2: "((h * 60 + m) * 60 + s) div 60 = h * 60 + m" "((h * 60 + m) * 60 + s) mod 60 = s"
    by (rule digits; fact)+
  have 3: "(h * 60 + m) div 60 = h" "(h * 60 + m) mod 60 = m"
    by (rule digits; fact)+
  show "ms mod 1000 = l" "ms div 1000 mod 60 = s" "ms div 1000 div 60 mod 60 = m"
    "ms div 1000 div 60 div 60 = h"
    unfolding 1 2 3 by (rule refl)+
qed

lemma datetime_roundtrip:
  assumes "valid_datetime dt"
  shows "libtime_timestamp_to_datetime (libtime_datetime_to_timestamp (Some dt)) = dt"
proof -
  let ?c = "civil (uint (dt_year dt)) (uint (dt_month dt)) (uint (dt_day dt))"
  define ms where "ms = ((uint (dt_hour dt) * 60 + uint (dt_minute dt)) * 60 + uint (dt_second dt)) * 1000
    + uint (dt_millis dt)"
  have v: "uint (dt_hour dt) < 24" "uint (dt_minute dt) < 60" "uint (dt_second dt) < 60"
    "uint (dt_millis dt) < 1000" using assms by (simp_all add: valid_datetime_def)
  note r = mixed_radix [OF _ v(1) _ v(2) _ v(3) _ v(4) ms_def, simplified]
  have "civil_from_days (?c + 730791) = (uint (dt_year dt), uint (dt_month dt), uint (dt_day dt))"
    using assms by (intro civil_from_days_unique) (simp add: valid_datetime_def)
  from to_datetime_split [OF _ r(1,2) this] to_timestamp_split [OF assms] show ?thesis
    unfolding ms_def [symmetric] r(3-) by simp
qed

lemma march_mono:
  assumes "a \<le> b"
  shows "march a \<le> march b"
proof -
  have "march a \<le> march (a + int n)" for n
  proof (induction n)
    case (Suc n)
    have "march (a + int n) \<le> march (a + int n + 1)"
      using march_step [of "a + int n + 1"] by (simp split: if_splits)
    then show ?case using Suc by (simp add: add.assoc add.commute [of 1])
  qed simp
  from this [of "nat (b - a)"] show ?thesis using assms by simp
qed

lemma year_check:
  "list_all (\<lambda>m. list_all (\<lambda>d. d \<le> month_days 4 m \<longrightarrow>
       (if m \<le> 2 then 306 \<le> since_march m d \<and> (m = 2 \<and> d = 29 \<or> since_march m d < 365) \<and> since_march m d \<le> 365
        else 0 \<le> since_march m d \<and> since_march m d < 306)) [1..31]) [1..12]"
  by code_simp

text \<open>The day numbers of a year lie between those of its new year's day and the next one.\<close>

lemma civil_year:
  assumes "valid_date y m d"
  shows "march (y - 1) + 306 \<le> civil y m d + 730791" and "civil y m d + 730791 < march y + 306"
proof -
  have v: "1 \<le> m" "m \<le> 12" "1 \<le> d" "d \<le> month_days y m" using assms by (simp_all add: valid_date_def)
  have d4: "d \<le> month_days 4 m" "d \<le> 31" "m = 2 \<and> d = 29 \<longrightarrow> leap y"
    using v(4) by (auto simp: month_days_def leap_def split: if_splits)
  have c: "if m \<le> 2 then 306 \<le> since_march m d \<and> (m = 2 \<and> d = 29 \<or> since_march m d < 365) \<and> since_march m d \<le> 365
      else 0 \<le> since_march m d \<and> since_march m d < 306"
    using year_check v(1-3) d4(1,2) by (simp add: list_all_iff)
  have n: "civil y m d + 730791 = (if m \<le> 2 then march (y - 1) else march y) + since_march m d"
    by (simp add: civil_def)
  show "march (y - 1) + 306 \<le> civil y m d + 730791" "civil y m d + 730791 < march y + 306"
    unfolding n using c d4(3) march_step [of y] by (auto split: if_splits)
qed

lemma civil_year_range:
  assumes "valid_date y m d" and "march (a - 1) + 306 \<le> civil y m d + 730791"
    and "civil y m d + 730791 < march b + 306"
  shows "a \<le> y" and "y \<le> b"
proof -
  note r = civil_year [OF assms(1)]
  show "a \<le> y"
  proof (rule ccontr)
    assume "\<not> a \<le> y"
    then have "march y \<le> march (a - 1)" by (intro march_mono) simp
    then show False using r(2) assms(2) by simp
  qed
  show "y \<le> b"
  proof (rule ccontr)
    assume "\<not> y \<le> b"
    then have "march b \<le> march (y - 1)" by (intro march_mono) simp
    then show False using r(1) assms(3) by simp
  qed
qed

lemma uint_of_int: "0 \<le> n \<Longrightarrow> n < 2 ^ LENGTH('a) \<Longrightarrow> uint (of_int n :: 'a::len word) = n"
  by (simp add: unsigned_of_int take_bit_int_eq_self)

text \<open>The first and the last millisecond whose year fits the 16-bit field.\<close>

definition first_ms :: int where
  "first_ms = civil 1 1 1 * 86400000"

definition last_ms :: int where
  "last_ms = (civil 65535 12 31 + 1) * 86400000 - 1"

lemma timestamp_datetime:
  assumes "first_ms \<le> ts" and "ts \<le> last_ms"
  shows "valid_datetime (libtime_timestamp_to_datetime ts) \<and>
    libtime_datetime_to_timestamp (Some (libtime_timestamp_to_datetime ts)) = ts"
proof -
  define day ms where "day = ts div 86400000" and "ms = ts mod 86400000"
  have ts: "ts = day * 86400000 + ms" "0 \<le> ms" "ms < 86400000" by (simp_all add: day_def ms_def)
  obtain y m d where c: "civil_from_days (day + 730791) = (y, m, d)" by (cases "civil_from_days (day + 730791)")
  have v: "valid_date y m d" "civil y m d = day"
    using civil_from_days_correct [of "day + 730791"] by (simp_all add: c)
  have "civil 1 1 1 \<le> day" "day \<le> civil 65535 12 31"
    using assms ts by (simp_all add: first_ms_def last_ms_def)
  moreover have "civil 1 1 1 + 730791 = march (1 - 1) + 306" "civil 65535 12 31 + 730791 < march 65535 + 306"
    by code_simp+
  ultimately have y: "1 \<le> y" "y \<le> 65535"
    using civil_year_range [OF v(1), of 1 65535] v(2) by linarith+
  have md: "1 \<le> m" "m \<le> 12" "1 \<le> d" "d \<le> 31"
    using v(1) by (auto simp: valid_date_def month_days_def split: if_splits)
  define h mi s l where "h = ms div 1000 div 60 div 60" and "mi = ms div 1000 div 60 mod 60"
    and "s = ms div 1000 mod 60" and "l = ms mod 1000"
  have "ms div 1000 < 86400" using ts(3) by (simp add: div_less_iff_less_mult)
  then have "ms div 1000 div 60 < 1440" by (simp add: div_less_iff_less_mult)
  then have "h < 24" by (simp add: h_def div_less_iff_less_mult)
  moreover have "0 \<le> h" using ts(2) by (simp add: h_def pos_imp_zdiv_nonneg_iff)
  moreover have "0 \<le> mi" "mi < 60" "0 \<le> s" "s < 60" "0 \<le> l" "l < 1000"
    by (simp_all add: mi_def s_def l_def)
  ultimately have r: "0 \<le> h" "h < 24" "0 \<le> mi" "mi < 60" "0 \<le> s" "s < 60" "0 \<le> l" "l < 1000" by blast+
  define dt where "dt = libtime_timestamp_to_datetime ts"
  have dt: "dt = \<lparr>dt_year = of_int y, dt_month = of_int m, dt_day = of_int d, dt_hour = of_int h,
      dt_minute = of_int mi, dt_second = of_int s, dt_millis = of_int l\<rparr>"
    unfolding dt_def h_def mi_def s_def l_def by (rule to_datetime_split [OF ts c])
  have u: "uint (dt_year dt) = y" "uint (dt_month dt) = m" "uint (dt_day dt) = d" "uint (dt_hour dt) = h"
    "uint (dt_minute dt) = mi" "uint (dt_second dt) = s" "uint (dt_millis dt) = l"
    unfolding dt libtime_datetime.simps using y md r by (subst uint_of_int; simp)+
  have vd: "valid_datetime dt" unfolding valid_datetime_def u using v(1) y(1) r by simp
  have "ms = ((h * 60 + mi) * 60 + s) * 1000 + l"
    unfolding h_def mi_def s_def l_def by (simp only: div_mult_mod_eq)
  then show ?thesis
    using to_timestamp_split [OF vd] vd unfolding u v(2) dt_def [symmetric] using ts(1) by simp
qed

lemma weekday_mod:
  "uint (libtime_weekday_from_days y m d) = (libtime_days_since_epoch y m d + 1) mod 7"
proof -
  define z where "z = libtime_days_since_epoch y m d"
  have "(if z \<ge> -1 then cmod (z + 1) 7 else cmod (z + 2) 7 + 6) = (z + 1) mod 7"
  proof (cases "z \<ge> -1")
    case False
    define q r where "q = (- (z + 2)) div 7" and "r = (- (z + 2)) mod 7"
    have n: "7 * q + r = - (z + 2)" "0 \<le> r" "r < 7"
      unfolding q_def r_def by (rule mult_div_mod_eq) simp_all
    have "(z + 1) mod 7 = 6 - r"
      using n by (intro int_mod_pos_eq [of _ 7 "- q - 1"]) simp_all
    moreover have "cmod (z + 2) 7 = - r"
      unfolding r_def using False by (cases "z + 2 = 0") (simp_all add: cmod_neg)
    ultimately show ?thesis using False by simp
  qed simp
  moreover have "uint (of_int ((z + 1) mod 7) :: u8) = (z + 1) mod 7"
    using pos_mod_bound [of 7 "z + 1"] by (subst uint_of_int) simp_all
  ultimately show ?thesis
    unfolding libtime_weekday_from_days_def Let_def z_def [symmetric] by simp
qed

subsection \<open>Properties\<close>

text \<open>
  C11. \<open>libtime_days_since_epoch\<close> is the day count of the proleptic Gregorian calendar: it is 0 on
  2001-01-01 and from every valid date of the years 1 to 65535 to its successor it grows by
  exactly one, across ends of months, leap days and centuries; the weekday advances by one
  modulo seven, and the epoch is a Monday.
\<close>

theorem libtime_calendar:
  assumes "1 \<le> uint y" and "valid_date (uint y) (uint m) (uint d)"
    and "next_day (uint y, uint m, uint d) = (uint y', uint m', uint d')"
  shows "libtime_days_since_epoch y' m' d' = libtime_days_since_epoch y m d + 1 \<and>
         uint (libtime_weekday_from_days y' m' d') = (uint (libtime_weekday_from_days y m d) + 1) mod 7 \<and>
         libtime_days_since_epoch 2001 1 1 = 0 \<and> libtime_weekday_from_days 2001 1 1 = 1"
proof -
  have n: "valid_date (uint y') (uint m') (uint d')"
    "civil (uint y') (uint m') (uint d') = civil (uint y) (uint m) (uint d) + 1"
    using civil_next [OF assms(2)] by (simp_all add: assms(3) del: next_day.simps)
  have "1 \<le> uint y'" using assms(1,3) by (auto split: if_splits)
  then have e: "libtime_days_since_epoch y' m' d' = libtime_days_since_epoch y m d + 1"
    using n assms(1,2) by (simp add: days_civil valid_date_def)
  have z: "libtime_days_since_epoch 2001 1 1 = 0" by (simp add: days_civil civil_epoch)
  then have "libtime_weekday_from_days 2001 1 1 = 1"
    using weekday_mod [of 2001 1 1] by (simp add: word_uint_eq_iff)
  then show ?thesis using e z by (simp add: weekday_mod mod_simps)
qed

theorem libtime_calendar_witness:
  "libtime_days_since_epoch 2024 3 1 = libtime_days_since_epoch 2024 2 29 + 1 \<and>
   uint (libtime_weekday_from_days 2024 3 1) = (uint (libtime_weekday_from_days 2024 2 29) + 1) mod 7"
  using libtime_calendar [of 2024 2 29 2024 3 1]
  by (simp add: valid_date_def month_days_def leap_def)

text \<open>
  C12. Converting a valid date of the years 1 to 65535 to a timestamp and back gives the same
  date, to the millisecond.
\<close>

theorem libtime_datetime_roundtrip:
  assumes "valid_datetime dt"
  shows "libtime_timestamp_to_datetime (libtime_datetime_to_timestamp (Some dt)) = dt"
  by (rule datetime_roundtrip [OF assms])

theorem libtime_datetime_roundtrip_witness:
  "libtime_timestamp_to_datetime (libtime_datetime_to_timestamp (Some
     \<lparr>dt_year = 1999, dt_month = 12, dt_day = 31, dt_hour = 23, dt_minute = 59, dt_second = 58, dt_millis = 999\<rparr>)) =
     \<lparr>dt_year = 1999, dt_month = 12, dt_day = 31, dt_hour = 23, dt_minute = 59, dt_second = 58, dt_millis = 999\<rparr>"
  by (rule libtime_datetime_roundtrip) (simp add: valid_datetime_def valid_date_def month_days_def)

text \<open>
  C13. Every timestamp from the first millisecond of year 1 to the last of year 65535, so also
  every negative one in that range, is converted to a valid date that converts back to it.
\<close>

theorem libtime_timestamp_roundtrip:
  assumes "first_ms \<le> ts" and "ts \<le> last_ms"
  shows "valid_datetime (libtime_timestamp_to_datetime ts) \<and>
         libtime_datetime_to_timestamp (Some (libtime_timestamp_to_datetime ts)) = ts"
  by (rule timestamp_datetime [OF assms])

theorem libtime_timestamp_roundtrip_witness:
  "libtime_datetime_to_timestamp (Some (libtime_timestamp_to_datetime (-1))) = -1"
proof -
  have "first_ms \<le> -1" "-1 \<le> last_ms" by code_simp+
  from libtime_timestamp_roundtrip [OF this] show ?thesis by simp
qed

end
