(* ===== verification/Ctime.thy ===== *)
theory Ctime
  imports Libtime
begin

section \<open>Broken-down time (libc/src/time)\<close>

text \<open>
  The \<open>struct tm\<close> functions of libc. Fields are integers; the conversion of a 64-bit \<open>time_t\<close> to
  an \<open>int\<close> field is written out. The month table is only defined for months 0 to 11: a lookup
  outside it, and a normalisation loop that would not end, are \<open>None\<close>, and normalisation is shown
  to return for every input. It keeps the moment in time, and \<open>mktime\<close> undoes \<open>gmtime_r\<close>.
\<close>

record tm =
  tm_sec :: int
  tm_min :: int
  tm_hour :: int
  tm_mday :: int
  tm_mon :: int
  tm_year :: int
  tm_wday :: int
  tm_yday :: int
  tm_isdst :: int

definition floor_div :: "int \<Rightarrow> int \<Rightarrow> int" where
  "floor_div a b = cdiv a b - (if cmod a b \<noteq> 0 \<and> (a XOR b) < 0 then 1 else 0)"

definition floor_mod :: "int \<Rightarrow> int \<Rightarrow> int" where
  "floor_mod a b = a - floor_div a b * b"

definition is_leap_year :: "int \<Rightarrow> bool" where
  "is_leap_year year \<longleftrightarrow> cmod year 4 = 0 \<and> (cmod year 100 \<noteq> 0 \<or> cmod year 400 = 0)"

definition table_get :: "int list \<Rightarrow> int \<Rightarrow> int option" where
  "table_get t i = (if 0 \<le> i \<and> nat i < length t then Some (t ! nat i) else None)"

definition days_in_month :: "int \<Rightarrow> int \<Rightarrow> int option" where
  "days_in_month mon year =
     (if mon = 1 \<and> is_leap_year year then Some 29
      else table_get [31, 28, 31, 30, 31, 30, 31, 31, 30, 31, 30, 31] mon)"

definition day_of_week :: "int \<Rightarrow> int \<Rightarrow> int \<Rightarrow> int option" where
  "day_of_week y m d =
     (let y = (if m < 2 then y - 1 else y) in
      map_option (\<lambda>t. cmod (y + cdiv y 4 - cdiv y 100 + cdiv y 400 + t + d) 7)
        (table_get [0, 3, 2, 5, 0, 3, 5, 1, 4, 6, 2, 4] m))"

text \<open>The two day loops of \<open>__time_normalize\<close>, on month, year and day.\<close>

partial_function (option) days_up :: "int \<Rightarrow> int \<Rightarrow> int \<Rightarrow> (int \<times> int \<times> int) option" where
  [code]: "days_up mon year mday =
     (if mday < 1 then
        (let (mon, year) = (if mon - 1 < 0 then (11, year - 1) else (mon - 1, year)) in
         case days_in_month mon (year + 1900) of None \<Rightarrow> None
         | Some n \<Rightarrow> days_up mon year (mday + n))
      else Some (mon, year, mday))"

partial_function (option) days_down :: "int \<Rightarrow> int \<Rightarrow> int \<Rightarrow> (int \<times> int \<times> int) option" where
  [code]: "days_down mon year mday =
     (case days_in_month mon (year + 1900) of None \<Rightarrow> None
      | Some n \<Rightarrow>
          if mday > n then
            (let (mon, year) = (if mon + 1 > 11 then (0, year + 1) else (mon + 1, year))
             in days_down mon year (mday - n))
          else Some (mon, year, mday))"

definition time_normalize :: "tm \<Rightarrow> tm option" where
  "time_normalize tm0 =
     (let tm1 = tm0\<lparr>tm_min := tm_min tm0 + floor_div (tm_sec tm0) 60\<rparr>;
          tm1 = tm1\<lparr>tm_sec := floor_mod (tm_sec tm1) 60\<rparr>;
          tm1 = tm1\<lparr>tm_hour := tm_hour tm1 + floor_div (tm_min tm1) 60\<rparr>;
          tm1 = tm1\<lparr>tm_min := floor_mod (tm_min tm1) 60\<rparr>;
          tm1 = tm1\<lparr>tm_mday := tm_mday tm1 + floor_div (tm_hour tm1) 24\<rparr>;
          tm1 = tm1\<lparr>tm_hour := floor_mod (tm_hour tm1) 24\<rparr>;
          tm1 = tm1\<lparr>tm_year := tm_year tm1 + floor_div (tm_mon tm1) 12\<rparr>;
          tm1 = tm1\<lparr>tm_mon := floor_mod (tm_mon tm1) 12\<rparr>
      in do {
        (mon, year, mday) \<leftarrow> days_up (tm_mon tm1) (tm_year tm1) (tm_mday tm1);
        (mon, year, mday) \<leftarrow> days_down mon year mday;
        off \<leftarrow> table_get (if is_leap_year (year + 1900)
                 then [0, 31, 60, 91, 121, 152, 182, 213, 244, 274, 305, 335]
                 else [0, 31, 59, 90, 120, 151, 181, 212, 243, 273, 304, 334]) mon;
        wday \<leftarrow> day_of_week (year + 1900) mon mday;
        Some (tm1\<lparr>tm_mon := mon, tm_year := year, tm_mday := mday,
                  tm_yday := off + mday - 1, tm_wday := wday\<rparr>)
      })"

definition days_since_epoch :: "int \<Rightarrow> int \<Rightarrow> int \<Rightarrow> int" where
  "days_since_epoch y m d =
     (let m = m + 1;
          y = y - (if m \<le> 2 then 1 else 0);
          era = cdiv (if y \<ge> 0 then y else y - 399) 400;
          yoe = y - era * 400;
          doy = cdiv (153 * (if m > 2 then m - 3 else m + 9) + 2) 5 + d - 1;
          doe = yoe * 365 + cdiv yoe 4 - cdiv yoe 100 + doy
      in era * 146097 + doe - 719468)"

text \<open>\<open>mktime\<close> also stores the normalised time to its argument.\<close>

definition mktime :: "tm option \<Rightarrow> (int \<times> tm option) option" where
  "mktime tm_ptr =
     (case tm_ptr of
        None \<Rightarrow> Some (0, None)
      | Some tm0 \<Rightarrow>
          do { t \<leftarrow> time_normalize tm0;
               let res = days_since_epoch (tm_year t + 1900) (tm_mon t) (tm_mday t);
               let res = res * 24 + tm_hour t;
               let res = res * 60 + tm_min t;
               let res = res * 60 + tm_sec t;
               Some (res, Some t) })"

text \<open>Conversion of a \<open>time_t\<close> to \<open>int\<close>: modulo \<open>2 ^ 32\<close> into the signed range.\<close>

definition to_int32 :: "int \<Rightarrow> int" where
  "to_int32 x = (x + 2 ^ 31) mod 2 ^ 32 - 2 ^ 31"

definition gmtime_r :: "int option \<Rightarrow> tm option \<Rightarrow> tm option option" where
  "gmtime_r time_ptr tm_ptr =
     (case (time_ptr, tm_ptr) of
        (Some datetime, Some tm0) \<Rightarrow>
          (let time = cmod datetime (24 * 60 * 60);
               time = (if time < 0 then time + 24 * 60 * 60 else time);
               date = cdiv (datetime - time) (24 * 60 * 60);
               tm1 = tm0\<lparr>tm_sec := to_int32 time, tm_mday := to_int32 (1 + date), tm_min := 0,
                         tm_hour := 0, tm_wday := 0, tm_mon := 0, tm_year := 70\<rparr>
           in do { t \<leftarrow> time_normalize tm1; Some (Some (t\<lparr>tm_isdst := -1\<rparr>)) })
      | _ \<Rightarrow> Some None)"

text \<open>\<open>gmtime\<close> uses a static structure; \<open>localtime\<close> and \<open>localtime_r\<close> are the same functions.\<close>

definition gmtime :: "tm \<Rightarrow> int option \<Rightarrow> tm option option" where
  "gmtime static_tm time_ptr =
     (case time_ptr of None \<Rightarrow> Some None | Some _ \<Rightarrow> gmtime_r time_ptr (Some static_tm))"

definition localtime :: "tm \<Rightarrow> int option \<Rightarrow> tm option option" where
  "localtime static_tm time_ptr =
     (case time_ptr of None \<Rightarrow> Some None | Some _ \<Rightarrow> gmtime static_tm time_ptr)"

definition localtime_r :: "int option \<Rightarrow> tm option \<Rightarrow> tm option option" where
  "localtime_r time_ptr tm_ptr =
     (if time_ptr = None \<or> tm_ptr = None then Some None else gmtime_r time_ptr tm_ptr)"

subsection \<open>Helper functions against the calendar\<close>

lemma floor_div_eq: "0 < b \<Longrightarrow> floor_div a b = a div b"
proof -
  assume b: "0 < b"
  show ?thesis
  proof (cases "a \<ge> 0")
    case True
    then show ?thesis using b by (simp add: floor_div_def)
  next
    case False
    then have neg: "(a XOR b) < 0" using b by simp
    have "(- a) div b = (if a mod b = 0 then - (a div b) else - (a div b) - 1)"
      by (rule zdiv_zminus1_eq_if) (use b in simp)
    moreover have "(- a) mod b = (if a mod b = 0 then 0 else b - a mod b)"
      by (rule zmod_zminus1_eq_if)
    moreover have "b \<noteq> a mod b" using pos_mod_bound [OF b, of a] by simp
    ultimately show ?thesis
      using False b neg by (simp add: floor_div_def cdiv_neg cmod_neg)
  qed
qed

lemma floor_mod_eq: "0 < b \<Longrightarrow> floor_mod a b = a mod b"
  by (simp add: floor_mod_def floor_div_eq minus_div_mult_eq_mod)

lemma cmod_eq_0: "0 < b \<Longrightarrow> cmod a b = 0 \<longleftrightarrow> b dvd a"
proof (cases "a \<ge> 0")
  case False
  assume "0 < b"
  then show ?thesis using False by (simp add: cmod_neg dvd_eq_mod_eq_0 [symmetric])
qed (simp add: dvd_eq_mod_eq_0)

lemma is_leap_year_leap: "is_leap_year y = leap y"
  by (simp add: is_leap_year_def leap_def cmod_eq_0)

lemma days_in_month_eq:
  assumes "0 \<le> m" and "m \<le> 11"
  shows "days_in_month m y = Some (month_days y (m + 1))"
proof -
  have "1 \<le> m + 1" "m + 1 \<le> 12" using assms by simp_all
  from month_cases [OF this] show ?thesis
    by (elim disjE; cases "leap y"; simp add: days_in_month_def table_get_def is_leap_year_leap month_days_def)
qed

lemma month_days_pos: "28 \<le> month_days y m"
  by (simp add: month_days_def)

lemma civil_mday: "civil y m d = civil y m 1 + (d - 1)"
  by (simp add: civil_def since_march_def)

text \<open>The first of the next month, and the first of the previous one.\<close>

definition month_after :: "int \<Rightarrow> int \<Rightarrow> int \<times> int" where
  "month_after m y = (if m + 1 > 11 then (0, y + 1) else (m + 1, y))"

lemma month_after_civil:
  assumes "0 \<le> m" and "m \<le> 11" and "month_after m y = (m', y')"
  shows "civil (y' + 1900) (m' + 1) 1 = civil (y + 1900) (m + 1) 1 + month_days (y + 1900) (m + 1)"
    and "0 \<le> m'" and "m' \<le> 11"
proof -
  let ?n = "month_days (y + 1900) (m + 1)"
  have "valid_date (y + 1900) (m + 1) ?n"
    using assms(1,2) month_days_pos [of "y + 1900" "m + 1"] by (simp add: valid_date_def)
  from civil_next [OF this] have "civil (y' + 1900) (m' + 1) 1 = civil (y + 1900) (m + 1) ?n + 1"
    using assms by (auto simp: month_after_def split: if_splits)
  then show "civil (y' + 1900) (m' + 1) 1 = civil (y + 1900) (m + 1) 1 + ?n"
    using civil_mday [of "y + 1900" "m + 1" ?n] by simp
  show "0 \<le> m'" "m' \<le> 11" using assms by (auto simp: month_after_def split: if_splits)
qed

lemma days_up_returns:
  assumes "0 \<le> m" and "m \<le> 11"
  shows "\<exists>m' y' d'. days_up m y d = Some (m', y', d') \<and> 0 \<le> m' \<and> m' \<le> 11 \<and> 1 \<le> d' \<and>
           civil (y' + 1900) (m' + 1) d' = civil (y + 1900) (m + 1) d"
  using assms
proof (induction "nat (1 - d)" arbitrary: m y d rule: less_induct)
  case less
  show ?case
  proof (cases "d < 1")
    case True
    obtain m1 y1 where p: "(if m - 1 < 0 then (11, y - 1) else (m - 1, y)) = (m1, y1)" by fastforce
    have m1: "0 \<le> m1" "m1 \<le> 11" "month_after m1 y1 = (m, y)"
      using p less.prems by (auto simp: month_after_def split: if_splits)
    define n where "n = month_days (y1 + 1900) (m1 + 1)"
    have n: "28 \<le> n" by (simp add: n_def month_days_pos)
    have step: "days_up m y d = days_up m1 y1 (d + n)"
      using True by (subst days_up.simps) (simp only: p if_True Let_def prod.case
          days_in_month_eq [OF m1(1,2)] option.case n_def)
    have "nat (1 - (d + n)) < nat (1 - d)" using True n by linarith
    from less.hyps [OF this m1(1,2), of y1] obtain m' y' d' where
      r: "days_up m1 y1 (d + n) = Some (m', y', d')" "0 \<le> m'" "m' \<le> 11" "1 \<le> d'"
        "civil (y' + 1900) (m' + 1) d' = civil (y1 + 1900) (m1 + 1) (d + n)" by blast
    have "civil (y1 + 1900) (m1 + 1) (d + n) = civil (y + 1900) (m + 1) d"
      using month_after_civil(1) [OF m1] civil_mday [of "y1 + 1900" "m1 + 1" "d + n"]
        civil_mday [of "y + 1900" "m + 1" d] by (simp add: n_def)
    then show ?thesis using r step by simp
  next
    case False
    then show ?thesis using less.prems by (simp add: days_up.simps [of m y d])
  qed
qed

lemma days_down_returns:
  assumes "0 \<le> m" and "m \<le> 11" and "1 \<le> d"
  shows "\<exists>m' y' d'. days_down m y d = Some (m', y', d') \<and> 0 \<le> m' \<and> m' \<le> 11 \<and>
           valid_date (y' + 1900) (m' + 1) d' \<and>
           civil (y' + 1900) (m' + 1) d' = civil (y + 1900) (m + 1) d"
  using assms
proof (induction "nat d" arbitrary: m y d rule: less_induct)
  case less
  define n where "n = month_days (y + 1900) (m + 1)"
  have n: "28 \<le> n" by (simp add: n_def month_days_pos)
  have dim: "days_in_month m (y + 1900) = Some n"
    using days_in_month_eq [OF less.prems(1,2)] by (simp add: n_def)
  show ?case
  proof (cases "d > n")
    case True
    obtain m1 y1 where p: "(if m + 1 > 11 then (0, y + 1) else (m + 1, y)) = (m1, y1)" by fastforce
    then have ma: "month_after m y = (m1, y1)" by (simp only: month_after_def)
    note c = month_after_civil [OF less.prems(1,2) ma]
    have step: "days_down m y d = days_down m1 y1 (d - n)"
      by (subst days_down.simps) (simp only: dim option.case True if_True Let_def p prod.case)
    have "nat (d - n) < nat d" "1 \<le> d - n" using True n by linarith+
    from less.hyps [OF this(1) c(2,3) this(2), of y1] obtain m' y' d' where
      r: "days_down m1 y1 (d - n) = Some (m', y', d')" "0 \<le> m'" "m' \<le> 11"
        "valid_date (y' + 1900) (m' + 1) d'"
        "civil (y' + 1900) (m' + 1) d' = civil (y1 + 1900) (m1 + 1) (d - n)" by blast
    have "civil (y1 + 1900) (m1 + 1) (d - n) = civil (y + 1900) (m + 1) d"
      using c(1) civil_mday [of "y1 + 1900" "m1 + 1" "d - n"] civil_mday [of "y + 1900" "m + 1" d]
      by (simp add: n_def)
    then show ?thesis using r step by simp
  next
    case False
    then have "days_down m y d = Some (m, y, d)"
      by (subst days_down.simps) (simp add: dim)
    moreover have "valid_date (y + 1900) (m + 1) d"
      using False less.prems by (simp add: valid_date_def n_def)
    ultimately show ?thesis using less.prems by blast
  qed
qed

text \<open>Unix day numbers.\<close>

lemma days_since_epoch_civil:
  assumes "0 \<le> m" and "m \<le> 11"
  shows "days_since_epoch y m d = civil y (m + 1) d + 11323"
proof -
  define y' where "y' = y - (if m + 1 \<le> 2 then 1 else 0)"
  define era yoe where "era = y' div 400" and "yoe = y' mod 400"
  have yoe: "0 \<le> yoe" "yoe < 400" "y' = yoe + 400 * era" "y' - era * 400 = yoe"
    by (simp_all add: yoe_def era_def minus_div_mult_eq_mod)
  have e: "cdiv (if y' \<ge> 0 then y' else y' - 399) 400 = era"
    using floor_cdiv [of 400 y'] by (cases "y' \<ge> 0") (simp_all add: era_def)
  have q: "cdiv yoe 4 = yoe div 4" "cdiv yoe 100 = yoe div 100" using yoe(1) by simp_all
  define mm where "mm = 153 * (if m + 1 > 2 then m + 1 - 3 else m + 1 + 9) + 2"
  have mm: "0 \<le> mm" using assms by (simp add: mm_def)
  have "days_since_epoch y m d =
      era * 146097 + (yoe * 365 + yoe div 4 - yoe div 100 + (mm div 5 + d - 1)) - 719468"
    unfolding days_since_epoch_def Let_def y'_def [symmetric] e yoe(4) q mm_def [symmetric]
    using cdiv_nonneg [OF mm, of 5] by (simp only: zero_less_numeral simp_thms)
  moreover have "march y' = 146097 * era + march yoe" unfolding yoe(3) by (rule march_era)
  moreover have "march yoe = 365 * yoe + yoe div 4 - yoe div 100" using era_march [OF yoe(1,2)] by simp
  moreover have "mm div 5 + d - 1 = since_march (m + 1) d"
    unfolding since_march_def mm_def by (simp add: not_le not_less)
  moreover have "civil y (m + 1) d = march y' + since_march (m + 1) d - 730791"
    by (simp add: civil_def y'_def)
  ultimately show ?thesis by (simp only: mult.commute)
qed

lemma sum_regroup: "(a::int) + b - c + d = a + (b - c + d)"
  by simp

lemma weekday_check:
  "list_all (\<lambda>m. (since_march (m + 1) 0 - 730790 - [0, 3, 2, 5, 0, 3, 5, 1, 4, 6, 2, 4] ! nat m) mod 7 = 0 \<and>
     0 \<le> ([0, 3, 2, 5, 0, 3, 5, 1, 4, 6, 2, 4] ! nat m :: int)) [0..11]"
  by code_simp

lemma day_of_week_civil:
  assumes m: "0 \<le> m" "m \<le> 11" and y: "1 \<le> y" and d: "1 \<le> d"
  shows "day_of_week y m d = Some ((civil y (m + 1) d + 1) mod 7)"
proof -
  let ?t = "[0, 3, 2, 5, 0, 3, 5, 1, 4, 6, 2, 4] ! nat m :: int"
  define y' where "y' = (if m < 2 then y - 1 else y)"
  have y': "0 \<le> y'" using y by (simp add: y'_def)
  have t: "table_get [0, 3, 2, 5, 0, 3, 5, 1, 4, 6, 2, 4] m = Some ?t"
    using m by (simp add: table_get_def)
  have t0: "0 \<le> ?t" and chk: "(since_march (m + 1) 0 - 730790 - ?t) mod 7 = 0"
    using m weekday_check by (simp_all add: list_all_iff)
  define c where "c = y' div 4 - y' div 100 + y' div 400"
  have q: "cdiv y' 4 = y' div 4" "cdiv y' 100 = y' div 100" "cdiv y' 400 = y' div 400" using y' by simp_all
  have c0: "0 \<le> c"
  proof -
    have "y' div 100 \<le> y' div 4" using y' by (intro zdiv_mono2) simp_all
    then show ?thesis using y' by (simp add: c_def pos_imp_zdiv_nonneg_iff)
  qed
  have s0: "since_march (m + 1) d = since_march (m + 1) 0 + d" by (simp add: since_march_def)
  have "march y' = 365 * y' + c"
    unfolding march_def c_def by (rule sum_regroup)
  then have "civil y (m + 1) d + 1 = 365 * y' + c + since_march (m + 1) d - 730790"
    by (cases "m < 2") (simp_all add: civil_def y'_def)
  also have "\<dots> = (y' + c + ?t + d) + 7 * (52 * y') + (since_march (m + 1) 0 - 730790 - ?t)"
    unfolding s0 by simp
  also obtain k where "since_march (m + 1) 0 - 730790 - ?t = 7 * k"
    using chk unfolding mod_eq_0_iff_dvd by (rule dvdE)
  finally have "civil y (m + 1) d + 1 = (y' + c + ?t + d) + 7 * (52 * y' + k)" by simp
  then have "(civil y (m + 1) d + 1) mod 7 = (y' + c + ?t + d) mod 7" by (simp only: mod_mult_self2)
  moreover have "cmod (y' + c + ?t + d) 7 = (y' + c + ?t + d) mod 7"
    using y' c0 t0 d by (intro cmod_nonneg) simp_all
  moreover have "day_of_week y m d = Some (cmod (y' + c + ?t + d) 7)"
    unfolding day_of_week_def Let_def y'_def [symmetric] t q c_def by (simp add: sum_regroup)
  ultimately show ?thesis by simp
qed

lemma yday_check:
  "list_all (\<lambda>m. (if m \<le> 1 then since_march (m + 1) 0 - 306 else since_march (m + 1) 0 + 59) =
       [0, 31, 59, 90, 120, 151, 181, 212, 243, 273, 304, 334] ! nat m - 1 \<and>
     (if m \<le> 1 then since_march (m + 1) 0 - 306 else since_march (m + 1) 0 + 60) =
       [0, 31, 60, 91, 121, 152, 182, 213, 244, 274, 305, 335] ! nat m - 1) [0..11]"
  by code_simp

definition yday_table :: "int \<Rightarrow> int list" where
  "yday_table y = (if is_leap_year y then [0, 31, 60, 91, 121, 152, 182, 213, 244, 274, 305, 335]
     else [0, 31, 59, 90, 120, 151, 181, 212, 243, 273, 304, 334])"

lemma yday_civil:
  assumes m: "0 \<le> m" "m \<le> 11"
  shows "\<exists>off. table_get (yday_table y) m = Some off \<and> off + d - 1 = civil y (m + 1) d - civil y 1 1"
proof -
  have g: "table_get (yday_table y) m = Some (yday_table y ! nat m)"
    using m by (simp add: table_get_def yday_table_def)
  have s0: "since_march (m + 1) d = since_march (m + 1) 0 + d" by (simp add: since_march_def)
  have c: "civil y (m + 1) d - civil y 1 1 =
      (if m \<le> 1 then 0 else march y - march (y - 1)) + since_march (m + 1) 0 + d - 306"
  proof -
    have "since_march 1 1 = 306" by code_simp
    then show ?thesis unfolding civil_def s0 by simp
  qed
  define a where "a = since_march (m + 1) 0"
  define b where "b = yday_table y ! nat m"
  show ?thesis
  proof (cases "leap y")
    case True
    then have "yday_table y = [0, 31, 60, 91, 121, 152, 182, 213, 244, 274, 305, 335]"
      by (simp add: yday_table_def is_leap_year_leap)
    then have "(if m \<le> 1 then a - 306 else a + 60) = b - 1"
      using yday_check m unfolding list_all_iff set_upto a_def b_def by simp
    then show ?thesis
      unfolding g c a_def [symmetric] b_def [symmetric] using march_step [of y] True by (cases "m \<le> 1") simp_all
  next
    case False
    then have "yday_table y = [0, 31, 59, 90, 120, 151, 181, 212, 243, 273, 304, 334]"
      by (simp add: yday_table_def is_leap_year_leap)
    then have "(if m \<le> 1 then a - 306 else a + 59) = b - 1"
      using yday_check m unfolding list_all_iff set_upto a_def b_def by simp
    then show ?thesis
      unfolding g c a_def [symmetric] b_def [symmetric] using march_step [of y] False by (cases "m \<le> 1") simp_all
  qed
qed

text \<open>The moment a broken-down time names, in seconds since 1970, before normalisation too.\<close>

definition moment :: "tm \<Rightarrow> int" where
  "moment t = (((civil (tm_year t + tm_mon t div 12 + 1900) (tm_mon t mod 12 + 1) (tm_mday t) + 11323) * 24
     + tm_hour t) * 60 + tm_min t) * 60 + tm_sec t"

definition tm_normal :: "tm \<Rightarrow> bool" where
  "tm_normal t \<longleftrightarrow> 0 \<le> tm_sec t \<and> tm_sec t < 60 \<and> 0 \<le> tm_min t \<and> tm_min t < 60 \<and>
     0 \<le> tm_hour t \<and> tm_hour t < 24 \<and> 0 \<le> tm_mon t \<and> tm_mon t \<le> 11 \<and>
     valid_date (tm_year t + 1900) (tm_mon t + 1) (tm_mday t) \<and>
     tm_yday t = civil (tm_year t + 1900) (tm_mon t + 1) (tm_mday t) - civil (tm_year t + 1900) 1 1 \<and>
     (1 \<le> tm_year t + 1900 \<longrightarrow>
        tm_wday t = (civil (tm_year t + 1900) (tm_mon t + 1) (tm_mday t) + 1) mod 7)"

lemma table_get_month: "length t = 12 \<Longrightarrow> 0 \<le> m \<Longrightarrow> m \<le> 11 \<Longrightarrow> table_get t m = Some (t ! nat m)"
  by (simp add: table_get_def nat_less_iff)

lemma moment_shift:
  fixes c :: int
  assumes "md = h - hh" and "sd = mi - mm"
  shows "(((c + dd + k) * 24 + (h - 24 * dd)) * 60 + (mi - 60 * md)) * 60 + (s - 60 * sd) =
         (((c + k) * 24 + hh) * 60 + mm) * 60 + s"
  unfolding assms by (simp add: algebra_simps)

lemma time_normalize_ok:
  "\<exists>t. time_normalize tm0 = Some t \<and> moment t = moment tm0 \<and> tm_normal t"
proof -
  define mi where "mi = tm_min tm0 + tm_sec tm0 div 60"
  define h where "h = tm_hour tm0 + mi div 60"
  define md where "md = tm_mday tm0 + h div 24"
  define y where "y = tm_year tm0 + tm_mon tm0 div 12"
  define mo where "mo = tm_mon tm0 mod 12"
  have mo: "0 \<le> mo" "mo \<le> 11" using pos_mod_bound [of 12 "tm_mon tm0"] by (simp_all add: mo_def)
  obtain m1 y1 d1 where 1: "days_up mo y md = Some (m1, y1, d1)" "0 \<le> m1" "m1 \<le> 11" "1 \<le> d1"
      "civil (y1 + 1900) (m1 + 1) d1 = civil (y + 1900) (mo + 1) md"
    using days_up_returns [OF mo] by blast
  obtain m2 y2 d2 where 2: "days_down m1 y1 d1 = Some (m2, y2, d2)" "0 \<le> m2" "m2 \<le> 11"
      "valid_date (y2 + 1900) (m2 + 1) d2"
      "civil (y2 + 1900) (m2 + 1) d2 = civil (y1 + 1900) (m1 + 1) d1"
    using days_down_returns [OF 1(2-4)] by blast
  have d2: "1 \<le> d2" using 2(4) by (simp add: valid_date_def)
  obtain off where off: "table_get (yday_table (y2 + 1900)) m2 = Some off"
      "off + d2 - 1 = civil (y2 + 1900) (m2 + 1) d2 - civil (y2 + 1900) 1 1"
    using yday_civil [OF 2(2,3)] by blast
  obtain w where w: "day_of_week (y2 + 1900) m2 d2 = Some w"
    using table_get_month [OF _ 2(2,3)] by (simp add: day_of_week_def Let_def)
  define t where "t = tm0\<lparr>tm_min := mi mod 60, tm_sec := tm_sec tm0 mod 60, tm_hour := h mod 24,
      tm_mon := m2, tm_year := y2, tm_mday := d2, tm_yday := off + d2 - 1, tm_wday := w\<rparr>"
  have "time_normalize tm0 = Some t"
    unfolding time_normalize_def yday_table_def [symmetric] Let_def
    by (simp add: floor_div_eq floor_mod_eq mi_def [symmetric] h_def [symmetric] md_def [symmetric]
        y_def [symmetric] mo_def [symmetric] 1(1) 2(1) off(1) w t_def)
  moreover have "moment t = moment tm0"
  proof -
    define D where "D = civil (y2 + 1900) (m2 + 1) d2 + 11323"
    have D: "D = civil (y + 1900) (mo + 1) (tm_mday tm0) + h div 24 + 11323"
      using 1(5) 2(5) civil_mday [of "y + 1900" "mo + 1" md] civil_mday [of "y + 1900" "mo + 1" "tm_mday tm0"]
      by (simp add: D_def md_def)
    have "m2 div 12 = 0" "m2 mod 12 = m2" using 2(2,3) by simp_all
    then have "moment t = ((D * 24 + h mod 24) * 60 + mi mod 60) * 60 + tm_sec tm0 mod 60"
      by (simp add: moment_def t_def D_def)
    also have "\<dots> = (((civil (y + 1900) (mo + 1) (tm_mday tm0) + 11323) * 24 + tm_hour tm0) * 60
        + tm_min tm0) * 60 + tm_sec tm0"
      unfolding D minus_mult_div_eq_mod [symmetric]
      by (rule moment_shift) (simp_all add: h_def mi_def)
    also have "\<dots> = moment tm0" by (simp add: moment_def y_def mo_def)
    finally show ?thesis .
  qed
  moreover have "tm_normal t"
    using 2 off(2) w day_of_week_civil [OF 2(2,3) _ d2, of "y2 + 1900"]
    by (simp add: tm_normal_def t_def)
  ultimately show ?thesis by blast
qed

lemma mktime_moment:
  "\<exists>t. mktime (Some tm0) = Some (moment tm0, Some t) \<and> tm_normal t \<and> moment t = moment tm0"
proof -
  obtain t where t: "time_normalize tm0 = Some t" "moment t = moment tm0" "tm_normal t"
    using time_normalize_ok by blast
  have m: "0 \<le> tm_mon t" "tm_mon t \<le> 11" using t(3) by (simp_all add: tm_normal_def)
  have d: "tm_mon t div 12 = 0" "tm_mon t mod 12 = tm_mon t" using m by simp_all
  have "mktime (Some tm0) = Some (moment t, Some t)"
    unfolding mktime_def moment_def d by (simp add: t(1) days_since_epoch_civil [OF m])
  then show ?thesis using t by auto
qed

lemma to_int32_id: "- (2 ^ 31) \<le> x \<Longrightarrow> x < 2 ^ 31 \<Longrightarrow> to_int32 x = x"
  by (simp add: to_int32_def)

lemma gmtime_moment:
  assumes "- (2 ^ 31) * 86400 \<le> t" and "t < (2 ^ 31 - 1) * 86400"
  shows "\<exists>tm1. gmtime_r (Some t) (Some tm0) = Some (Some tm1) \<and> tm_normal tm1 \<and> moment tm1 = t \<and> tm_isdst tm1 = -1"
proof -
  define s d where "s = t mod 86400" and "d = t div 86400"
  have t: "t = d * 86400 + s" "0 \<le> s" "s < 86400" by (simp_all add: s_def d_def)
  have k: "24 * 60 * 60 = (86400::int)" by simp
  have a: "(if cmod t 86400 < 0 then cmod t 86400 + 86400 else cmod t 86400) = s"
    using floor_cmod [of 86400 t] by (simp add: Let_def s_def)
  have "t - s = d * 86400" using t(1) by simp
  then have b: "cdiv (t - s) 86400 = d" using cdiv_exact [of 86400 d] by (simp only:)
  have dr: "- (2 ^ 31) \<le> 1 + d" "1 + d < 2 ^ 31" using assms t by simp_all
  define tm1 where "tm1 = tm0\<lparr>tm_sec := s, tm_mday := 1 + d, tm_min := 0, tm_hour := 0, tm_wday := 0,
      tm_mon := 0, tm_year := 70\<rparr>"
  obtain r where r: "time_normalize tm1 = Some r" "moment r = moment tm1" "tm_normal r"
    using time_normalize_ok by blast
  have "gmtime_r (Some t) (Some tm0) = Some (Some (r\<lparr>tm_isdst := -1\<rparr>))"
    unfolding gmtime_r_def prod.case option.case Let_def k a b to_int32_id [OF dr]
    using to_int32_id [of s] t(2,3) r(1) by (simp add: tm1_def)
  moreover have "moment (r\<lparr>tm_isdst := -1\<rparr>) = t"
  proof -
    have "civil 1970 1 1 = - 11323" by code_simp
    then have "moment tm1 = t"
      using civil_mday [of 1970 1 "1 + d"] t(1) by (simp add: moment_def tm1_def)
    then show ?thesis using r(2) by (simp add: moment_def)
  qed
  moreover have "tm_normal (r\<lparr>tm_isdst := -1\<rparr>)" using r(3) by (simp add: tm_normal_def)
  ultimately show ?thesis by auto
qed




end
