(* ===== verification/Cctype.thy ===== *)
theory Cctype
  imports Prelude
begin

section \<open>Character classes (libc/include/ctype.h)\<close>

text \<open>
  The classification macros read one byte of a table of 128 flag bytes. A character is a byte; a
  byte from 128 on reads behind the table, which is \<open>None\<close>. On ASCII the table agrees with the
  usual classes.
\<close>

definition ASCII_FLAGS :: "u8 list" where
  "ASCII_FLAGS = [
    1, 1, 1, 1, 1, 1, 1, 1, 1, 49, 33, 33, 33, 33, 1, 1,
    1, 1, 1, 1, 1, 1, 1, 1, 1, 1, 1, 1, 1, 1, 1, 1,
    48, 136, 136, 136, 136, 136, 136, 136, 136, 136, 136, 136, 136, 136, 136, 136,
    194, 194, 194, 194, 194, 194, 194, 194, 194, 194, 136, 136, 136, 136, 136, 136,
    136, 204, 204, 204, 204, 204, 204, 140, 140, 140, 140, 140, 140, 140, 140, 140,
    140, 140, 140, 140, 140, 140, 140, 140, 140, 140, 140, 136, 136, 136, 136, 136,
    136, 196, 196, 196, 196, 196, 196, 132, 132, 132, 132, 132, 132, 132, 132, 132,
    132, 132, 132, 132, 132, 132, 132, 132, 132, 132, 132, 136, 136, 136, 136, 1]"

definition ascii_flags :: "u8 \<Rightarrow> u8 option" where
  "ascii_flags c = (if unat c < length ASCII_FLAGS then Some (ASCII_FLAGS ! unat c) else None)"

definition iscntrl :: "u8 \<Rightarrow> bool option" where
  "iscntrl c = map_option (\<lambda>f. f AND 0b00000001 > 0) (ascii_flags c)"

definition isblank :: "u8 \<Rightarrow> bool option" where
  "isblank c = map_option (\<lambda>f. f AND 0b00010000 > 0) (ascii_flags c)"

definition isspace :: "u8 \<Rightarrow> bool option" where
  "isspace c = map_option (\<lambda>f. f AND 0b00100000 > 0) (ascii_flags c)"

definition isupper :: "u8 \<Rightarrow> bool option" where
  "isupper c = map_option (\<lambda>f. f AND 0b00001100 = 0b1100) (ascii_flags c)"

definition islower :: "u8 \<Rightarrow> bool option" where
  "islower c = map_option (\<lambda>f. f AND 0b00001100 = 0b0100) (ascii_flags c)"

definition isalpha :: "u8 \<Rightarrow> bool option" where
  "isalpha c = map_option (\<lambda>f. f AND 0b00000100 > 0) (ascii_flags c)"

definition isdigit :: "u8 \<Rightarrow> bool option" where
  "isdigit c = map_option (\<lambda>f. f AND 0b00000010 > 0) (ascii_flags c)"

definition isxdigit :: "u8 \<Rightarrow> bool option" where
  "isxdigit c = map_option (\<lambda>f. f AND 0b01000000 > 0) (ascii_flags c)"

definition isalnum :: "u8 \<Rightarrow> bool option" where
  "isalnum c = map_option (\<lambda>f. f AND 0b00000110 > 0) (ascii_flags c)"

definition ispunct :: "u8 \<Rightarrow> bool option" where
  "ispunct c = map_option (\<lambda>f. f AND 0b00001100 = 0b1000) (ascii_flags c)"

definition isgraph :: "u8 \<Rightarrow> bool option" where
  "isgraph c = map_option (\<lambda>f. f AND 0b10000000 > 0) (ascii_flags c)"

definition isprint :: "u8 \<Rightarrow> bool option" where
  "isprint c = map_option (\<lambda>f. f AND 0b00000001 = 0) (ascii_flags c)"

subsection \<open>The classes by code point\<close>

definition cc_digit :: "nat \<Rightarrow> bool" where "cc_digit n \<longleftrightarrow> 48 \<le> n \<and> n \<le> 57"
definition cc_upper :: "nat \<Rightarrow> bool" where "cc_upper n \<longleftrightarrow> 65 \<le> n \<and> n \<le> 90"
definition cc_lower :: "nat \<Rightarrow> bool" where "cc_lower n \<longleftrightarrow> 97 \<le> n \<and> n \<le> 122"
definition cc_space :: "nat \<Rightarrow> bool" where "cc_space n \<longleftrightarrow> 9 \<le> n \<and> n \<le> 13 \<or> n = 32"
definition cc_xdigit :: "nat \<Rightarrow> bool" where
  "cc_xdigit n \<longleftrightarrow> cc_digit n \<or> 65 \<le> n \<and> n \<le> 70 \<or> 97 \<le> n \<and> n \<le> 102"
definition cc_cntrl :: "nat \<Rightarrow> bool" where "cc_cntrl n \<longleftrightarrow> n < 32 \<or> n = 127"

definition class_agrees :: "u8 \<Rightarrow> bool" where
  "class_agrees c \<longleftrightarrow>
     (let n = unat c in
      iscntrl c = Some (cc_cntrl n) \<and> isblank c = Some (n = 9 \<or> n = 32) \<and> isspace c = Some (cc_space n) \<and>
      isupper c = Some (cc_upper n) \<and> islower c = Some (cc_lower n) \<and>
      isalpha c = Some (cc_upper n \<or> cc_lower n) \<and> isdigit c = Some (cc_digit n) \<and>
      isxdigit c = Some (cc_xdigit n) \<and> isalnum c = Some (cc_digit n \<or> cc_upper n \<or> cc_lower n) \<and>
      isgraph c = Some (32 < n \<and> n < 127) \<and> isprint c = Some (\<not> cc_cntrl n) \<and>
      ispunct c = Some (32 < n \<and> n < 127 \<and> \<not> cc_digit n \<and> \<not> cc_upper n \<and> \<not> cc_lower n))"

definition flag_agrees :: "u8 \<Rightarrow> nat \<Rightarrow> bool" where
  "flag_agrees f n \<longleftrightarrow>
     (f AND 0b00000001 > 0) = cc_cntrl n \<and> (f AND 0b00010000 > 0) = (n = 9 \<or> n = 32) \<and>
     (f AND 0b00100000 > 0) = cc_space n \<and> (f AND 0b00001100 = 0b1100) = cc_upper n \<and>
     (f AND 0b00001100 = 0b0100) = cc_lower n \<and> (f AND 0b00000100 > 0) = (cc_upper n \<or> cc_lower n) \<and>
     (f AND 0b00000010 > 0) = cc_digit n \<and> (f AND 0b01000000 > 0) = cc_xdigit n \<and>
     (f AND 0b00000110 > 0) = (cc_digit n \<or> cc_upper n \<or> cc_lower n) \<and>
     (f AND 0b10000000 > 0) = (32 < n \<and> n < 127) \<and> (f AND 0b00000001 = 0) = (\<not> cc_cntrl n) \<and>
     (f AND 0b00001100 = 0b1000) = (32 < n \<and> n < 127 \<and> \<not> cc_digit n \<and> \<not> cc_upper n \<and> \<not> cc_lower n)"

lemma flag_check: "list_all2 flag_agrees ASCII_FLAGS [0..<128]"
  by code_simp

lemma class_all:
  assumes "unat c < 128"
  shows "class_agrees c"
proof -
  have len: "length ASCII_FLAGS = 128" by (simp add: ASCII_FLAGS_def)
  have "flag_agrees (ASCII_FLAGS ! unat c) (unat c)"
    using list_all2_nthD [OF flag_check, of "unat c"] assms by (simp add: len)
  then show ?thesis
    using assms
    by (simp add: flag_agrees_def class_agrees_def Let_def ascii_flags_def len iscntrl_def isblank_def
        isspace_def isupper_def islower_def isalpha_def isdigit_def isxdigit_def isalnum_def ispunct_def
        isgraph_def isprint_def)
qed


lemmas ctype_ascii = class_all [unfolded class_agrees_def Let_def]

end
