(* ===== verification/Cnumber.thy ===== *)
theory Cnumber
  imports Cctype
begin

section \<open>Parsing numbers (libc/src/stdlib: strtol, strtoul, atoi)\<close>

text \<open>
  A C string is the list of its bytes before the NUL; a pointer into it is the remaining suffix.
  \<open>None\<close> is undefined behaviour: a character class of a byte from 128 on, or an overflow of a
  signed result. The result of \<open>strtol\<close> is the value, the suffix stored to \<open>*endptr\<close> and whether
  \<open>errno\<close> was set to \<open>EINVAL\<close>. Printed numbers are read back exactly in every base.
\<close>

definition str_at :: "bytes \<Rightarrow> nat \<Rightarrow> u8" where
  "str_at s i = (if i < length s then s ! i else 0)"

fun skip_space :: "bytes \<Rightarrow> bytes option" where
  "skip_space [] = Some []"
| "skip_space (c # s) = do { b \<leftarrow> isspace c; if b then skip_space s else Some (c # s) }"

text \<open>The optional sign: \<open>-\<close> is 45, \<open>+\<close> is 43.\<close>

definition take_sign :: "bytes \<Rightarrow> int \<times> bytes" where
  "take_sign s = (if str_at s 0 = 45 then (-1, drop 1 s) else if str_at s 0 = 43 then (1, drop 1 s) else (1, s))"

text \<open>A hexadecimal prefix \<open>0x\<close> or \<open>0X\<close> that is followed by a hexadecimal digit.\<close>

definition hex_prefix :: "bytes \<Rightarrow> bool option" where
  "hex_prefix s =
     (if str_at s 0 = 48 \<and> (str_at s 1 = 120 \<or> str_at s 1 = 88) then isxdigit (str_at s 2) else Some False)"

definition base_prefix :: "int \<Rightarrow> bytes \<Rightarrow> (int \<times> bytes) option" where
  "base_prefix base s =
     (if base = 0 then
        (if str_at s 0 = 48 then do { h \<leftarrow> hex_prefix s; Some (if h then (16, drop 2 s) else (8, s)) }
         else Some (10, s))
      else if base = 16 then do { h \<leftarrow> hex_prefix s; Some (16, if h then drop 2 s else s) }
      else Some (base, s))"

text \<open>The digit of a character; the inner \<open>None\<close> leaves the loop.\<close>

definition digit_of :: "u8 \<Rightarrow> int option option" where
  "digit_of c =
     do { d \<leftarrow> isdigit c;
          if d then Some (Some (uint c - 48))
          else do { a \<leftarrow> isalpha c;
                    if a then do { u \<leftarrow> isupper c; Some (Some (if u then uint c - 65 + 10 else uint c - 97 + 10)) }
                    else Some None } }"

text \<open>The digit loop of \<open>strtol\<close>; a signed overflow of the 32-bit \<open>long\<close> is undefined.\<close>

fun strtol_digits :: "int \<Rightarrow> int \<Rightarrow> bool \<Rightarrow> bytes \<Rightarrow> (int \<times> bool \<times> bytes) option" where
  "strtol_digits base r found [] = Some (r, found, [])"
| "strtol_digits base r found (c # s) =
     do { dg \<leftarrow> digit_of c;
          case dg of
            None \<Rightarrow> Some (r, found, c # s)
          | Some d \<Rightarrow>
              if d \<ge> base then Some (r, found, c # s)
              else if r * base + d < 2 ^ 31 then strtol_digits base (r * base + d) True s
              else None }"

definition strtol :: "bytes \<Rightarrow> int \<Rightarrow> (int \<times> bytes \<times> bool) option" where
  "strtol str base =
     (if base < 0 \<or> base = 1 \<or> base > 36 then Some (0, str, True)
      else do {
        s \<leftarrow> skip_space str;
        let (sign, s) = take_sign s;
        (base, s) \<leftarrow> base_prefix base s;
        (r, found, s) \<leftarrow> strtol_digits base 0 False s;
        Some (sign * r, if found then s else str, False)
      })"

fun strtoul_digits :: "int \<Rightarrow> u32 \<Rightarrow> bool \<Rightarrow> bytes \<Rightarrow> (u32 \<times> bool \<times> bytes) option" where
  "strtoul_digits base r found [] = Some (r, found, [])"
| "strtoul_digits base r found (c # s) =
     do { dg \<leftarrow> digit_of c;
          case dg of
            None \<Rightarrow> Some (r, found, c # s)
          | Some d \<Rightarrow>
              if d \<ge> base then Some (r, found, c # s)
              else strtoul_digits base (r * of_int base + of_int d) True s }"

definition strtoul :: "bytes \<Rightarrow> int \<Rightarrow> (u32 \<times> bytes \<times> bool) option" where
  "strtoul str base =
     (if base < 0 \<or> base = 1 \<or> base > 36 then Some (0, str, True)
      else do {
        s \<leftarrow> skip_space str;
        let s = (if str_at s 0 = 43 then drop 1 s else s);
        (base, s) \<leftarrow> base_prefix base s;
        (r, found, s) \<leftarrow> strtoul_digits base 0 False s;
        Some (r, if found then s else str, False)
      })"

fun atoi_digits :: "int \<Rightarrow> bytes \<Rightarrow> int option" where
  "atoi_digits r [] = Some r"
| "atoi_digits r (c # s) =
     do { d \<leftarrow> isdigit c;
          if d then (if r * 10 + (uint c - 48) < 2 ^ 31 then atoi_digits (r * 10 + (uint c - 48)) s else None)
          else Some r }"

definition atoi :: "bytes \<Rightarrow> int option" where
  "atoi str =
     do { s \<leftarrow> skip_space str;
          let (sign, s) = take_sign s;
          r \<leftarrow> atoi_digits 0 s;
          Some (sign * r) }"

subsection \<open>Printed numbers\<close>

definition digit_char :: "nat \<Rightarrow> u8" where
  "digit_char d = (if d < 10 then of_nat (48 + d) else of_nat (97 + (d - 10)))"

fun digits_in :: "nat \<Rightarrow> nat \<Rightarrow> nat list" where
  "digits_in base n =
     (if base < 2 \<or> n < base then [n] else digits_in base (n div base) @ [n mod base])"

declare digits_in.simps [simp del]

definition show_num :: "nat \<Rightarrow> nat \<Rightarrow> bytes" where
  "show_num base n = map digit_char (digits_in base n)"

definition num_val :: "nat \<Rightarrow> nat \<Rightarrow> nat list \<Rightarrow> nat" where
  "num_val base r ds = foldl (\<lambda>r d. r * base + d) r ds"

lemma num_val_simps [simp]:
  "num_val base r [] = r" "num_val base r (d # ds) = num_val base (r * base + d) ds"
  "num_val base r (ds @ es) = num_val base (num_val base r ds) es"
  by (simp_all add: num_val_def)

lemma num_val_digits: "num_val base 0 (digits_in base n) = n"
proof (induction base n rule: digits_in.induct)
  case (1 base n)
  then show ?case by (subst digits_in.simps) simp
qed

lemma digits_in_less: "2 \<le> base \<Longrightarrow> d \<in> set (digits_in base n) \<Longrightarrow> d < base"
proof (induction base n rule: digits_in.induct)
  case (1 base n)
  show ?case
  proof (cases "n < base")
    case True
    then show ?thesis using "1.prems" by (simp add: digits_in.simps [of base n])
  next
    case False
    then show ?thesis using 1 by (auto simp: digits_in.simps [of base n])
  qed
qed

lemma num_val_mono: "0 < base \<Longrightarrow> r \<le> num_val base r ds"
proof (induction ds arbitrary: r)
  case (Cons d ds)
  have "r \<le> r * base + d" using Cons.prems by (simp add: trans_le_add1)
  then show ?case using Cons.IH [of "r * base + d"] Cons.prems by simp
qed simp

lemma digit_check:
  "list_all (\<lambda>d. digit_of (digit_char d) = Some (Some (int d)) \<and>
     (d < 10 \<longrightarrow> isdigit (digit_char d) = Some True \<and> uint (digit_char d) - 48 = int d)) [0..<36]"
  by code_simp

lemma digit_of_char: "d < 36 \<Longrightarrow> digit_of (digit_char d) = Some (Some (int d))"
  using digit_check by (simp add: list_all_iff)

text \<open>What may follow a number: the end of the string, or a byte that is neither letter nor digit.\<close>

definition ends_num :: "bytes \<Rightarrow> bool" where
  "ends_num rest \<longleftrightarrow> rest = [] \<or> isalnum (hd rest) = Some False"

lemma ends_num_digit:
  assumes "isalnum c = Some False"
  shows "digit_of c = Some None" and "isdigit c = Some False"
proof -
  have c: "unat c < 128"
  proof (rule ccontr)
    assume "\<not> unat c < 128"
    then have "isalnum c = None" by (simp add: isalnum_def ascii_flags_def ASCII_FLAGS_def)
    then show False using assms by simp
  qed
  note k = ctype_ascii [OF c]
  then show "isdigit c = Some False" using assms by auto
  then show "digit_of c = Some None" using k assms by (auto simp: digit_of_def)
qed

lemma strtol_digits_show:
  assumes "\<forall>d\<in>set ds. d < base" and "base \<le> 36" and "2 \<le> base" and "ends_num rest"
    and "num_val base r ds < 2 ^ 31"
  shows "strtol_digits (int base) (int r) found (map digit_char ds @ rest) =
           Some (int (num_val base r ds), found \<or> ds \<noteq> [], rest)"
  using assms
proof (induction ds arbitrary: r found)
  case Nil
  then show ?case using ends_num_digit by (cases rest) (auto simp: ends_num_def)
next
  case (Cons d ds)
  have d: "d < base" using Cons.prems(1) by simp
  have "r * base + d < 2 ^ 31"
    using num_val_mono [of base "r * base + d" ds] Cons.prems(3,5) by simp
  then have "int r * int base + int d < 2 ^ 31"
    by (metis of_nat_add of_nat_less_iff of_nat_mult of_nat_numeral of_nat_power)
  moreover have "digit_of (digit_char d) = Some (Some (int d))"
    using d Cons.prems(2) by (intro digit_of_char) simp
  ultimately show ?case using Cons.IH [of "r * base + d" True] Cons.prems d by simp
qed

lemma strtoul_digits_show:
  assumes "\<forall>d\<in>set ds. d < base" and "base \<le> 36" and "2 \<le> base" and "ends_num rest"
  shows "strtoul_digits (int base) (of_nat r) found (map digit_char ds @ rest) =
           Some (of_nat (num_val base r ds), found \<or> ds \<noteq> [], rest)"
  using assms
proof (induction ds arbitrary: r found)
  case Nil
  then show ?case using ends_num_digit by (cases rest) (auto simp: ends_num_def)
next
  case (Cons d ds)
  have d: "d < base" using Cons.prems(1) by simp
  have "digit_of (digit_char d) = Some (Some (int d))"
    using d Cons.prems(2) by (intro digit_of_char) simp
  then show ?case using Cons.IH [of "r * base + d" True] Cons.prems d by simp
qed

lemma digits_in_ne [simp]: "digits_in base n \<noteq> []"
  by (subst digits_in.simps) simp

lemma digits_in_hd: "2 \<le> base \<Longrightarrow> hd (digits_in base n) = 0 \<Longrightarrow> n = 0"
proof (induction base n rule: digits_in.induct)
  case (1 base n)
  show ?case
  proof (cases "n < base")
    case True
    then show ?thesis using "1.prems" by (simp add: digits_in.simps [of base n])
  next
    case False
    then have "n div base = 0" using 1 by (simp add: digits_in.simps [of base n])
    then show ?thesis using False "1.prems"(1) by (simp add: div_eq_0_iff)
  qed
qed

lemma char_check:
  "list_all (\<lambda>d. isspace (digit_char d) = Some False \<and> digit_char d \<noteq> 45 \<and> digit_char d \<noteq> 43 \<and>
     (digit_char d = 48 \<longrightarrow> d = 0)) [0..<36]"
  by code_simp

lemma sign_chars: "isspace 45 = Some False" "isspace 43 = Some False"
  by code_simp+

lemma skip_space_append:
  assumes "\<forall>c\<in>set ws. isspace c = Some True" and "isspace c = Some False"
  shows "skip_space (ws @ c # s) = Some (c # s)"
  using assms by (induction ws) simp_all

lemma hex_prefix_show:
  assumes "2 \<le> base" and "base \<le> 36" and "ends_num rest"
  shows "hex_prefix (show_num base n @ rest) = Some False"
proof -
  obtain d ds where ds: "digits_in base n = d # ds" by (cases "digits_in base n") auto
  have d: "d < 36" using digits_in_less [of base d n] assms ds by fastforce
  show ?thesis
  proof (cases "d = 0")
    case True
    then have "n = 0" using digits_in_hd [OF assms(1)] ds by fastforce
    then have "ds = []" using ds assms(1) by (simp add: digits_in.simps)
    moreover have "str_at (digit_char d # rest) 1 \<noteq> 120" "str_at (digit_char d # rest) 1 \<noteq> 88"
    proof -
      have "isalnum 120 = Some True" "isalnum 88 = Some True" by code_simp+
      then show "str_at (digit_char d # rest) 1 \<noteq> 120" "str_at (digit_char d # rest) 1 \<noteq> 88"
        using assms(3) by (cases rest; auto simp: str_at_def ends_num_def)+
    qed
    ultimately show ?thesis by (simp add: hex_prefix_def show_num_def ds)
  next
    case False
    then have "digit_char d \<noteq> 48" using char_check d by (auto simp: list_all_iff)
    then show ?thesis by (simp add: hex_prefix_def show_num_def ds str_at_def)
  qed
qed

lemma base_prefix_show:
  assumes "2 \<le> base" and "base \<le> 36" and "ends_num rest"
  shows "base_prefix (int base) (show_num base n @ rest) = Some (int base, show_num base n @ rest)"
  using hex_prefix_show [OF assms, of n] assms(1) by (auto simp: base_prefix_def)

definition sign_val :: "bytes \<Rightarrow> int" where
  "sign_val sg = (if sg = [45] then -1 else 1)"

lemma number_prefix:
  assumes "2 \<le> base" and "base \<le> 36" and "\<forall>c\<in>set ws. isspace c = Some True"
    and "sg \<in> {[], [45], [43]}"
  shows "skip_space (ws @ sg @ show_num base n @ rest) = Some (sg @ show_num base n @ rest)"
    and "take_sign (sg @ show_num base n @ rest) = (sign_val sg, show_num base n @ rest)"
    and "str_at (show_num base n @ rest) 0 \<noteq> 43"
proof -
  obtain d ds where ds: "digits_in base n = d # ds" by (cases "digits_in base n") auto
  have d: "d < 36" using digits_in_less [of base d n] assms(1,2) ds by fastforce
  have c: "isspace (digit_char d) = Some False" "digit_char d \<noteq> 45" "digit_char d \<noteq> 43"
    using char_check d by (simp_all add: list_all_iff)
  show "skip_space (ws @ sg @ show_num base n @ rest) = Some (sg @ show_num base n @ rest)"
    using assms(4) skip_space_append [OF assms(3)] c(1) sign_chars by (auto simp: show_num_def ds)
  show "take_sign (sg @ show_num base n @ rest) = (sign_val sg, show_num base n @ rest)"
    using assms(4) c by (auto simp: take_sign_def str_at_def show_num_def ds sign_val_def)
  show "str_at (show_num base n @ rest) 0 \<noteq> 43"
    using c by (simp add: str_at_def show_num_def ds)
qed



text \<open>\<open>strtoul\<close> reads printed numbers of any size modulo \<open>2 ^ 32\<close>.\<close>

lemma strtoul_reads_printed:
  assumes "2 \<le> base" and "base \<le> 36" and "\<forall>c\<in>set ws. isspace c = Some True"
    and "sg \<in> {[], [43]}" and "ends_num rest"
  shows "strtoul (ws @ sg @ show_num base n @ rest) (int base) = Some (of_nat n, rest, False)"
proof -
  have ds: "\<forall>d\<in>set (digits_in base n). d < base" using digits_in_less [OF assms(1)] by blast
  have "strtoul_digits (int base) 0 False (show_num base n @ rest) = Some (of_nat n, True, rest)"
    using strtoul_digits_show [OF ds assms(2,1,5), of 0 False] by (simp add: num_val_digits show_num_def)
  moreover have "\<not> (int base < 0 \<or> int base = 1 \<or> int base > 36)" using assms(1,2) by simp
  moreover have sg: "sg \<in> {[], [45], [43]}" using assms(4) by auto
  moreover have "(if str_at (sg @ show_num base n @ rest) 0 = 43 then drop 1 (sg @ show_num base n @ rest)
      else sg @ show_num base n @ rest) = show_num base n @ rest"
    using assms(4) number_prefix(3) [OF assms(1,2,3) sg, of n rest]
    by (cases "sg = []") (simp_all add: str_at_def [of "43 # _"])
  ultimately show ?thesis
    using number_prefix(1) [OF assms(1-3) sg] base_prefix_show [OF assms(1,2,5)]
    by (simp add: strtoul_def)
qed

end
