(* ===== verification/Cqsort.thy ===== *)
theory Cqsort
  imports Prelude "HOL-Library.Multiset"
begin

section \<open>Sorting (libc/src/stdlib/qsort.c, qsort_r.c)\<close>

text \<open>
  \<open>qsort_r\<close> is a heap sort. The array is the list of its elements and the comparison function,
  with its extra argument applied, is a function to the integers. Exchanging the bytes of two
  elements exchanges the elements. Positions are natural numbers: an array of elements of at
  least one byte has fewer than \<open>2 ^ 32\<close> of them.
\<close>

text \<open>The byte loop of \<open>swap\<close> on the bytes of two elements.\<close>

fun swap_bytes :: "bytes \<Rightarrow> bytes \<Rightarrow> bytes \<times> bytes" where
  "swap_bytes (a # as) (b # bs) = (let (as1, bs1) = swap_bytes as bs in (b # as1, a # bs1))"
| "swap_bytes as bs = (as, bs)"

lemma swap_bytes_eq: "length as = length bs \<Longrightarrow> swap_bytes as bs = (bs, as)"
  by (induction as bs rule: swap_bytes.induct) auto

definition swap :: "'e list \<Rightarrow> nat \<Rightarrow> nat \<Rightarrow> 'e list" where
  "swap xs i j = xs[i := xs ! j, j := xs ! i]"

function sift_down :: "('e \<Rightarrow> 'e \<Rightarrow> int) \<Rightarrow> 'e list \<Rightarrow> nat \<Rightarrow> nat \<Rightarrow> 'e list" where
  "sift_down cmp xs root lim =
     (let child = 2 * root + 1 in
      if child \<ge> lim then xs
      else
        let child = (if child + 1 < lim \<and> cmp (xs ! child) (xs ! (child + 1)) < 0 then child + 1 else child) in
        if cmp (xs ! root) (xs ! child) \<ge> 0 then xs
        else sift_down cmp (swap xs root child) child lim)"
  by pat_completeness auto
termination
  by (relation "measure (\<lambda>(cmp, xs, root, lim). lim - root)") (auto split: if_splits)

declare sift_down.simps [simp del]

text \<open>Phase 1, \<open>for (i = n / 2; i-- > 0; )\<close>, and phase 2, \<open>for (end = n - 1; end > 0; end--)\<close>.\<close>

fun build_heap :: "('e \<Rightarrow> 'e \<Rightarrow> int) \<Rightarrow> 'e list \<Rightarrow> nat \<Rightarrow> nat \<Rightarrow> 'e list" where
  "build_heap cmp xs n 0 = xs"
| "build_heap cmp xs n (Suc i) = build_heap cmp (sift_down cmp xs i n) n i"

fun sort_heap :: "('e \<Rightarrow> 'e \<Rightarrow> int) \<Rightarrow> 'e list \<Rightarrow> nat \<Rightarrow> 'e list" where
  "sort_heap cmp xs 0 = xs"
| "sort_heap cmp xs (Suc e) = sort_heap cmp (sift_down cmp (swap xs 0 (Suc e)) 0 (Suc e)) e"

definition qsort_r :: "'e list \<Rightarrow> ('e \<Rightarrow> 'e \<Rightarrow> int) \<Rightarrow> 'e list" where
  "qsort_r base compar =
     (let n = length base in
      if n \<le> 2 then base
      else sort_heap compar (build_heap compar base n (n div 2)) (n - 1))"

definition qsort :: "'e list \<Rightarrow> ('e \<Rightarrow> 'e \<Rightarrow> int) \<Rightarrow> 'e list" where
  "qsort base compar = qsort_r base (\<lambda>a b. compar a b)"

subsection \<open>Heaps\<close>

text \<open>What the documentation asks of a comparison function.\<close>

definition total_cmp :: "('e \<Rightarrow> 'e \<Rightarrow> int) \<Rightarrow> bool" where
  "total_cmp cmp \<longleftrightarrow> (\<forall>a b. cmp a b < 0 \<longleftrightarrow> cmp b a > 0) \<and>
     (\<forall>a b c. cmp a b \<le> 0 \<longrightarrow> cmp b c \<le> 0 \<longrightarrow> cmp a c \<le> 0)"

abbreviation geq :: "('e \<Rightarrow> 'e \<Rightarrow> int) \<Rightarrow> 'e \<Rightarrow> 'e \<Rightarrow> bool" where
  "geq cmp a b \<equiv> cmp b a \<le> 0"

lemma total_cmpD:
  assumes "total_cmp cmp"
  shows "cmp a b \<ge> 0 \<longleftrightarrow> geq cmp a b" and "\<not> geq cmp a b \<Longrightarrow> geq cmp b a"
    and "geq cmp a b \<Longrightarrow> geq cmp b c \<Longrightarrow> geq cmp a c" and "cmp a b < 0 \<Longrightarrow> geq cmp b a"
  using assms unfolding total_cmp_def by (meson less_le_not_le linorder_not_less)+

definition is_child :: "nat \<Rightarrow> nat \<Rightarrow> bool" where
  "is_child p c \<longleftrightarrow> c = 2 * p + 1 \<or> c = 2 * p + 2"

definition heap_from :: "('e \<Rightarrow> 'e \<Rightarrow> int) \<Rightarrow> 'e list \<Rightarrow> nat \<Rightarrow> nat \<Rightarrow> bool" where
  "heap_from cmp xs lo lim \<longleftrightarrow>
     (\<forall>p c. lo \<le> p \<longrightarrow> is_child p c \<longrightarrow> c < lim \<longrightarrow> geq cmp (xs ! p) (xs ! c))"

text \<open>A heap except for the element at the root, whose children are below its parent.\<close>

definition heap_but :: "('e \<Rightarrow> 'e \<Rightarrow> int) \<Rightarrow> 'e list \<Rightarrow> nat \<Rightarrow> nat \<Rightarrow> nat \<Rightarrow> bool" where
  "heap_but cmp xs lo root lim \<longleftrightarrow>
     (\<forall>p c. lo \<le> p \<longrightarrow> p \<noteq> root \<longrightarrow> is_child p c \<longrightarrow> c < lim \<longrightarrow> geq cmp (xs ! p) (xs ! c)) \<and>
     (\<forall>p c. lo \<le> p \<longrightarrow> is_child p root \<longrightarrow> is_child root c \<longrightarrow> c < lim \<longrightarrow> geq cmp (xs ! p) (xs ! c))"

lemma swap_nth:
  "i < length xs \<Longrightarrow> j < length xs \<Longrightarrow>
     swap xs i j ! k = (if k = j then xs ! i else if k = i then xs ! j else xs ! k)"
  by (simp add: swap_def nth_list_update)

lemma length_swap [simp]: "length (swap xs i j) = length xs"
  by (simp add: swap_def)

lemma mset_swap_elems: "i < length xs \<Longrightarrow> j < length xs \<Longrightarrow> mset (swap xs i j) = mset xs"
  using mset_swap [of j xs i] by (simp add: swap_def)

text \<open>The larger child, and that moving it up leaves a heap but for the place it came from.\<close>

definition larger_child :: "('e \<Rightarrow> 'e \<Rightarrow> int) \<Rightarrow> 'e list \<Rightarrow> nat \<Rightarrow> nat \<Rightarrow> nat" where
  "larger_child cmp xs root lim =
     (if 2 * root + 1 + 1 < lim \<and> cmp (xs ! (2 * root + 1)) (xs ! (2 * root + 1 + 1)) < 0
      then 2 * root + 1 + 1 else 2 * root + 1)"

lemma sift_down_unfold:
  "sift_down cmp xs root lim =
     (if 2 * root + 1 \<ge> lim then xs
      else if cmp (xs ! root) (xs ! larger_child cmp xs root lim) \<ge> 0 then xs
      else sift_down cmp (swap xs root (larger_child cmp xs root lim)) (larger_child cmp xs root lim) lim)"
  by (subst sift_down.simps) (simp add: larger_child_def Let_def)

lemma larger_child:
  assumes "total_cmp cmp" and "2 * root + 1 < lim"
  shows "is_child root (larger_child cmp xs root lim)" and "larger_child cmp xs root lim < lim"
    and "is_child root c \<Longrightarrow> c < lim \<Longrightarrow> geq cmp (xs ! larger_child cmp xs root lim) (xs ! c)"
proof -
  note tc = total_cmpD [OF assms(1)]
  have refl: "geq cmp a a" for a
    using tc(2) [of a a] by blast
  show "is_child root (larger_child cmp xs root lim)" "larger_child cmp xs root lim < lim"
    using assms(2) by (auto simp: larger_child_def is_child_def)
  show "geq cmp (xs ! larger_child cmp xs root lim) (xs ! c)" if "is_child root c" "c < lim"
    using that refl tc(4) tc(1) by (auto simp: larger_child_def is_child_def not_less)
qed

lemma is_child_gt: "is_child p c \<Longrightarrow> p < c"
  by (auto simp: is_child_def)

lemma is_child_parent: "is_child p c \<Longrightarrow> is_child q c \<Longrightarrow> p = q"
  unfolding is_child_def by presburger

lemma heap_but_swap:
  assumes "total_cmp cmp" and "lim \<le> length xs" and "lo \<le> root" and "heap_but cmp xs lo root lim"
    and "2 * root + 1 < lim" and "\<not> cmp (xs ! root) (xs ! ch) \<ge> 0"
    and ch: "ch = larger_child cmp xs root lim"
  shows "heap_but cmp (swap xs root ch) lo ch lim"
proof -
  note tc = total_cmpD [OF assms(1)]
  note lc = larger_child [OF assms(1,5), where xs = xs, folded ch]
  have lt: "root < ch" "ch < lim"
    using lc is_child_gt by blast+
  have inr: "root < length xs" "ch < length xs"
    using lt assms(2) by simp_all
  note sw = swap_nth [OF inr]
  have up: "geq cmp (xs ! ch) (xs ! root)"
    using assms(6) tc(1,2) by blast
  have H1: "geq cmp (xs ! p) (xs ! c)" if "lo \<le> p" "p \<noteq> root" "is_child p c" "c < lim" for p c
    using assms(4) that unfolding heap_but_def by blast
  have H2: "geq cmp (xs ! p) (xs ! c)" if "lo \<le> p" "is_child p root" "is_child root c" "c < lim" for p c
    using assms(4) that unfolding heap_but_def by blast
  have "geq cmp (swap xs root ch ! p) (swap xs root ch ! c)"
    if a: "lo \<le> p" "p \<noteq> ch" "is_child p c" "c < lim" for p c
  proof (cases "p = root")
    case True
    then show ?thesis
      using a up lc(3) [of c] lt unfolding sw by (auto dest: is_child_gt)
  next
    case False
    then have "c \<noteq> ch"
      using a(3) lc(1) is_child_parent by blast
    then show ?thesis
      using a False H1 [of p c] H2 [of p ch] lc(1,2) unfolding sw by auto
  qed
  moreover have "geq cmp (swap xs root ch ! p) (swap xs root ch ! c)"
    if a: "lo \<le> p" "is_child p ch" "is_child ch c" "c < lim" for p c
  proof -
    have "p = root" "ch < c"
      using a lc(1) is_child_parent is_child_gt by blast+
    then show ?thesis
      using H1 [of ch c] a lt assms(3) unfolding sw by auto
  qed
  ultimately show ?thesis
    unfolding heap_but_def by blast
qed

lemma sift_down_spec:
  assumes "total_cmp cmp" and "lim \<le> length xs" and "lo \<le> root" and "heap_but cmp xs lo root lim"
  shows "heap_from cmp (sift_down cmp xs root lim) lo lim \<and>
         mset (sift_down cmp xs root lim) = mset xs \<and>
         (\<forall>k. k < root \<or> lim \<le> k \<longrightarrow> sift_down cmp xs root lim ! k = xs ! k)"
  using assms(2-)
proof (induction "lim - root" arbitrary: xs root rule: less_induct)
  case less
  note tc = total_cmpD [OF assms(1)]
  define ch where "ch = larger_child cmp xs root lim"
  have stop: "heap_from cmp xs lo lim"
    if "\<And>c. is_child root c \<Longrightarrow> c < lim \<Longrightarrow> geq cmp (xs ! root) (xs ! c)"
    using less.prems(3) that unfolding heap_but_def heap_from_def by metis
  show ?case
  proof (cases "2 * root + 1 \<ge> lim")
    case True
    then show ?thesis
      using stop by (auto simp: sift_down_unfold [of cmp xs] is_child_def)
  next
    case False
    then have lim: "2 * root + 1 < lim" by simp
    note lc = larger_child [OF assms(1) lim, where xs = xs, folded ch_def]
    have lt: "root < ch" "ch < lim"
      using lc is_child_gt by blast+
    show ?thesis
    proof (cases "cmp (xs ! root) (xs ! ch) \<ge> 0")
      case True
      then have "heap_from cmp xs lo lim"
        using stop lc(3) tc(1,3) by blast
      then show ?thesis
        using True False by (simp add: sift_down_unfold [of cmp xs] ch_def)
    next
      case no: False
      have eq: "sift_down cmp xs root lim = sift_down cmp (swap xs root ch) ch lim"
        using no False by (subst sift_down_unfold) (simp add: ch_def)
      have inr: "root < length xs" "ch < length xs"
        using lt less.prems(1) by simp_all
      have IH: "heap_from cmp (sift_down cmp (swap xs root ch) ch lim) lo lim \<and>
          mset (sift_down cmp (swap xs root ch) ch lim) = mset (swap xs root ch) \<and>
          (\<forall>k. k < ch \<or> lim \<le> k \<longrightarrow> sift_down cmp (swap xs root ch) ch lim ! k = swap xs root ch ! k)"
        using lt less.prems by (intro less.hyps heap_but_swap [OF assms(1) _ _ _ lim no ch_def]) simp_all
      then show ?thesis
        unfolding eq using lt by (simp add: mset_swap_elems [OF inr] swap_nth [OF inr])
    qed
  qed
qed

lemma length_sift_down [simp]: "length (sift_down cmp xs root lim) = length xs"
  by (induction cmp xs root lim rule: sift_down.induct) (subst sift_down.simps, simp add: Let_def)

lemma heap_root_max:
  assumes "total_cmp cmp" and "heap_from cmp xs 0 lim" and "i < lim"
  shows "geq cmp (xs ! 0) (xs ! i)"
  using assms(3)
proof (induction i rule: less_induct)
  case (less i)
  note tc = total_cmpD [OF assms(1)]
  show ?case
  proof (cases i)
    case 0
    then show ?thesis using tc(2) [of "xs ! 0" "xs ! 0"] by auto
  next
    case (Suc k)
    have ch: "is_child (k div 2) i"
      unfolding Suc is_child_def by presburger
    then have "geq cmp (xs ! (k div 2)) (xs ! i)"
      using assms(2) less.prems unfolding heap_from_def by blast
    moreover have "geq cmp (xs ! 0) (xs ! (k div 2))"
      using less ch is_child_gt by (metis less_trans)
    ultimately show ?thesis using tc(3) by blast
  qed
qed

lemma build_heap_spec:
  assumes "total_cmp cmp"
  shows "heap_from cmp xs i (length xs) \<Longrightarrow>
    heap_from cmp (build_heap cmp xs (length xs) i) 0 (length xs) \<and>
    mset (build_heap cmp xs (length xs) i) = mset xs"
proof (induction i arbitrary: xs)
  case (Suc i)
  have "heap_but cmp xs i i (length xs)"
    using Suc.prems by (auto simp: heap_but_def heap_from_def dest: is_child_gt)
  then show ?case
    using sift_down_spec [OF assms order_refl order_refl] Suc.IH [of "sift_down cmp xs i (length xs)"]
    by simp
qed simp

text \<open>The invariant of phase 2: a heap up to \<open>e\<close>, and from there on the sorted largest elements.\<close>

definition sort_inv :: "('e \<Rightarrow> 'e \<Rightarrow> int) \<Rightarrow> 'e list \<Rightarrow> nat \<Rightarrow> bool" where
  "sort_inv cmp xs e \<longleftrightarrow> e < length xs \<and> heap_from cmp xs 0 (Suc e) \<and>
     (\<forall>i j. i < j \<longrightarrow> e < j \<longrightarrow> j < length xs \<longrightarrow> geq cmp (xs ! j) (xs ! i))"

lemma take_same_set:
  assumes "mset xs = mset ys" and "\<forall>k. lim \<le> k \<longrightarrow> xs ! k = ys ! k"
  shows "set (take lim xs) = set (take lim ys)"
proof -
  have len: "length xs = length ys"
    using assms(1) mset_eq_length by blast
  have "drop lim xs = drop lim ys"
    using len assms(2) by (intro nth_equalityI) simp_all
  moreover have "mset (take lim xs) + mset (drop lim xs) = mset (take lim ys) + mset (drop lim ys)"
    using assms(1) by (simp flip: mset_append)
  ultimately have "mset (take lim xs) = mset (take lim ys)"
    by simp
  then show ?thesis
    by (metis set_mset_mset)
qed

lemma sort_inv_step:
  assumes tc: "total_cmp cmp" and inv: "sort_inv cmp xs (Suc e)"
  defines "ys \<equiv> swap xs 0 (Suc e)"
  shows "sort_inv cmp (sift_down cmp ys 0 (Suc e)) e \<and> mset (sift_down cmp ys 0 (Suc e)) = mset xs"
proof -
  define zs where "zs = sift_down cmp ys 0 (Suc e)"
  have len: "Suc e < length xs" "0 < length xs"
    using inv by (auto simp: sort_inv_def)
  note sw = swap_nth [OF len(2,1), folded ys_def]
  have lens: "length ys = length xs" "length zs = length xs"
    by (simp_all add: ys_def zs_def)
  have heap: "heap_from cmp xs 0 (Suc (Suc e))"
    using inv by (simp add: sort_inv_def)
  have "heap_but cmp ys 0 0 (Suc e)"
    using heap unfolding heap_but_def heap_from_def sw
    by (auto dest: is_child_gt)
  then have spec: "heap_from cmp zs 0 (Suc e)" "mset zs = mset ys" "\<forall>k. Suc e \<le> k \<longrightarrow> zs ! k = ys ! k"
    using sift_down_spec [OF tc, of "Suc e" ys 0 0] len by (simp_all add: zs_def lens)
  have low: "\<exists>i' \<le> Suc e. zs ! i = xs ! i'" if "i \<le> e" for i
  proof -
    have "zs ! i \<in> set (take (Suc e) zs)"
      unfolding in_set_conv_nth using that len lens by (intro exI [of _ i]) simp
    then obtain k where "k < Suc e" "zs ! i = ys ! k"
      using take_same_set [OF spec(2,3)] by (auto simp: in_set_conv_nth)
    then show ?thesis
      unfolding sw using le_SucI less_Suc_eq_le by (metis le_refl zero_le)
  qed
  have max: "geq cmp (xs ! 0) (xs ! k)" if "k \<le> Suc e" for k
    using heap_root_max [OF tc heap] that by simp
  have sort: "geq cmp (xs ! j) (xs ! i)" if "i < j" "Suc e < j" "j < length xs" for i j
    using inv that by (simp add: sort_inv_def)
  have "geq cmp (zs ! j) (zs ! i)" if a: "i < j" "e < j" "j < length zs" for i j
  proof -
    have zj: "zs ! j = (if j = Suc e then xs ! 0 else xs ! j)"
      using spec(3) a by (simp add: sw)
    show ?thesis
    proof (cases "i \<le> e")
      case True
      then obtain i' where "i' \<le> Suc e" "zs ! i = xs ! i'"
        using low by blast
      then show ?thesis
        using zj max [of i'] sort [of i' j] a lens by (cases "j = Suc e") auto
    next
      case False
      then have "zs ! i = (if i = Suc e then xs ! 0 else xs ! i)" "Suc e < j"
        using spec(3) a by (simp_all add: sw)
      then show ?thesis
        using zj sort [of i j] sort [of 0 j] a lens by auto
    qed
  qed
  then have "sort_inv cmp zs e"
    unfolding sort_inv_def using spec(1) len lens by simp
  then show ?thesis
    using spec(2) mset_swap_elems [OF len(2,1)] by (simp add: zs_def ys_def)
qed

lemma sort_heap_spec:
  assumes "total_cmp cmp"
  shows "sort_inv cmp xs e \<Longrightarrow> sort_inv cmp (sort_heap cmp xs e) 0 \<and> mset (sort_heap cmp xs e) = mset xs"
proof (induction e arbitrary: xs)
  case (Suc e)
  then show ?case
    using sort_inv_step [OF assms Suc.prems] Suc.IH by simp
qed simp

lemma qsort_r_spec:
  assumes "total_cmp cmp" and "length xs \<noteq> 2"
  shows "sorted_wrt (\<lambda>a b. cmp a b \<le> 0) (qsort_r xs cmp) \<and> mset (qsort_r xs cmp) = mset xs"
proof (cases "length xs \<le> 2")
  case True
  then have "length xs \<le> 1"
    using assms(2) by simp
  then have "sorted_wrt (\<lambda>a b. cmp a b \<le> 0) xs"
    by (cases xs) auto
  then show ?thesis
    using True by (simp add: qsort_r_def)
next
  case False
  define hs where "hs = build_heap cmp xs (length xs) (length xs div 2)"
  have "heap_from cmp xs (length xs div 2) (length xs)"
    unfolding heap_from_def is_child_def by auto
  from build_heap_spec [OF assms(1) this]
  have hs: "heap_from cmp hs 0 (length xs)" "mset hs = mset xs"
    by (simp_all add: hs_def)
  have len: "length hs = length xs"
    using hs(2) mset_eq_length by blast
  have "sort_inv cmp hs (length xs - 1)"
    using hs(1) False unfolding sort_inv_def len by (cases "length xs") auto
  from sort_heap_spec [OF assms(1) this]
  have "sort_inv cmp (qsort_r xs cmp) 0" "mset (qsort_r xs cmp) = mset xs"
    using False hs(2) by (simp_all add: qsort_r_def hs_def [symmetric])
  then show ?thesis
    by (simp add: sort_inv_def sorted_wrt_iff_nth_less)
qed

subsection \<open>Properties\<close>

text \<open>C18. On every array that does not have exactly two elements, and for every comparison function
  that is a total preorder, \<open>qsort\<close> returns and leaves a sorted permutation of the array.\<close>

theorem qsort_sorts:
  assumes "total_cmp cmp" and "length xs \<noteq> 2"
  shows "sorted_wrt (\<lambda>a b. cmp a b \<le> 0) (qsort xs cmp) \<and> mset (qsort xs cmp) = mset xs"
  using qsort_r_spec [OF assms] by (simp add: qsort_def)

theorem qsort_sorts_witness:
  "sorted_wrt (\<lambda>a b. a - b \<le> 0) (qsort [3, 1, 2 :: int] (-)) \<and> mset (qsort [3, 1, 2 :: int] (-)) = {#1, 2, 3#}"
  using qsort_sorts [of "(-)" "[3, 1, 2 :: int]"] by (simp add: total_cmp_def add_mset_commute)


end
