(* ===== verification/Dll.thy ===== *)
theory Dll
  imports Prelude
begin

section \<open>Doubly linked lists\<close>

text \<open>
  The kernel threads doubly linked lists through headers at arbitrary addresses. \<open>dll nx pv nl p h xs\<close>
  says that the nodes from \<open>h\<close> on, following \<open>nx\<close> up to the null value \<open>nl\<close>, are \<open>xs\<close>, and that
  \<open>pv\<close> leads back, to \<open>p\<close> from the first one. The lemmas give the frame rule, insertion at
  the head and removal of a node; the components use them through their own header maps.
\<close>

fun dll :: "('a \<Rightarrow> 'a) \<Rightarrow> ('a \<Rightarrow> 'a) \<Rightarrow> 'a \<Rightarrow> 'a \<Rightarrow> 'a \<Rightarrow> 'a list \<Rightarrow> bool" where
  "dll nx pv nl p h [] \<longleftrightarrow> h = nl"
| "dll nx pv nl p h (x # xs) \<longleftrightarrow> h = x \<and> x \<noteq> nl \<and> pv x = p \<and> dll nx pv nl x (nx x) xs"

lemma dll_cong:
  "(\<And>x. x \<in> set xs \<Longrightarrow> nx' x = nx x \<and> pv' x = pv x) \<Longrightarrow> dll nx' pv' nl p h xs = dll nx pv nl p h xs"
  by (induction xs arbitrary: p h) auto

lemma dll_null: "dll nx pv nl p h xs \<Longrightarrow> nl \<notin> set xs"
  by (induction xs arbitrary: p h) auto

lemma dll_head: "dll nx pv nl p h xs \<Longrightarrow> h = (case xs of [] \<Rightarrow> nl | x # _ \<Rightarrow> x)"
  by (cases xs) auto

lemma dll_empty_iff: "dll nx pv nl p h xs \<Longrightarrow> h = nl \<longleftrightarrow> xs = []"
  by (cases xs) auto

lemma dll_push:
  assumes "dll nx pv nl nl h xs" and "x \<notin> set xs" and "x \<noteq> nl" and "distinct xs"
    and "\<And>y. y \<in> set xs \<Longrightarrow> nx' y = nx y" and "nx' x = h" and "pv' x = nl"
    and "\<And>y. y \<in> set xs \<Longrightarrow> pv' y = (if y = h then x else pv y)"
  shows "dll nx' pv' nl nl x (x # xs)"
proof (cases xs)
  case Nil
  then show ?thesis using assms by simp
next
  case (Cons z zs)
  have "dll nx' pv' nl z (nx z) zs = dll nx pv nl z (nx z) zs"
    using assms Cons by (intro dll_cong) auto
  then show ?thesis
    using assms Cons by auto
qed

lemma dll_remove_split:
  assumes "dll nx pv nl p h (ys @ x # zs)" and "distinct (p # ys @ x # zs)"
  shows "dll (nx(pv x := nx x)) (pv(nx x := pv x)) nl p (if ys = [] then nx x else h) (ys @ zs)
         \<and> pv x = last (p # ys) \<and> nx x = hd (zs @ [nl])"
  using assms
proof (induction ys arbitrary: p h)
  case Nil
  then have x: "h = x" "x \<noteq> nl" "pv x = p" "dll nx pv nl x (nx x) zs"
    by simp_all
  show ?case
  proof (cases zs)
    case Nil
    then show ?thesis using x by simp
  next
    case (Cons z ws)
    have "nl \<notin> set ws" using x(4) Cons dll_null by fastforce
    then have "dll (nx(p := nx x)) (pv(nx x := p)) nl z (nx z) ws = dll nx pv nl z (nx z) ws"
      using Nil.prems(2) x(4) Cons by (intro dll_cong) auto
    then show ?thesis using x Cons Nil.prems(2) by (auto simp: fun_upd_def)
  qed
next
  case (Cons y ys)
  define N where "N = nx(pv x := nx x)"
  define P where "P = pv(nx x := pv x)"
  have tail: "dll nx pv nl y (nx y) (ys @ x # zs)" and y: "h = y" "y \<noteq> nl" "pv y = p"
    using Cons.prems(1) by simp_all
  have "distinct (y # ys @ x # zs)"
    using Cons.prems(2) by simp
  from Cons.IH [OF tail this]
  have IH: "dll N P nl y (if ys = [] then nx x else nx y) (ys @ zs)"
    and last: "pv x = last (y # ys)" and nxt: "nx x = hd (zs @ [nl])"
    unfolding N_def P_def by blast+
  have "y \<noteq> nx x"
    unfolding nxt using y(2) Cons.prems(2) by (cases zs) auto
  then have "P y = p"
    using y by (simp add: P_def)
  moreover have "N y = (if ys = [] then nx x else nx y)"
    using last Cons.prems(2) unfolding N_def by (cases ys rule: rev_cases) auto
  ultimately have "dll N P nl p (if y # ys = [] then nx x else h) ((y # ys) @ zs)"
    using IH y by simp
  moreover have "pv x = last (p # y # ys)"
    using last by simp
  ultimately show ?case
    unfolding N_def P_def using nxt by (intro conjI)
qed

lemma dll_remove:
  assumes "dll nx pv nl nl h xs" and "x \<in> set xs" and "distinct xs"
    and "\<And>y. y \<in> set xs \<Longrightarrow> nx' y = (if pv x \<noteq> nl \<and> y = pv x then nx x else nx y)"
    and "\<And>y. y \<in> set xs \<Longrightarrow> pv' y = (if nx x \<noteq> nl \<and> y = nx x then pv x else pv y)"
  shows "dll nx' pv' nl nl (if pv x \<noteq> nl then h else nx x) (remove1 x xs)"
proof -
  obtain ys zs where xs: "xs = ys @ x # zs" and nin: "x \<notin> set ys"
    using assms(2) split_list_first by metis
  have nl: "nl \<notin> set xs"
    using assms(1) dll_null by fast
  then have "distinct (nl # ys @ x # zs)"
    using assms(3) xs by simp
  note rem = dll_remove_split [OF assms(1) [unfolded xs] this]
  have "pv x = nl \<longleftrightarrow> ys = []"
    using rem nl xs by (cases ys rule: rev_cases) auto
  then have head: "(if pv x \<noteq> nl then h else nx x) = (if ys = [] then nx x else h)"
    by simp
  have "dll nx' pv' nl nl g (ys @ zs) = dll (nx(pv x := nx x)) (pv(nx x := pv x)) nl nl g (ys @ zs)" for g
  proof (rule dll_cong)
    fix y assume "y \<in> set (ys @ zs)"
    then have "y \<in> set xs" "y \<noteq> nl"
      using nl xs by auto
    then show "nx' y = (nx(pv x := nx x)) y \<and> pv' y = (pv(nx x := pv x)) y"
      using assms(4,5) [of y] by (simp add: fun_upd_def)
  qed
  moreover have "remove1 x xs = ys @ zs"
    using nin xs by (simp add: remove1_append)
  ultimately show ?thesis
    using rem unfolding head by metis
qed

end
