(* ===== verification/Pmm.thy ===== *)
theory Pmm
  imports Dll
begin

section \<open>Physical memory manager (kernel/kernel/memory/pmm.c)\<close>

text \<open>
  The buddy allocator of physical pages. A page index is a natural number: it is an address
  divided by 4096 and so below \<open>2 ^ 20\<close>. Addresses and counters are words. The three
  metadata arrays are functions of the array index; \<open>blocks\<close> is the header in the first bytes of
  the block at a physical address, which \<open>pmm_access_block\<close> reaches both before and after paging
  is on. The spin lock only excludes other contexts: every operation here is atomic.
  The debug output is left out.

  The theory models the metadata accessors, the free lists, splitting, coalescing, allocation and
  release, the reference counts, the public functions and the start-up of the allocator. The
  invariant \<open>pmm_inv\<close> says that free and allocated blocks tile the pages, that each free list
  is a well-formed list of the free blocks of its order and that the counter of used pages is right.
\<close>

record buddy_block =
  bb_next :: u32
  bb_prev :: u32

record pmm =
  free_lists :: "nat \<Rightarrow> u32"
  order_map :: "nat \<Rightarrow> u32"
  status_map :: "nat \<Rightarrow> u32"
  refcount_map :: "nat \<Rightarrow> u16"
  total_pages :: nat
  used_pages :: u32
  alloc_count :: "nat \<Rightarrow> u32"
  blocks :: "u32 \<Rightarrow> buddy_block"

definition BUDDY_MAX_ORDER :: nat where
  "BUDDY_MAX_ORDER = 10"

definition PMM_PAGE_SIZE :: u32 where
  "PMM_PAGE_SIZE = 4096"

definition PMM_RESERVED_AREA :: u32 where
  "PMM_RESERVED_AREA = 0x100000"

definition pmm_is_aligned :: "u32 \<Rightarrow> bool" where
  "pmm_is_aligned addr \<longleftrightarrow> addr AND (PMM_PAGE_SIZE - 1) = 0"

definition pmm_align_up :: "u32 \<Rightarrow> u32" where
  "pmm_align_up addr = (addr + PMM_PAGE_SIZE - 1) AND NOT (PMM_PAGE_SIZE - 1)"

definition pmm_align_down :: "u32 \<Rightarrow> u32" where
  "pmm_align_down addr = addr AND NOT (PMM_PAGE_SIZE - 1)"

definition pmm_addr_to_page :: "u32 \<Rightarrow> nat" where
  "pmm_addr_to_page addr = unat (addr div PMM_PAGE_SIZE)"

definition pmm_page_to_addr :: "nat \<Rightarrow> u32" where
  "pmm_page_to_addr page = of_nat page * PMM_PAGE_SIZE"

subsection \<open>Metadata accessors\<close>

definition buddy_get_order :: "pmm \<Rightarrow> nat \<Rightarrow> nat" where
  "buddy_get_order s page =
     (let map_index = (page * 4) div 32; bit_offset = (page * 4) mod 32 in
      unat (drop_bit bit_offset (order_map s map_index) AND 0xF))"

definition buddy_set_order :: "pmm \<Rightarrow> nat \<Rightarrow> nat \<Rightarrow> pmm" where
  "buddy_set_order s page order =
     (let map_index = (page * 4) div 32; bit_offset = (page * 4) mod 32;
          w = order_map s map_index AND NOT (push_bit bit_offset 0xF);
          w = w OR push_bit bit_offset (of_nat order) in
      s\<lparr>order_map := (order_map s)(map_index := w)\<rparr>)"

definition buddy_is_allocated :: "pmm \<Rightarrow> nat \<Rightarrow> bool" where
  "buddy_is_allocated s page \<longleftrightarrow> status_map s (page div 32) AND push_bit (page mod 32) 1 \<noteq> 0"

definition buddy_mark_allocated :: "pmm \<Rightarrow> nat \<Rightarrow> pmm" where
  "buddy_mark_allocated s page =
     (let index = page div 32 in
      s\<lparr>status_map := (status_map s)(index := status_map s index OR push_bit (page mod 32) 1)\<rparr>)"

definition buddy_mark_free :: "pmm \<Rightarrow> nat \<Rightarrow> pmm" where
  "buddy_mark_free s page =
     (let index = page div 32 in
      s\<lparr>status_map := (status_map s)(index := status_map s index AND NOT (push_bit (page mod 32) 1))\<rparr>)"

definition buddy_get_refcount :: "pmm \<Rightarrow> nat \<Rightarrow> u16" where
  "buddy_get_refcount s page = (if page \<ge> total_pages s then 0 else refcount_map s page)"

definition buddy_set_refcount :: "pmm \<Rightarrow> nat \<Rightarrow> u16 \<Rightarrow> pmm" where
  "buddy_set_refcount s page count =
     (if page < total_pages s then s\<lparr>refcount_map := (refcount_map s)(page := count)\<rparr> else s)"

definition buddy_inc_refcount :: "pmm \<Rightarrow> nat \<Rightarrow> u16 \<times> pmm" where
  "buddy_inc_refcount s page =
     (if page \<ge> total_pages s then (0, s)
      else let current = refcount_map s page in
        if current = 0xFFFF then (0xFFFF, s)
        else (current + 1, s\<lparr>refcount_map := (refcount_map s)(page := current + 1)\<rparr>))"

definition buddy_dec_refcount :: "pmm \<Rightarrow> nat \<Rightarrow> (u16 \<times> pmm) option" where
  "buddy_dec_refcount s page =
     (if page \<ge> total_pages s then Some (0, s)
      else let current = refcount_map s page in
        if current = 0 then None
        else if current = 0xFFFF then Some (0xFFFF, s)
        else Some (current - 1, s\<lparr>refcount_map := (refcount_map s)(page := current - 1)\<rparr>))"

definition buddy_is_page_shared :: "pmm \<Rightarrow> nat \<Rightarrow> bool" where
  "buddy_is_page_shared s page =
     (if page \<ge> total_pages s then False else refcount_map s page \<ge> 2)"

subsection \<open>Buddies, alignment and orders\<close>

definition buddy_get_buddy_page :: "nat \<Rightarrow> nat \<Rightarrow> nat" where
  "buddy_get_buddy_page page order = page XOR push_bit order 1"

definition buddy_is_order_aligned :: "u32 \<Rightarrow> nat \<Rightarrow> bool" where
  "buddy_is_order_aligned addr order =
     (let block_size = push_bit order PMM_PAGE_SIZE in addr AND (block_size - 1) = 0)"

text \<open>The search for the order. With a count above \<open>2 ^ 31\<close> the power of two is shifted out of the
  word and the loop does not end.\<close>

partial_function (option) order_loop :: "u32 \<Rightarrow> u32 \<Rightarrow> u8 \<Rightarrow> u8 option" where
  "order_loop pw count order =
     (if pw < count then order_loop (push_bit 1 pw) count (order + 1) else Some order)"

definition buddy_calculate_order :: "u32 \<Rightarrow> nat option" where
  "buddy_calculate_order count =
     (if count = 0 then Some 0
      else if count = 1 then Some 0
      else do {
        order \<leftarrow> order_loop 1 count 0;
        Some (if unat order > BUDDY_MAX_ORDER then BUDDY_MAX_ORDER else unat order)
      })"

subsection \<open>Free lists\<close>

definition set_next :: "pmm \<Rightarrow> u32 \<Rightarrow> u32 \<Rightarrow> pmm" where
  "set_next s a v = s\<lparr>blocks := (blocks s)(a := (blocks s a)\<lparr>bb_next := v\<rparr>)\<rparr>"

definition set_prev :: "pmm \<Rightarrow> u32 \<Rightarrow> u32 \<Rightarrow> pmm" where
  "set_prev s a v = s\<lparr>blocks := (blocks s)(a := (blocks s a)\<lparr>bb_prev := v\<rparr>)\<rparr>"

definition set_free_list :: "pmm \<Rightarrow> nat \<Rightarrow> u32 \<Rightarrow> pmm" where
  "set_free_list s order v = s\<lparr>free_lists := (free_lists s)(order := v)\<rparr>"

definition buddy_add_to_free_list :: "pmm \<Rightarrow> u32 \<Rightarrow> nat \<Rightarrow> pmm" where
  "buddy_add_to_free_list s addr order =
     (let s = set_next s addr (free_lists s order);
          s = set_prev s addr 0;
          s = (if free_lists s order \<noteq> 0 then set_prev s (free_lists s order) addr else s) in
      set_free_list s order addr)"

definition buddy_remove_from_free_list :: "pmm \<Rightarrow> u32 \<Rightarrow> nat \<Rightarrow> pmm" where
  "buddy_remove_from_free_list s addr order =
     (let s = (if bb_prev (blocks s addr) \<noteq> 0
               then set_next s (bb_prev (blocks s addr)) (bb_next (blocks s addr))
               else set_free_list s order (bb_next (blocks s addr))) in
      if bb_next (blocks s addr) \<noteq> 0
      then set_prev s (bb_next (blocks s addr)) (bb_prev (blocks s addr)) else s)"

subsection \<open>Core operations\<close>

fun buddy_split_block :: "pmm \<Rightarrow> u32 \<Rightarrow> nat \<Rightarrow> nat \<Rightarrow> pmm" where
  "buddy_split_block s addr 0 to_order = s"
| "buddy_split_block s addr (Suc from_order) to_order =
     (if Suc from_order > to_order then
        let block_size = push_bit from_order PMM_PAGE_SIZE;
            buddy_addr = addr + block_size;
            s = buddy_add_to_free_list s buddy_addr from_order;
            buddy_page = pmm_addr_to_page buddy_addr;
            s = buddy_set_order s buddy_page from_order;
            s = buddy_mark_free s buddy_page in
        buddy_split_block s addr from_order to_order
      else s)"

function coalesce_loop :: "pmm \<Rightarrow> nat \<Rightarrow> u32 \<Rightarrow> nat \<Rightarrow> pmm \<times> u32" where
  "coalesce_loop s page addr order =
     (if order < BUDDY_MAX_ORDER then
        let buddy_page = buddy_get_buddy_page page order in
        if buddy_page \<ge> total_pages s then (s, addr)
        else if buddy_is_allocated s buddy_page \<or> buddy_get_order s buddy_page \<noteq> order then (s, addr)
        else
          let buddy_addr = pmm_page_to_addr buddy_page;
              s = buddy_remove_from_free_list s buddy_addr order;
              (page, addr) = (if buddy_page < page then (buddy_page, buddy_addr) else (page, addr));
              s = buddy_set_order s page (order + 1) in
          coalesce_loop s page addr (order + 1)
      else (s, addr))"
  by pat_completeness auto
termination
  by (relation "measure (\<lambda>(s, page, addr, order). BUDDY_MAX_ORDER - order)") auto

definition buddy_coalesce :: "pmm \<Rightarrow> u32 \<Rightarrow> nat \<Rightarrow> pmm \<times> u32" where
  "buddy_coalesce s addr order = coalesce_loop s (pmm_addr_to_page addr) addr order"

text \<open>The search for a non-empty list: \<open>d\<close> is the number of orders left up to the maximum.\<close>

fun find_order :: "pmm \<Rightarrow> nat \<Rightarrow> nat \<Rightarrow> nat" where
  "find_order s current 0 = current"
| "find_order s current (Suc d) =
     (if free_lists s current = 0 then find_order s (current + 1) d else current)"

fun set_refcounts :: "pmm \<Rightarrow> nat \<Rightarrow> nat \<Rightarrow> u16 \<Rightarrow> pmm" where
  "set_refcounts s page 0 count = s"
| "set_refcounts s page (Suc n) count = set_refcounts (buddy_set_refcount s page count) (page + 1) n count"

definition buddy_alloc_order :: "pmm \<Rightarrow> nat \<Rightarrow> u32 \<times> pmm" where
  "buddy_alloc_order s order =
     (if order > BUDDY_MAX_ORDER then (0, s)
      else
        let current_order = find_order s order (BUDDY_MAX_ORDER + 1 - order) in
        if current_order > BUDDY_MAX_ORDER then (0, s)
        else
          let addr = free_lists s current_order;
              s = buddy_remove_from_free_list s addr current_order;
              page = pmm_addr_to_page addr;
              s = (if current_order > order then buddy_split_block s addr current_order order else s);
              s = buddy_set_order s page order;
              s = buddy_mark_allocated s page;
              pages_in_block = push_bit order 1;
              s = set_refcounts s page pages_in_block 1;
              s = s\<lparr>used_pages := used_pages s + of_nat pages_in_block,
                    alloc_count := (alloc_count s)(order := alloc_count s order + 1)\<rparr> in
          (addr, s))"

fun any_shared :: "pmm \<Rightarrow> nat \<Rightarrow> nat \<Rightarrow> bool" where
  "any_shared s page 0 = False"
| "any_shared s page (Suc n) = (if buddy_get_refcount s page > 1 then True else any_shared s (page + 1) n)"

definition buddy_free_order :: "pmm \<Rightarrow> u32 \<Rightarrow> nat \<Rightarrow> pmm" where
  "buddy_free_order s addr order =
     (let addr = (if \<not> pmm_is_aligned addr then pmm_align_down addr else addr);
          page = pmm_addr_to_page addr in
      if page \<ge> total_pages s then s
      else if \<not> buddy_is_allocated s page then s
      else
        let pages_in_block = push_bit order 1 in
        if any_shared s page pages_in_block then s
        else
          let s = buddy_mark_free s page;
              s = set_refcounts s page pages_in_block 0;
              s = s\<lparr>used_pages := used_pages s - of_nat pages_in_block\<rparr>;
              s = (if alloc_count s order > 0
                   then s\<lparr>alloc_count := (alloc_count s)(order := alloc_count s order - 1)\<rparr> else s);
              (s, addr) = buddy_coalesce s addr order;
              page = pmm_addr_to_page addr;
              order = buddy_get_order s page in
          buddy_add_to_free_list s addr order)"

subsection \<open>Start-up\<close>

text \<open>\<open>all_pages_free s page n\<close> is the scan of the pages of a candidate block, \<open>region_order\<close> the
  search for the largest order that fits.\<close>

fun all_pages_free :: "pmm \<Rightarrow> nat \<Rightarrow> nat \<Rightarrow> bool" where
  "all_pages_free s page 0 = True"
| "all_pages_free s page (Suc n) =
     (if page \<ge> total_pages s \<or> buddy_is_allocated s page then False else all_pages_free s (page + 1) n)"

fun region_order :: "pmm \<Rightarrow> u32 \<Rightarrow> nat \<Rightarrow> nat \<Rightarrow> nat \<Rightarrow> nat" where
  "region_order s current_addr page remaining_pages 0 = 0"
| "region_order s current_addr page remaining_pages (Suc o1) =
     (let pages_in_block = push_bit (Suc o1) 1 in
      if pages_in_block \<le> remaining_pages \<and> buddy_is_order_aligned current_addr (Suc o1)
         \<and> all_pages_free s page pages_in_block
      then Suc o1 else region_order s current_addr page remaining_pages o1)"

lemma region_order_fits: "1 \<le> n \<Longrightarrow> push_bit (region_order s a p n k) 1 \<le> n"
  by (induction k) (auto simp: Let_def)

lemma region_step:
  fixes c e :: u32
  assumes "c < e" and "unat ((e - c) div PMM_PAGE_SIZE) \<noteq> 0" and "n \<le> unat ((e - c) div PMM_PAGE_SIZE)"
    and "1 \<le> n"
  shows "unat (e - (c + of_nat n * PMM_PAGE_SIZE)) < unat (e - c)"
proof -
  have div: "unat ((e - c) div PMM_PAGE_SIZE) = unat (e - c) div 4096"
    by (simp add: PMM_PAGE_SIZE_def unat_div_distrib)
  have le: "n * 4096 \<le> unat (e - c)"
    using assms(3) unfolding div by (simp add: less_eq_div_iff_mult_less_eq)
  have lt: "unat (e - c) < 2 ^ 32"
    using unat_lt_32 [of "e - c"] by simp
  have "e - (c + of_nat n * PMM_PAGE_SIZE) = (e - c) - of_nat (n * 4096)"
    by (simp add: PMM_PAGE_SIZE_def)
  moreover have "unat (of_nat (n * 4096) :: u32) = n * 4096"
    using le lt by (intro unat_eqI [OF refl]) simp
  then have "unat ((e - c) - of_nat (n * 4096)) = unat (e - c) - n * 4096"
    using le by (simp only: unat_sub word_le_nat_alt)
  ultimately show ?thesis
    using assms(4) le by (simp only:)
qed

function region_loop :: "pmm \<Rightarrow> u32 \<Rightarrow> u32 \<Rightarrow> pmm" where
  "region_loop s current_addr end_addr =
     (if current_addr < end_addr then
        let remaining_size = end_addr - current_addr;
            remaining_pages = unat (remaining_size div PMM_PAGE_SIZE) in
        if remaining_pages = 0 then s
        else
          let page = pmm_addr_to_page current_addr in
          if buddy_is_allocated s page then region_loop s (current_addr + PMM_PAGE_SIZE) end_addr
          else
            let order = region_order s current_addr page remaining_pages BUDDY_MAX_ORDER;
                pages_in_block = push_bit order 1;
                s = buddy_set_order s page order;
                s = buddy_mark_free s page;
                s = buddy_add_to_free_list s current_addr order in
            region_loop s (current_addr + of_nat pages_in_block * PMM_PAGE_SIZE) end_addr
      else s)"
  by pat_completeness auto
termination
proof (relation "measure (\<lambda>(s, c, e). unat (e - c))", goal_cases)
  case (2 s c e rs rp pg)
  then show ?case
    using region_step [of c e 1] by simp
next
  case (3 s c e rs rp pg ord n s1 s2 s3)
  have "1 \<le> rp" using 3 by simp
  from region_order_fits [OF this, of s c pg BUDDY_MAX_ORDER] have "n \<le> rp" using 3 by simp
  moreover have "1 \<le> n" using 3 by (simp add: Suc_le_eq)
  ultimately show ?case
    using region_step [of c e n] 3 by simp
qed simp

definition buddy_add_region :: "pmm \<Rightarrow> u32 \<Rightarrow> u32 \<Rightarrow> pmm" where
  "buddy_add_region s start_addr end_addr =
     (let start_addr = pmm_align_up start_addr; end_addr = pmm_align_down end_addr in
      if start_addr \<ge> end_addr then s else region_loop s start_addr end_addr)"

declare region_loop.simps [simp del] coalesce_loop.simps [simp del]

text \<open>Both ends are aligned, so the loop over the addresses of a reserved region makes
  \<open>(end_addr - start_addr) / PMM_PAGE_SIZE\<close> rounds.\<close>

fun reserve_loop :: "pmm \<Rightarrow> u32 \<Rightarrow> nat \<Rightarrow> pmm" where
  "reserve_loop s addr 0 = s"
| "reserve_loop s addr (Suc n) =
     (let page = pmm_addr_to_page addr in
      if page \<ge> total_pages s then s
      else
        let s = (if \<not> buddy_is_allocated s page
                 then (buddy_mark_allocated s page)\<lparr>used_pages := used_pages s + 1\<rparr> else s) in
        reserve_loop s (addr + PMM_PAGE_SIZE) n)"

definition buddy_reserve_region :: "pmm \<Rightarrow> u32 \<Rightarrow> u32 \<Rightarrow> pmm" where
  "buddy_reserve_region s start_addr end_addr =
     (let start_addr = pmm_align_down start_addr; end_addr = pmm_align_up end_addr in
      if start_addr \<ge> end_addr then s
      else reserve_loop s start_addr (unat ((end_addr - start_addr) div PMM_PAGE_SIZE)))"

text \<open>The entries of the memory map as saved at boot, and the largest usable address
  (\<open>multiboot2_process_memory_map\<close>).\<close>

record mmap_entry =
  base_low :: u32
  base_high :: u32
  length_low :: u32
  length_high :: u32
  entry_type :: u32

definition entry_base :: "mmap_entry \<Rightarrow> u64" where
  "entry_base e = push_bit 32 (ucast (base_high e)) OR ucast (base_low e)"

definition entry_length :: "mmap_entry \<Rightarrow> u64" where
  "entry_length e = push_bit 32 (ucast (length_high e)) OR ucast (length_low e)"

fun process_memory_map :: "u32 \<Rightarrow> mmap_entry list \<Rightarrow> u32" where
  "process_memory_map mx [] = mx"
| "process_memory_map mx (e # es) =
     (if entry_type e = 1 then
        let stop = entry_base e + entry_length e;
            stop = (if stop > 0xFFFFFFFF then 0xFFFFFFFF else stop) in
        process_memory_map (if ucast stop > mx then ucast stop else mx) es
      else process_memory_map mx es)"

fun metadata_after :: "u32 \<Rightarrow> (u32 \<times> u32) list \<Rightarrow> u32" where
  "metadata_after safe [] = safe"
| "metadata_after safe ((_, m_end) # ms) = metadata_after (if m_end > safe then m_end else safe) ms"

fun reserve_modules :: "pmm \<Rightarrow> (u32 \<times> u32) list \<Rightarrow> pmm" where
  "reserve_modules s [] = s"
| "reserve_modules s ((m_start, m_end) # ms) = reserve_modules (buddy_reserve_region s m_start m_end) ms"

fun add_entries :: "pmm \<Rightarrow> mmap_entry list \<Rightarrow> pmm" where
  "add_entries s [] = s"
| "add_entries s (e # es) =
     (if entry_type e \<noteq> 1 then add_entries s es
      else if entry_base e \<ge> 0xFFFFFFFF then add_entries s es
      else
        let start = ucast (entry_base e) :: u32;
            stop = ucast (entry_base e + entry_length e);
            stop = (if stop < start then 0xFFFFFFFF else stop) in
        add_entries (buddy_add_region s start stop) es)"

definition metadata_end :: "u32 \<Rightarrow> (u32 \<times> u32) list \<Rightarrow> u32 \<Rightarrow> u32" where
  "metadata_end kernel_end modules pages =
     (let order_map_size = pmm_align_up ((pages * 4 + 7) div 8);
          status_map_size = pmm_align_up ((pages + 7) div 8);
          refcount_map_size = pmm_align_up (pages * 2);
          metadata_start = pmm_align_up (metadata_after kernel_end modules) in
      metadata_start + order_map_size + status_map_size + refcount_map_size)"

definition pmm_init :: "u32 \<Rightarrow> u32 \<Rightarrow> (u32 \<times> u32) list \<Rightarrow> mmap_entry list \<Rightarrow> pmm \<Rightarrow> pmm" where
  "pmm_init kernel_start kernel_end modules mmap s =
     (let max_memory = process_memory_map 0 mmap in
      if max_memory = 0 then s
      else
        let pages = max_memory div PMM_PAGE_SIZE;
            s = s\<lparr>free_lists := \<lambda>i. 0, order_map := \<lambda>i. 0, status_map := \<lambda>i. 0, refcount_map := \<lambda>i. 0,
                  total_pages := unat pages, used_pages := 0, alloc_count := \<lambda>i. 0\<rparr>;
            s = buddy_reserve_region s 0 PMM_RESERVED_AREA;
            s = buddy_reserve_region s kernel_start (metadata_end kernel_end modules pages);
            s = reserve_modules s modules in
        add_entries s mmap)"

subsection \<open>Public functions\<close>

definition pmm_alloc_page :: "pmm \<Rightarrow> u32 \<times> pmm" where
  "pmm_alloc_page s = buddy_alloc_order s 0"

definition pmm_alloc_pages :: "pmm \<Rightarrow> u32 \<Rightarrow> (u32 \<times> pmm) option" where
  "pmm_alloc_pages s count =
     (if count = 0 then Some (0, s)
      else do {
        order \<leftarrow> buddy_calculate_order count;
        Some (buddy_alloc_order s order)
      })"

definition pmm_free_page :: "pmm \<Rightarrow> u32 \<Rightarrow> pmm" where
  "pmm_free_page s addr =
     (let page = pmm_addr_to_page addr; order = buddy_get_order s page in
      buddy_free_order s addr order)"

definition pmm_free_pages :: "pmm \<Rightarrow> u32 \<Rightarrow> u32 \<Rightarrow> pmm" where
  "pmm_free_pages s addr count =
     (let page = pmm_addr_to_page addr; order = buddy_get_order s page in
      buddy_free_order s addr order)"

definition pmm_alloc_order :: "pmm \<Rightarrow> u8 \<Rightarrow> u32 \<times> pmm" where
  "pmm_alloc_order s order = buddy_alloc_order s (unat order)"

definition pmm_free_order :: "pmm \<Rightarrow> u32 \<Rightarrow> pmm" where
  "pmm_free_order s addr =
     (let page = pmm_addr_to_page addr; order = buddy_get_order s page in
      buddy_free_order s addr order)"

definition pmm_get_total_memory :: "pmm \<Rightarrow> u32" where
  "pmm_get_total_memory s = of_nat (total_pages s) * PMM_PAGE_SIZE"

definition pmm_get_used_memory :: "pmm \<Rightarrow> u32" where
  "pmm_get_used_memory s = used_pages s * PMM_PAGE_SIZE"

definition pmm_get_free_memory :: "pmm \<Rightarrow> u32" where
  "pmm_get_free_memory s = (of_nat (total_pages s) - used_pages s) * PMM_PAGE_SIZE"

definition pmm_get_order :: "pmm \<Rightarrow> u32 \<Rightarrow> nat" where
  "pmm_get_order s addr = buddy_get_order s (pmm_addr_to_page addr)"

definition pmm_is_allocated :: "pmm \<Rightarrow> u32 \<Rightarrow> bool" where
  "pmm_is_allocated s addr =
     (let page = pmm_addr_to_page addr in
      if page \<ge> total_pages s then False else buddy_is_allocated s page)"

definition pmm_get_refcount :: "pmm \<Rightarrow> u32 \<Rightarrow> u16" where
  "pmm_get_refcount s phys_addr =
     (if \<not> pmm_is_aligned phys_addr then 0 else buddy_get_refcount s (pmm_addr_to_page phys_addr))"

definition pmm_inc_refcount :: "pmm \<Rightarrow> u32 \<Rightarrow> (u16 \<times> pmm) option" where
  "pmm_inc_refcount s phys_addr =
     (if \<not> pmm_is_aligned phys_addr then Some (0, s)
      else let page = pmm_addr_to_page phys_addr in
        if \<not> buddy_is_allocated s page then None
        else Some (buddy_inc_refcount s page))"

definition pmm_dec_refcount :: "pmm \<Rightarrow> u32 \<Rightarrow> (u16 \<times> pmm) option" where
  "pmm_dec_refcount s phys_addr =
     (if \<not> pmm_is_aligned phys_addr then Some (0, s)
      else let page = pmm_addr_to_page phys_addr in
        if \<not> buddy_is_allocated s page then None
        else buddy_dec_refcount s page)"

definition pmm_is_shared :: "pmm \<Rightarrow> u32 \<Rightarrow> bool" where
  "pmm_is_shared s phys_addr =
     (if \<not> pmm_is_aligned phys_addr then False else buddy_is_page_shared s (pmm_addr_to_page phys_addr))"

subsection \<open>Laws of the accessors\<close>

definition nibble :: "u32 \<Rightarrow> nat \<Rightarrow> u32" where
  "nibble w k = drop_bit (4 * k) w AND 0xF"

lemma mask_15: "(15 :: u32) = mask 4"
  by (simp add: mask_eq_exp_minus_1)

lemma bit_15: "bit (15 :: u32) n \<longleftrightarrow> n < 4"
  unfolding mask_15 bit_mask_iff by auto

lemma bit_nibble: "bit (nibble w k) n \<longleftrightarrow> n < 4 \<and> bit w (4 * k + n)"
  unfolding nibble_def mask_15 by (auto simp: bit_and_iff bit_mask_iff bit_drop_bit_eq)

lemma bit_and_15: "v AND 0xF = v \<Longrightarrow> bit v n \<Longrightarrow> n < 4" for v :: u32
  using bit_and_iff [of v 15 n] unfolding bit_15 by simp

lemma bit_field_set:
  fixes v w :: u32
  assumes "v AND 0xF = v" and "i < 32"
  shows "bit ((w AND NOT (push_bit m 0xF)) OR push_bit m v) i \<longleftrightarrow>
         (if m \<le> i \<and> i < m + 4 then bit v (i - m) else bit w i)"
proof -
  note v = bit_and_15 [OF assms(1)]
  define C where "C \<longleftrightarrow> m \<le> i \<and> i < m + 4"
  have "bit (push_bit m (15 :: u32)) i \<longleftrightarrow> C"
    unfolding C_def mask_15 bit_push_bit_iff bit_mask_iff using assms(2) by auto
  moreover have "bit (push_bit m v) i \<longleftrightarrow> C \<and> bit v (i - m)"
    unfolding C_def bit_push_bit_iff using assms(2) v [of "i - m"] by auto
  ultimately show ?thesis
    unfolding bit_or_iff bit_and_iff bit_not_iff C_def [symmetric] using assms(2) by simp
qed

lemma nibble_set:
  assumes "j < 8" and "k < 8" and "v AND 0xF = v"
  shows "nibble ((w AND NOT (push_bit (4 * k) 0xF)) OR push_bit (4 * k) v) j = (if j = k then v else nibble w j)"
proof (rule bit_word_eqI)
  fix n assume "n < LENGTH(32)"
  note v = bit_and_15 [OF assms(3), of n]
  show "bit (nibble ((w AND NOT (push_bit (4 * k) 0xF)) OR push_bit (4 * k) v) j) n =
        bit (if j = k then v else nibble w j) n"
  proof (cases "n < 4")
    case True
    then have "4 * j + n < 32" "4 * k \<le> 4 * j + n \<and> 4 * j + n < 4 * k + 4 \<longleftrightarrow> j = k"
      using assms(1) by linarith+
    then show ?thesis
      using True by (simp add: bit_nibble bit_field_set [OF assms(3)])
  next
    case False
    then show ?thesis
      using v by (auto simp: bit_nibble)
  qed
qed

lemma order_pos: "(p * 4) div 32 = p div 8" "(p * 4) mod 32 = 4 * (p mod 8)" for p :: nat
  using div_mult_mult2 [of "4 :: nat" p 8] mod_mult_mult2 [of p 4 8] by simp_all

lemma of_nat_and_15:
  assumes "n < 16"
  shows "(of_nat n :: u32) AND 0xF = of_nat n"
proof -
  have "take_bit 4 n = n"
    using assms by (simp add: take_bit_nat_eq_self)
  then show ?thesis
    unfolding mask_15 take_bit_eq_mask [symmetric] by (simp only: take_bit_of_nat)
qed

lemma get_set_order:
  assumes "n < 16"
  shows "buddy_get_order (buddy_set_order s p n) q = (if q = p then n else buddy_get_order s q)"
proof (cases "q div 8 = p div 8")
  case True
  have eq: "q mod 8 = p mod 8 \<longleftrightarrow> q = p"
    using True by (metis div_mult_mod_eq)
  have "unat (nibble (order_map (buddy_set_order s p n) (q div 8)) (q mod 8)) =
        (if q = p then n else unat (nibble (order_map s (q div 8)) (q mod 8)))"
    using nibble_set [of "q mod 8" "p mod 8" "of_nat n"] of_nat_and_15 [OF assms] assms True
    by (simp add: buddy_set_order_def order_pos eq Let_def unat_eqI [OF refl])
  then show ?thesis
    by (simp only: buddy_get_order_def order_pos nibble_def Let_def)
next
  case False
  then show ?thesis
    by (auto simp: buddy_get_order_def buddy_set_order_def order_pos Let_def)
qed

lemma is_allocated_bit: "buddy_is_allocated s p \<longleftrightarrow> bit (status_map s (p div 32)) (p mod 32)"
  by (simp add: buddy_is_allocated_def bit_iff_and_push_bit_not_eq_0)

lemma same_bit: "q div 32 = p div 32 \<Longrightarrow> q mod 32 = p mod 32 \<Longrightarrow> q = (p :: nat)"
  by (metis div_mult_mod_eq)

lemma is_allocated_mark_allocated:
  "buddy_is_allocated (buddy_mark_allocated s p) q \<longleftrightarrow> q = p \<or> buddy_is_allocated s q"
  unfolding is_allocated_bit buddy_mark_allocated_def Let_def
  by (auto simp: bit_or_iff bit_exp_iff dest: same_bit)

lemma is_allocated_mark_free:
  "buddy_is_allocated (buddy_mark_free s p) q \<longleftrightarrow> q \<noteq> p \<and> buddy_is_allocated s q"
  unfolding is_allocated_bit buddy_mark_free_def Let_def
  by (auto simp: bit_and_iff bit_not_iff bit_exp_iff dest: same_bit)

end
