(* ===== verification/Buddy.thy ===== *)
theory Buddy
  imports Pmm
begin

section \<open>Correctness of the buddy allocator\<close>

text \<open>
  Blocks are pairs of a page and an order. The invariant \<open>pmm_inv s FB A LB T\<close> relates a state to the
  sets of free, allocated and detached blocks (a block is detached while an operation works on it)
  that tile the set \<open>T\<close> of pages. The theory proves that splitting, coalescing, allocation, release and start-up keep it.
\<close>

subsection \<open>Addresses of pages\<close>

abbreviation pa :: "nat \<Rightarrow> u32" where
  "pa \<equiv> pmm_page_to_addr"

lemma unat_pa: "p < 2 ^ 20 \<Longrightarrow> unat (pa p) = p * 4096"
  unfolding pmm_page_to_addr_def PMM_PAGE_SIZE_def by (rule unat_eqI) simp_all

lemma page_pa [simp]: "p < 2 ^ 20 \<Longrightarrow> pmm_addr_to_page (pa p) = p"
  unfolding pmm_addr_to_page_def by (simp add: unat_div_distrib unat_pa PMM_PAGE_SIZE_def)

lemma pa_inj: "p < 2 ^ 20 \<Longrightarrow> q < 2 ^ 20 \<Longrightarrow> pa p = pa q \<longleftrightarrow> p = q"
  by (metis page_pa)

lemma pa_0: "p < 2 ^ 20 \<Longrightarrow> pa p = 0 \<longleftrightarrow> p = 0"
  using pa_inj [of p 0] by (simp add: pmm_page_to_addr_def)

lemma pa_add: "pa p + push_bit k PMM_PAGE_SIZE = pa (p + 2 ^ k)"
  by (simp add: pmm_page_to_addr_def push_bit_eq_mult distrib_right)

lemma pa_add_n: "pa p + of_nat n * PMM_PAGE_SIZE = pa (p + n)"
  by (simp add: pmm_page_to_addr_def distrib_right)

lemma addr_to_page_less: "pmm_addr_to_page a < 2 ^ 20"
  using unat_lt_32 [of a] by (simp add: pmm_addr_to_page_def unat_div_distrib PMM_PAGE_SIZE_def)

lemma mask_12: "PMM_PAGE_SIZE - 1 = mask 12"
  by (simp add: PMM_PAGE_SIZE_def mask_eq_exp_minus_1)

lemma align_down_pa: "pmm_align_down a = pa (pmm_addr_to_page a)"
proof -
  have "pmm_align_down a = push_bit 12 (drop_bit 12 a)"
    unfolding pmm_align_down_def mask_12
    by (rule bit_word_eqI) (auto simp: bit_and_iff bit_not_iff bit_mask_iff bit_push_bit_iff bit_drop_bit_eq)
  also have "\<dots> = of_nat (unat (a div PMM_PAGE_SIZE)) * PMM_PAGE_SIZE"
    by (simp add: push_bit_eq_mult drop_bit_eq_div PMM_PAGE_SIZE_def)
  finally show ?thesis
    by (simp add: pmm_page_to_addr_def pmm_addr_to_page_def)
qed

lemma aligned_iff: "pmm_is_aligned a \<longleftrightarrow> pmm_align_down a = a"
proof -
  have "a AND NOT (mask 12) = a \<longleftrightarrow> a AND mask 12 = 0"
    by (auto simp: bit_eq_iff bit_and_iff bit_not_iff bit_mask_iff)
  then show ?thesis
    unfolding pmm_is_aligned_def pmm_align_down_def mask_12 by simp
qed

lemma pa_aligned [simp]: "p < 2 ^ 20 \<Longrightarrow> pmm_is_aligned (pa p)"
  by (simp add: aligned_iff align_down_pa)

subsection \<open>Frames of the list operations\<close>

lemmas list_defs = buddy_add_to_free_list_def buddy_remove_from_free_list_def set_next_def set_prev_def
  set_free_list_def Let_def

lemma list_op_fields [simp]:
  "order_map (buddy_add_to_free_list s a k) = order_map s"
  "status_map (buddy_add_to_free_list s a k) = status_map s"
  "refcount_map (buddy_add_to_free_list s a k) = refcount_map s"
  "total_pages (buddy_add_to_free_list s a k) = total_pages s"
  "used_pages (buddy_add_to_free_list s a k) = used_pages s"
  "alloc_count (buddy_add_to_free_list s a k) = alloc_count s"
  "order_map (buddy_remove_from_free_list s a k) = order_map s"
  "status_map (buddy_remove_from_free_list s a k) = status_map s"
  "refcount_map (buddy_remove_from_free_list s a k) = refcount_map s"
  "total_pages (buddy_remove_from_free_list s a k) = total_pages s"
  "used_pages (buddy_remove_from_free_list s a k) = used_pages s"
  "alloc_count (buddy_remove_from_free_list s a k) = alloc_count s"
  by (auto simp: list_defs)

lemma metadata_fields [simp]:
  "free_lists (buddy_set_order s p k) = free_lists s" "blocks (buddy_set_order s p k) = blocks s"
  "status_map (buddy_set_order s p k) = status_map s" "refcount_map (buddy_set_order s p k) = refcount_map s"
  "total_pages (buddy_set_order s p k) = total_pages s" "used_pages (buddy_set_order s p k) = used_pages s"
  "alloc_count (buddy_set_order s p k) = alloc_count s"
  "free_lists (buddy_mark_free s p) = free_lists s" "blocks (buddy_mark_free s p) = blocks s"
  "order_map (buddy_mark_free s p) = order_map s" "refcount_map (buddy_mark_free s p) = refcount_map s"
  "total_pages (buddy_mark_free s p) = total_pages s" "used_pages (buddy_mark_free s p) = used_pages s"
  "alloc_count (buddy_mark_free s p) = alloc_count s"
  "free_lists (buddy_mark_allocated s p) = free_lists s" "blocks (buddy_mark_allocated s p) = blocks s"
  "order_map (buddy_mark_allocated s p) = order_map s" "refcount_map (buddy_mark_allocated s p) = refcount_map s"
  "total_pages (buddy_mark_allocated s p) = total_pages s" "used_pages (buddy_mark_allocated s p) = used_pages s"
  "alloc_count (buddy_mark_allocated s p) = alloc_count s"
  by (simp_all add: buddy_set_order_def buddy_mark_free_def buddy_mark_allocated_def Let_def)

lemma accessor_frames [simp]:
  "buddy_get_order (buddy_add_to_free_list s a k) = buddy_get_order s"
  "buddy_get_order (buddy_remove_from_free_list s a k) = buddy_get_order s"
  "buddy_get_order (buddy_mark_free s p) = buddy_get_order s"
  "buddy_get_order (buddy_mark_allocated s p) = buddy_get_order s"
  "buddy_get_order (s\<lparr>used_pages := u\<rparr>) = buddy_get_order s"
  "buddy_get_order (s\<lparr>alloc_count := c\<rparr>) = buddy_get_order s"
  "buddy_get_order (s\<lparr>refcount_map := r\<rparr>) = buddy_get_order s"
  "buddy_is_allocated (buddy_add_to_free_list s a k) = buddy_is_allocated s"
  "buddy_is_allocated (buddy_remove_from_free_list s a k) = buddy_is_allocated s"
  "buddy_is_allocated (buddy_set_order s p k) = buddy_is_allocated s"
  "buddy_is_allocated (s\<lparr>used_pages := u\<rparr>) = buddy_is_allocated s"
  "buddy_is_allocated (s\<lparr>alloc_count := c\<rparr>) = buddy_is_allocated s"
  "buddy_is_allocated (s\<lparr>refcount_map := r\<rparr>) = buddy_is_allocated s"
  by (simp_all add: fun_eq_iff buddy_get_order_def buddy_is_allocated_def)

subsection \<open>Free lists\<close>

definition lists_ok :: "pmm \<Rightarrow> (nat \<Rightarrow> u32 list) \<Rightarrow> bool" where
  "lists_ok s L \<longleftrightarrow>
     (\<forall>k\<le>BUDDY_MAX_ORDER. dll (\<lambda>a. bb_next (blocks s a)) (\<lambda>a. bb_prev (blocks s a)) 0 0 (free_lists s k) (L k)
        \<and> distinct (L k)) \<and>
     (\<forall>k\<le>BUDDY_MAX_ORDER. \<forall>j\<le>BUDDY_MAX_ORDER. j \<noteq> k \<longrightarrow> set (L j) \<inter> set (L k) = {})"

lemma lists_ok_cong: "free_lists t = free_lists s \<Longrightarrow> blocks t = blocks s \<Longrightarrow> lists_ok t L = lists_ok s L"
  by (simp add: lists_ok_def)

lemma lists_ok_add:
  assumes "lists_ok s L" and "k \<le> BUDDY_MAX_ORDER" and "a \<noteq> 0"
    and new: "\<And>j. j \<le> BUDDY_MAX_ORDER \<Longrightarrow> a \<notin> set (L j)"
  shows "lists_ok (buddy_add_to_free_list s a k) (L(k := a # L k))"
proof -
  let ?t = "buddy_add_to_free_list s a k"
  have D: "dll (\<lambda>a. bb_next (blocks s a)) (\<lambda>a. bb_prev (blocks s a)) 0 0 (free_lists s j) (L j)" "distinct (L j)"
    if "j \<le> BUDDY_MAX_ORDER" for j
    using assms(1) that by (auto simp: lists_ok_def)
  have hd: "free_lists s k \<noteq> 0 \<Longrightarrow> free_lists s k \<in> set (L k)"
    using dll_head [OF D(1) [OF assms(2)]] by (auto split: list.splits)
  have heads: "free_lists ?t = (free_lists s)(k := a)"
    by (auto simp: list_defs)
  have "dll (\<lambda>a. bb_next (blocks ?t a)) (\<lambda>a. bb_prev (blocks ?t a)) 0 0 a (a # L k)"
    using new [OF assms(2)] assms(3) hd dll_null [OF D(1) [OF assms(2)]]
    by (intro dll_push [OF D(1) [OF assms(2)] _ _ D(2) [OF assms(2)]]) (auto simp: list_defs)
  moreover have "dll (\<lambda>a. bb_next (blocks ?t a)) (\<lambda>a. bb_prev (blocks ?t a)) 0 0 (free_lists s j) (L j)"
    if j: "j \<le> BUDDY_MAX_ORDER" "j \<noteq> k" for j
  proof -
    have dj: "set (L j) \<inter> set (L k) = {}"
      using assms(1,2) j unfolding lists_ok_def by blast
    have "x \<noteq> a \<and> x \<noteq> free_lists s k" if x: "x \<in> set (L j)" for x
      using new [OF j(1)] hd dll_null [OF D(1) [OF j(1)]] dj x by (cases "free_lists s k = 0") auto
    then have "dll (\<lambda>a. bb_next (blocks ?t a)) (\<lambda>a. bb_prev (blocks ?t a)) 0 0 (free_lists s j) (L j) =
          dll (\<lambda>a. bb_next (blocks s a)) (\<lambda>a. bb_prev (blocks s a)) 0 0 (free_lists s j) (L j)"
      by (intro dll_cong) (auto simp: list_defs)
    then show ?thesis using D(1) [OF j(1)] by simp
  qed
  ultimately show ?thesis
    using assms new D(2) heads unfolding lists_ok_def by auto
qed

lemma lists_ok_remove:
  assumes "lists_ok s L" and "k \<le> BUDDY_MAX_ORDER" and "a \<in> set (L k)"
  shows "lists_ok (buddy_remove_from_free_list s a k) (L(k := remove1 a (L k)))"
proof -
  let ?t = "buddy_remove_from_free_list s a k"
  let ?n = "\<lambda>a. bb_next (blocks s a)" and ?p = "\<lambda>a. bb_prev (blocks s a)"
  have D: "dll ?n ?p 0 0 (free_lists s j) (L j)" "distinct (L j)" if "j \<le> BUDDY_MAX_ORDER" for j
    using assms(1) that by (auto simp: lists_ok_def)
  obtain ys zs where sp: "L k = ys @ a # zs"
    using assms(3) split_list by metis
  have "distinct (0 # ys @ a # zs)"
    using D [OF assms(2)] dll_null [OF D(1) [OF assms(2)]] sp by simp
  from dll_remove_split [OF D(1) [OF assms(2), unfolded sp] this]
  have "?p a = last (0 # ys)" "?n a = hd (zs @ [0])"
    by blast+
  then have nb: "?p a \<noteq> 0 \<Longrightarrow> ?p a \<in> set (L k)" "?n a \<noteq> 0 \<Longrightarrow> ?n a \<in> set (L k)" "?p a \<noteq> a" "?n a \<noteq> a"
    using sp \<open>distinct (0 # ys @ a # zs)\<close>
    by (cases ys rule: rev_cases; cases zs; auto)+
  have heads: "free_lists ?t = (free_lists s)(k := (if ?p a \<noteq> 0 then free_lists s k else ?n a))"
    using nb(3) by (auto simp: list_defs)
  have "dll (\<lambda>a. bb_next (blocks ?t a)) (\<lambda>a. bb_prev (blocks ?t a)) 0 0
          (if ?p a \<noteq> 0 then free_lists s k else ?n a) (remove1 a (L k))"
    using nb(3,4) by (intro dll_remove [OF D(1) [OF assms(2)] assms(3) D(2) [OF assms(2)]]) (auto simp: list_defs)
  moreover have "dll (\<lambda>a. bb_next (blocks ?t a)) (\<lambda>a. bb_prev (blocks ?t a)) 0 0 (free_lists s j) (L j)"
    if j: "j \<le> BUDDY_MAX_ORDER" "j \<noteq> k" for j
  proof -
    have dj: "set (L j) \<inter> set (L k) = {}"
      using assms(1,2) j unfolding lists_ok_def by blast
    have nz: "0 \<notin> set (L j)"
      using dll_null [OF D(1) [OF j(1)]] .
    have "x \<noteq> 0 \<and> x \<noteq> ?p a \<and> x \<noteq> ?n a" if x: "x \<in> set (L j)" for x
      using nb(1,2) nz dj x by (metis disjoint_iff)
    then have "dll (\<lambda>a. bb_next (blocks ?t a)) (\<lambda>a. bb_prev (blocks ?t a)) 0 0 (free_lists s j) (L j) =
          dll ?n ?p 0 0 (free_lists s j) (L j)"
      using nb(3,4) by (intro dll_cong) (auto simp: list_defs)
    then show ?thesis using D(1) [OF j(1)] by simp
  qed
  moreover have "set ((L(k := remove1 a (L k))) i) \<subseteq> set (L i)" for i
    using set_remove1_subset [of a "L k"] by auto
  then have "\<forall>i\<le>BUDDY_MAX_ORDER. \<forall>j\<le>BUDDY_MAX_ORDER. j \<noteq> i \<longrightarrow>
      set ((L(k := remove1 a (L k))) j) \<inter> set ((L(k := remove1 a (L k))) i) = {}"
    using assms(1) unfolding lists_ok_def by blast
  ultimately show ?thesis
    using assms(2) D(2) heads unfolding lists_ok_def by auto
qed

text \<open>The free lists hold exactly the free blocks.\<close>

definition free_lists_ok :: "pmm \<Rightarrow> (nat \<times> nat) set \<Rightarrow> bool" where
  "free_lists_ok s FB \<longleftrightarrow> (\<forall>(p, k)\<in>FB. p < 2 ^ 20 \<and> p \<noteq> 0 \<and> k \<le> BUDDY_MAX_ORDER) \<and>
     (\<exists>L. lists_ok s L \<and> (\<forall>k\<le>BUDDY_MAX_ORDER. set (L k) = pa ` {p. (p, k) \<in> FB}))"

lemma free_lists_ok_cong:
  "free_lists t = free_lists s \<Longrightarrow> blocks t = blocks s \<Longrightarrow> free_lists_ok t FB = free_lists_ok s FB"
  by (simp add: free_lists_ok_def lists_ok_def)

lemma free_lists_range: "free_lists_ok s FB \<Longrightarrow> (p, k) \<in> FB \<Longrightarrow> p < 2 ^ 20 \<and> p \<noteq> 0 \<and> k \<le> BUDDY_MAX_ORDER"
  unfolding free_lists_ok_def by blast

lemma free_lists_add:
  assumes ok: "free_lists_ok s FB" and "k \<le> BUDDY_MAX_ORDER" and "p < 2 ^ 20" and "p \<noteq> 0"
    and new: "\<And>j. (p, j) \<notin> FB"
  shows "free_lists_ok (buddy_add_to_free_list s (pa p) k) (insert (p, k) FB)"
proof -
  obtain L where L: "lists_ok s L" "\<And>j. j \<le> BUDDY_MAX_ORDER \<Longrightarrow> set (L j) = pa ` {q. (q, j) \<in> FB}"
    using ok unfolding free_lists_ok_def by blast
  have "pa p \<notin> set (L j)" if j: "j \<le> BUDDY_MAX_ORDER" for j
  proof
    assume "pa p \<in> set (L j)"
    then obtain q where q: "(q, j) \<in> FB" "pa p = pa q"
      unfolding L(2) [OF j] by blast
    then have "p = q"
      using pa_inj [OF assms(3), of q] free_lists_range [OF ok] by blast
    then show False using new q(1) by blast
  qed
  from lists_ok_add [OF L(1) assms(2) _ this]
  have "lists_ok (buddy_add_to_free_list s (pa p) k) (L(k := pa p # L k))"
    using assms(3,4) pa_0 by simp
  moreover have "set ((L(k := pa p # L k)) j) = pa ` {q. (q, j) \<in> insert (p, k) FB}" if "j \<le> BUDDY_MAX_ORDER" for j
    using L(2) [OF that] by auto
  moreover have "\<forall>(q, j)\<in>insert (p, k) FB. q < 2 ^ 20 \<and> q \<noteq> 0 \<and> j \<le> BUDDY_MAX_ORDER"
    using assms(2-4) free_lists_range [OF ok] by blast
  ultimately show ?thesis
    unfolding free_lists_ok_def by blast
qed

lemma free_lists_remove:
  assumes ok: "free_lists_ok s FB" and mem: "(p, k) \<in> FB"
  shows "free_lists_ok (buddy_remove_from_free_list s (pa p) k) (FB - {(p, k)})"
proof -
  obtain L where L: "lists_ok s L" "\<And>j. j \<le> BUDDY_MAX_ORDER \<Longrightarrow> set (L j) = pa ` {q. (q, j) \<in> FB}"
    using ok unfolding free_lists_ok_def by blast
  have k: "k \<le> BUDDY_MAX_ORDER" and p: "p < 2 ^ 20"
    using free_lists_range [OF ok mem] by blast+
  have "pa p \<in> set (L k)"
    using L(2) [OF k] mem by blast
  from lists_ok_remove [OF L(1) k this]
  have ok': "lists_ok (buddy_remove_from_free_list s (pa p) k) (L(k := remove1 (pa p) (L k)))" .
  have "distinct (L k)"
    using L(1) k unfolding lists_ok_def by blast
  then have "set (remove1 (pa p) (L k)) = pa ` {q. (q, k) \<in> FB} - {pa p}"
    using L(2) [OF k] by simp
  also have "\<dots> = pa ` {q. (q, k) \<in> FB - {(p, k)}}"
  proof -
    have "inj_on pa {q. q < 2 ^ 20}"
      by (rule inj_onI) (metis mem_Collect_eq pa_inj)
    then have "pa ` ({q. (q, k) \<in> FB} - {p}) = pa ` {q. (q, k) \<in> FB} - pa ` {p}"
      using free_lists_range [OF ok] p by (intro inj_on_image_set_diff) blast+
    moreover have "{q. (q, k) \<in> FB - {(p, k)}} = {q. (q, k) \<in> FB} - {p}"
      by blast
    ultimately show ?thesis by simp
  qed
  finally have "set ((L(k := remove1 (pa p) (L k))) j) = pa ` {q. (q, j) \<in> FB - {(p, k)}}"
    if "j \<le> BUDDY_MAX_ORDER" for j
    using L(2) [OF that] by auto
  with ok' show ?thesis
    unfolding free_lists_ok_def using free_lists_range [OF ok] by blast
qed

lemma free_lists_head:
  assumes ok: "free_lists_ok s FB" and k: "k \<le> BUDDY_MAX_ORDER"
  shows "free_lists s k = 0 \<Longrightarrow> (p, k) \<notin> FB"
    and "free_lists s k \<noteq> 0 \<Longrightarrow> \<exists>p. (p, k) \<in> FB \<and> free_lists s k = pa p"
proof -
  obtain L where L: "lists_ok s L" "set (L k) = pa ` {q. (q, k) \<in> FB}"
    using ok k unfolding free_lists_ok_def by blast
  have D: "dll (\<lambda>a. bb_next (blocks s a)) (\<lambda>a. bb_prev (blocks s a)) 0 0 (free_lists s k) (L k)"
    using L(1) k unfolding lists_ok_def by blast
  show "free_lists s k = 0 \<Longrightarrow> (p, k) \<notin> FB"
    using dll_empty_iff [OF D] L(2) by auto
  show "\<exists>p. (p, k) \<in> FB \<and> free_lists s k = pa p" if "free_lists s k \<noteq> 0"
  proof -
    have "free_lists s k \<in> set (L k)"
      using that dll_head [OF D] by (auto split: list.splits)
    then show ?thesis using L(2) by auto
  qed
qed

subsection \<open>Tilings by aligned blocks\<close>

fun block_pages :: "nat \<times> nat \<Rightarrow> nat set" where
  "block_pages (p, k) = {p..<p + 2 ^ k}"

declare block_pages.simps [simp del]

lemmas bp = block_pages.simps

definition tiling :: "(nat \<times> nat) set \<Rightarrow> nat set \<Rightarrow> bool" where
  "tiling B T \<longleftrightarrow> (\<forall>(p, k)\<in>B. k \<le> BUDDY_MAX_ORDER \<and> 2 ^ k dvd p) \<and>
     (\<forall>b\<in>B. \<forall>c\<in>B. b \<noteq> c \<longrightarrow> block_pages b \<inter> block_pages c = {}) \<and> (\<Union>b\<in>B. block_pages b) = T"

lemma tiling_block: "tiling B T \<Longrightarrow> (p, k) \<in> B \<Longrightarrow> k \<le> BUDDY_MAX_ORDER \<and> 2 ^ k dvd p \<and> {p..<p + 2 ^ k} \<subseteq> T"
  unfolding tiling_def by (fastforce simp: bp)

lemma tiling_unique:
  assumes "tiling B T" and "(p, k) \<in> B" and "(q, j) \<in> B" and "x \<in> {p..<p + 2 ^ k}" and "x \<in> {q..<q + 2 ^ j}"
  shows "p = q \<and> k = j"
  using assms unfolding tiling_def by (metis block_pages.simps disjoint_iff prod.inject)

lemma tiling_head_unique: "tiling B T \<Longrightarrow> (p, k) \<in> B \<Longrightarrow> (p, j) \<in> B \<Longrightarrow> k = j"
  using tiling_unique [of B T p k p j p] by simp

lemma tiling_cover: "tiling B T \<Longrightarrow> x \<in> T \<Longrightarrow> \<exists>p k. (p, k) \<in> B \<and> x \<in> {p..<p + 2 ^ k}"
  unfolding tiling_def by (fastforce simp: bp)

lemma tiling_insert:
  assumes "(p, k) \<notin> B"
  shows "tiling (insert (p, k) B) T \<longleftrightarrow>
    k \<le> BUDDY_MAX_ORDER \<and> 2 ^ k dvd p \<and> {p..<p + 2 ^ k} \<subseteq> T \<and> tiling B (T - {p..<p + 2 ^ k})"
    (is "?L \<longleftrightarrow> ?R")
proof
  assume L: ?L
  have "\<forall>c\<in>B. block_pages (p, k) \<inter> block_pages c = {}"
    using L assms unfolding tiling_def by (metis insertCI)
  moreover have "block_pages (p, k) \<union> (\<Union>b\<in>B. block_pages b) = T"
    using L by (simp add: tiling_def)
  ultimately have "(\<Union>b\<in>B. block_pages b) = T - block_pages (p, k)"
    by blast
  moreover have "\<forall>(q, j)\<in>B. j \<le> BUDDY_MAX_ORDER \<and> 2 ^ j dvd q"
    "\<forall>b\<in>B. \<forall>c\<in>B. b \<noteq> c \<longrightarrow> block_pages b \<inter> block_pages c = {}"
    using L by (simp_all add: tiling_def)
  ultimately have "tiling B (T - {p..<p + 2 ^ k})"
    by (simp add: tiling_def bp [of p k])
  then show ?R
    using tiling_block [OF L, of p k] by simp
next
  assume R: ?R
  then have un: "(\<Union>b\<in>B. block_pages b) = T - block_pages (p, k)" and sub: "block_pages (p, k) \<subseteq> T"
    by (simp_all add: tiling_def bp [of p k])
  then have "block_pages (p, k) \<union> (\<Union>b\<in>B. block_pages b) = T"
    by blast
  moreover have dj: "block_pages (p, k) \<inter> block_pages c = {}" if "c \<in> B" for c
    using un that by blast
  moreover have "\<forall>b\<in>insert (p, k) B. \<forall>c\<in>insert (p, k) B. b \<noteq> c \<longrightarrow> block_pages b \<inter> block_pages c = {}"
  proof (intro ballI impI)
    fix b c assume "b \<in> insert (p, k) B" "c \<in> insert (p, k) B" "b \<noteq> c"
    then consider "b = (p, k)" "c \<in> B" | "c = (p, k)" "b \<in> B" | "b \<in> B" "c \<in> B" by blast
    then show "block_pages b \<inter> block_pages c = {}"
      using dj R \<open>b \<noteq> c\<close> unfolding tiling_def by cases (blast+)
  qed
  moreover have "\<forall>(q, j)\<in>insert (p, k) B. j \<le> BUDDY_MAX_ORDER \<and> 2 ^ j dvd q"
    using R by (simp add: tiling_def)
  ultimately show ?L
    unfolding tiling_def by simp
qed

lemma head_in_block: "p \<in> {p..<p + 2 ^ k}" for p :: nat
  by simp

lemma tiling_not_in: "tiling B T \<Longrightarrow> p \<notin> T \<Longrightarrow> (p, k) \<notin> B"
  using tiling_block [of B T p k] head_in_block [of p k] by blast

lemma half_pages:
  "{p..<p + 2 ^ Suc k} = {p..<p + 2 ^ k} \<union> {p + 2 ^ k..<p + 2 ^ k + 2 ^ k}" for p :: nat
  by auto

lemma tiling_halves:
  assumes "(p, k) \<notin> B" and "(p + 2 ^ k, k) \<notin> B" and "(p, Suc k) \<notin> B" and "2 ^ Suc k dvd p" and "k < BUDDY_MAX_ORDER"
  shows "tiling (insert (p, Suc k) B) T \<longleftrightarrow> tiling (insert (p, k) (insert (p + 2 ^ k, k) B)) T"
proof -
  have "2 ^ k dvd p" "2 ^ k dvd p + 2 ^ k"
    using assms(4) by (meson dvd_trans le_imp_power_dvd lessI less_imp_le dvd_add dvd_refl)+
  moreover have nin: "(p, k) \<notin> insert (p + 2 ^ k, k) B"
    using assms(1) by simp
  moreover have "T - {p..<p + 2 ^ k} - {p + 2 ^ k..<p + 2 ^ k + 2 ^ k} = T - {p..<p + 2 ^ Suc k}"
    unfolding half_pages by blast
  moreover have "{p..<p + 2 ^ k} \<subseteq> T \<and> {p + 2 ^ k..<p + 2 ^ k + 2 ^ k} \<subseteq> T - {p..<p + 2 ^ k} \<longleftrightarrow>
      {p..<p + 2 ^ Suc k} \<subseteq> T"
    unfolding half_pages by fastforce
  ultimately show ?thesis
    using assms(4,5) unfolding tiling_insert [OF assms(3)] tiling_insert [OF nin] tiling_insert [OF assms(2)]
    by auto
qed

lemma tiling_split:
  assumes "tiling (insert (p, Suc k) B) T" and "(p, Suc k) \<notin> B"
  shows "tiling (insert (p, k) (insert (p + 2 ^ k, k) B)) T" and "\<And>j. (p, j) \<notin> B" and "\<And>j. (p + 2 ^ k, j) \<notin> B"
proof -
  have R: "Suc k \<le> BUDDY_MAX_ORDER" "2 ^ Suc k dvd p" "tiling B (T - {p..<p + 2 ^ Suc k})"
    using assms by (simp_all add: tiling_insert)
  show "\<And>j. (p, j) \<notin> B" "\<And>j. (p + 2 ^ k, j) \<notin> B"
    by (rule tiling_not_in [OF R(3)], simp)+
  then show "tiling (insert (p, k) (insert (p + 2 ^ k, k) B)) T"
    using tiling_halves [of p k B T] assms R by simp
qed

lemma tiling_merge:
  assumes "tiling (insert (p, k) (insert (p + 2 ^ k, k) B)) T" and "2 ^ Suc k dvd p" and "k < BUDDY_MAX_ORDER"
    and "(p, k) \<notin> B" and "(p + 2 ^ k, k) \<notin> B"
  shows "tiling (insert (p, Suc k) B) T" and "\<And>j. (p, j) \<notin> B"
proof -
  show "(p, j) \<notin> B" for j
    using tiling_head_unique [OF assms(1), of p k j] assms(4) by auto
  then show "tiling (insert (p, Suc k) B) T"
    using tiling_halves [of p k B T] assms by simp
qed

lemma dvd_twice: "2 ^ Suc k dvd 2 ^ k * m \<longleftrightarrow> even m" for m :: nat
  unfolding power_Suc2 by (simp add: nat_mult_dvd_cancel_disj)

lemma buddy_page:
  assumes "2 ^ k dvd p"
  shows "buddy_get_buddy_page p k = (if 2 ^ Suc k dvd p then p + 2 ^ k else p - 2 ^ k)"
    and "\<not> 2 ^ Suc k dvd p \<Longrightarrow> 2 ^ k \<le> p \<and> 2 ^ Suc k dvd p - 2 ^ k"
proof -
  obtain m where p: "p = 2 ^ k * m"
    using assms by blast
  have "buddy_get_buddy_page p k = push_bit k m XOR push_bit k 1"
    by (simp add: buddy_get_buddy_page_def p push_bit_eq_mult mult.commute)
  also have "\<dots> = push_bit k (m XOR 1)"
    by (simp only: push_bit_xor)
  finally have x: "buddy_get_buddy_page p k = 2 ^ k * (m XOR 1)"
    by (simp add: push_bit_eq_mult mult.commute)
  show "buddy_get_buddy_page p k = (if 2 ^ Suc k dvd p then p + 2 ^ k else p - 2 ^ k)"
    using x unfolding p dvd_twice unfolding xor_one_eq by (simp add: distrib_left right_diff_distrib')
  show "2 ^ k \<le> p \<and> 2 ^ Suc k dvd p - 2 ^ k" if "\<not> 2 ^ Suc k dvd p"
  proof -
    have "odd m"
      using that unfolding p dvd_twice .
    then obtain n where "m = 2 * n + 1"
      by (rule oddE)
    then show ?thesis
      unfolding p by (simp add: distrib_left)
  qed
qed

lemma dvd_below: "d dvd a \<Longrightarrow> d dvd b \<Longrightarrow> a < b + d \<Longrightarrow> a \<le> b" for a b d :: nat
  by (metis add.commute dvd_diff_nat less_diff_conv2 nat_dvd_not_less nat_le_linear not_less zero_less_diff)

text \<open>The two halves of a block of the next order.\<close>

lemma buddy_pair:
  assumes "2 ^ k dvd p"
  obtains h where "2 ^ Suc k dvd h" and "p = h \<and> buddy_get_buddy_page p k = h + 2 ^ k \<or>
    p = h + 2 ^ k \<and> buddy_get_buddy_page p k = h"
  using buddy_page [OF assms] by (cases "2 ^ Suc k dvd p") force+

lemma buddy_aligned: "2 ^ k dvd p \<Longrightarrow> 2 ^ k dvd buddy_get_buddy_page p k"
  by (metis buddy_page(1) dvd_add dvd_diff_nat dvd_refl)

lemma buddy_invol: "buddy_get_buddy_page (buddy_get_buddy_page p k) k = p"
  by (simp add: buddy_get_buddy_page_def xor.assoc)

lemma buddy_neq: "2 ^ k dvd p \<Longrightarrow> buddy_get_buddy_page p k \<noteq> p"
  by (rule buddy_pair) auto

text \<open>The buddy of a block of a tiling starts a block of the same or a smaller order.\<close>

lemma tiling_buddy:
  assumes t: "tiling B T" and b: "(p, k) \<in> B" and q: "buddy_get_buddy_page p k \<in> T"
  shows "\<exists>j\<le>k. (buddy_get_buddy_page p k, j) \<in> B"
proof -
  define q where "q = buddy_get_buddy_page p k"
  have al: "2 ^ k dvd p"
    using tiling_block [OF t b] by blast
  obtain r j where rj: "(r, j) \<in> B" "r \<le> q" "q < r + 2 ^ j"
    using tiling_cover [OF t q] unfolding q_def by auto
  have r: "2 ^ j dvd r"
    using tiling_block [OF t rj(1)] by blast
  show ?thesis
  proof (cases "j \<le> k")
    case True
    then have "2 ^ j dvd q"
      using buddy_aligned [OF al] q_def by (meson dvd_trans le_imp_power_dvd)
    then have "r = q"
      using dvd_below [OF _ r rj(3)] rj(2) by simp
    then show ?thesis
      using rj(1) True q_def by blast
  next
    case False
    then have d: "(2 :: nat) ^ Suc k dvd 2 ^ j"
      by (intro le_imp_power_dvd) simp
    then have r': "2 ^ Suc k dvd r" "2 ^ Suc k dvd r + 2 ^ j"
      using r dvd_trans by (blast, meson dvd_add dvd_trans)
    obtain h where h: "2 ^ Suc k dvd h" "p = h \<and> q = h + 2 ^ k \<or> p = h + 2 ^ k \<and> q = h"
      using buddy_pair [OF al] q_def by metis
    have lt: "(2 :: nat) ^ k < 2 ^ Suc k"
      by simp
    have near: "q \<le> h + 2 ^ k" "p \<le> h + 2 ^ k" "h \<le> q" "h \<le> p"
      using h(2) by auto
    have "r \<le> h"
      using near rj(2) lt by (intro dvd_below [OF r'(1) h(1)]) linarith
    moreover have "h + 2 ^ Suc k \<le> r + 2 ^ j"
      using r'(2) h(1) near rj(3) by (intro dvd_below [where d = "2 ^ Suc k"]) (auto intro: dvd_add)
    ultimately have "p \<in> {r..<r + 2 ^ j}"
      using near lt unfolding atLeastLessThan_iff by linarith
    then have "j = k"
      using tiling_unique [OF t b rj(1) head_in_block] by blast
    then show ?thesis using False by simp
  qed
qed

subsection \<open>The invariant\<close>

definition block_sum :: "(nat \<times> nat) set \<Rightarrow> nat" where
  "block_sum A = (\<Sum>b\<in>A. 2 ^ snd b)"

definition pmm_inv :: "pmm \<Rightarrow> (nat \<times> nat) set \<Rightarrow> (nat \<times> nat) set \<Rightarrow> (nat \<times> nat) set \<Rightarrow> nat set \<Rightarrow> bool" where
  "pmm_inv s FB A LB T \<longleftrightarrow> total_pages s \<le> 2 ^ 20 \<and> T \<subseteq> {..<total_pages s} \<and>
     tiling (FB \<union> A \<union> LB) T \<and> FB \<inter> A = {} \<and> LB \<inter> (FB \<union> A) = {} \<and> free_lists_ok s FB \<and>
     (\<forall>p k. (p, k) \<in> FB \<union> A \<longrightarrow> buddy_get_order s p = k) \<and>
     (\<forall>p<total_pages s. buddy_is_allocated s p \<longleftrightarrow> p \<in> fst ` A) \<and>
     used_pages s = of_nat (block_sum A)"

lemma pmm_invD:
  assumes "pmm_inv s FB A LB T"
  shows "total_pages s \<le> 2 ^ 20" "T \<subseteq> {..<total_pages s}" "tiling (FB \<union> A \<union> LB) T" "FB \<inter> A = {}"
    "LB \<inter> (FB \<union> A) = {}" "free_lists_ok s FB" "\<And>p k. (p, k) \<in> FB \<union> A \<Longrightarrow> buddy_get_order s p = k"
    "\<And>p. p < total_pages s \<Longrightarrow> buddy_is_allocated s p \<longleftrightarrow> p \<in> fst ` A" "used_pages s = of_nat (block_sum A)"
  using assms unfolding pmm_inv_def by (simp_all del: Un_iff)

lemma pmm_invI:
  assumes "total_pages s \<le> 2 ^ 20" "T \<subseteq> {..<total_pages s}" "tiling (FB \<union> A \<union> LB) T" "FB \<inter> A = {}"
    "LB \<inter> (FB \<union> A) = {}" "free_lists_ok s FB" "\<And>p k. (p, k) \<in> FB \<union> A \<Longrightarrow> buddy_get_order s p = k"
    "\<And>p. p < total_pages s \<Longrightarrow> buddy_is_allocated s p \<longleftrightarrow> p \<in> fst ` A" "used_pages s = of_nat (block_sum A)"
  shows "pmm_inv s FB A LB T"
  unfolding pmm_inv_def using assms by (simp del: Un_iff)

lemma pmm_inv_refcount [simp]: "pmm_inv (s\<lparr>refcount_map := r\<rparr>) FB A LB T = pmm_inv s FB A LB T"
  by (simp add: pmm_inv_def free_lists_ok_def lists_ok_def)

lemma pmm_inv_alloc_count [simp]: "pmm_inv (s\<lparr>alloc_count := c\<rparr>) FB A LB T = pmm_inv s FB A LB T"
  by (simp add: pmm_inv_def free_lists_ok_def lists_ok_def)

lemma inv_block:
  assumes "pmm_inv s FB A LB T" and "(p, k) \<in> FB \<union> A \<union> LB"
  shows "k \<le> BUDDY_MAX_ORDER" and "2 ^ k dvd p" and "{p..<p + 2 ^ k} \<subseteq> T" and "p < total_pages s" and "p < 2 ^ 20"
proof -
  note D = pmm_invD [OF assms(1)]
  show "k \<le> BUDDY_MAX_ORDER" "2 ^ k dvd p" and sub: "{p..<p + 2 ^ k} \<subseteq> T"
    using tiling_block [OF D(3) assms(2)] by blast+
  then show "p < total_pages s"
    using D(2) head_in_block [of p k] by blast
  then show "p < 2 ^ 20"
    using D(1) by (rule less_le_trans)
qed

lemma tiling_finite: "tiling B T \<Longrightarrow> finite T \<Longrightarrow> finite B"
proof -
  assume t: "tiling B T" and "finite T"
  have "B \<subseteq> T \<times> {..BUDDY_MAX_ORDER}"
  proof
    fix b assume "b \<in> B"
    then show "b \<in> T \<times> {..BUDDY_MAX_ORDER}"
      using tiling_block [OF t, of "fst b" "snd b"] head_in_block [of "fst b" "snd b"] by (cases b) auto
  qed
  then show ?thesis
    using \<open>finite T\<close> finite_subset by blast
qed

lemma inv_finite: "pmm_inv s FB A LB T \<Longrightarrow> finite A"
  using tiling_finite pmm_invD(2,3) by (metis finite_Un finite_lessThan finite_subset)

lemma inv_detach:
  assumes inv: "pmm_inv s FB A LB T" and b: "(p, k) \<in> FB"
  shows "pmm_inv (buddy_remove_from_free_list s (pa p) k) (FB - {(p, k)}) A (insert (p, k) LB) T"
proof -
  note D = pmm_invD [OF inv]
  have "FB - {(p, k)} \<union> A \<union> insert (p, k) LB = FB \<union> A \<union> LB"
    using b by blast
  then show ?thesis
    using D(1-3,8,9) free_lists_remove [OF D(6) b]
    by (intro pmm_invI) (use D(4,5,7) b in \<open>auto\<close>)
qed

lemma inv_attach:
  assumes inv: "pmm_inv s FB A {(p, k)} T" and "p \<noteq> 0" and "buddy_get_order s p = k"
  shows "pmm_inv (buddy_add_to_free_list s (pa p) k) (insert (p, k) FB) A {} T"
proof -
  note D = pmm_invD [OF inv]
  have "(p, j) \<notin> FB" for j
    using tiling_head_unique [OF D(3), of p k j] D(5) by blast
  then have "free_lists_ok (buddy_add_to_free_list s (pa p) k) (insert (p, k) FB)"
    using inv_block [OF inv, of p k] assms(2) by (intro free_lists_add [OF D(6)]) auto
  moreover have "insert (p, k) FB \<union> A \<union> {} = FB \<union> A \<union> {(p, k)}"
    by blast
  ultimately show ?thesis
    using D(1-3,8,9) by (intro pmm_invI) (use D(4,5,7) assms(3) in \<open>auto\<close>)
qed

text \<open>A detached block becomes an allocated one.\<close>

lemma inv_allocate:
  assumes inv: "pmm_inv s FB A {(p, k)} T"
  shows "pmm_inv ((buddy_mark_allocated (buddy_set_order s p k) p)\<lparr>used_pages := used_pages s + 2 ^ k\<rparr>)
           FB (insert (p, k) A) {} T"
proof -
  note D = pmm_invD [OF inv]
  let ?t = "(buddy_mark_allocated (buddy_set_order s p k) p)\<lparr>used_pages := used_pages s + 2 ^ k\<rparr>"
  have k: "k \<le> BUDDY_MAX_ORDER"
    using inv_block [OF inv, of p k] by simp
  have new: "(p, j) \<notin> FB \<union> A" for j
    using tiling_head_unique [OF D(3), of p k j] D(5) by blast
  have "block_sum (insert (p, k) A) = block_sum A + 2 ^ k"
    using new inv_finite [OF inv] by (simp add: block_sum_def)
  then have "used_pages ?t = of_nat (block_sum (insert (p, k) A))"
    using D(9) by simp
  moreover have "free_lists_ok ?t FB"
    using D(6) by (simp add: free_lists_ok_def lists_ok_def)
  moreover have "buddy_get_order ?t q = j" if "(q, j) \<in> FB \<union> insert (p, k) A" for q j
    using that D(7) new k get_set_order [of k s p q] by (cases "q = p") (auto simp: BUDDY_MAX_ORDER_def)
  moreover have "buddy_is_allocated ?t q \<longleftrightarrow> q \<in> fst ` insert (p, k) A" if "q < total_pages s" for q
    using D(8) [OF that] by (auto simp: is_allocated_mark_allocated)
  moreover have "FB \<union> insert (p, k) A \<union> {} = FB \<union> A \<union> {(p, k)}"
    by blast
  ultimately show ?thesis
    using D(1-3) by (intro pmm_invI) (use D(4) new in \<open>auto\<close>)
qed

text \<open>A released block is detached.\<close>

lemma inv_release:
  assumes inv: "pmm_inv s FB A {} T" and b: "(p, k) \<in> A"
  shows "pmm_inv ((buddy_mark_free s p)\<lparr>used_pages := used_pages s - 2 ^ k\<rparr>) FB (A - {(p, k)}) {(p, k)} T"
proof -
  note D = pmm_invD [OF inv]
  let ?t = "(buddy_mark_free s p)\<lparr>used_pages := used_pages s - 2 ^ k\<rparr>"
  have "block_sum A = block_sum (A - {(p, k)}) + 2 ^ k"
    using sum.remove [OF inv_finite [OF inv] b, of "\<lambda>b. 2 ^ snd b :: nat"] by (simp add: block_sum_def)
  then have used: "used_pages ?t = of_nat (block_sum (A - {(p, k)}))"
    using D(9) by simp
  have lists: "free_lists_ok ?t FB"
    using D(6) by (simp add: free_lists_ok_def lists_ok_def)
  have heads: "fst ` (A - {(p, k)}) = fst ` A - {p}"
  proof (intro equalityI subsetI)
    fix q assume "q \<in> fst ` (A - {(p, k)})"
    then obtain b' where "b' \<in> A" "b' \<noteq> (p, k)" "q = fst b'" by blast
    then show "q \<in> fst ` A - {p}"
      using tiling_head_unique [OF D(3), of p k "snd b'"] b
      by (metis DiffI UnI1 UnI2 image_eqI prod.collapse singletonD)
  qed auto
  have alloc: "buddy_is_allocated ?t q \<longleftrightarrow> q \<in> fst ` (A - {(p, k)})" if "q < total_pages ?t" for q
    unfolding heads using D(8) [of q] that by (simp add: is_allocated_mark_free conj_commute)
  have "FB \<union> (A - {(p, k)}) \<union> {(p, k)} = FB \<union> A \<union> {}"
    using b by blast
  then have tile: "tiling (FB \<union> (A - {(p, k)}) \<union> {(p, k)}) T"
    using D(3) by simp
  have sep: "FB \<inter> (A - {(p, k)}) = {}" "{(p, k)} \<inter> (FB \<union> (A - {(p, k)})) = {}"
    using D(4) b by blast+
  have ord: "buddy_get_order ?t q = j" if "(q, j) \<in> FB \<union> (A - {(p, k)})" for q j
  proof -
    have "(q, j) \<in> FB \<union> A"
      using that by blast
    then show ?thesis
      using D(7) by simp
  qed
  have "total_pages ?t \<le> 2 ^ 20" "T \<subseteq> {..<total_pages ?t}"
    using D(1,2) by simp_all
  from pmm_invI [OF this tile sep lists ord alloc used] show ?thesis .
qed

subsection \<open>Splitting\<close>

definition split_rest :: "nat \<Rightarrow> nat \<Rightarrow> nat \<Rightarrow> (nat \<times> nat) set" where
  "split_rest p lo hi = (\<lambda>i. (p + 2 ^ i, i)) ` {lo..<hi}"

lemma split_rest_simps:
  "split_rest p k k = {}" "lo \<le> hi \<Longrightarrow> split_rest p lo (Suc hi) = insert (p + 2 ^ hi, hi) (split_rest p lo hi)"
  by (simp_all add: split_rest_def atLeastLessThanSuc)

text \<open>One round: the upper half becomes a free block.\<close>

lemma inv_split_step:
  assumes inv: "pmm_inv s FB A {(p, Suc f)} T" and "p \<noteq> 0"
  shows "pmm_inv (buddy_mark_free (buddy_set_order (buddy_add_to_free_list s (pa (p + 2 ^ f)) f) (p + 2 ^ f) f) (p + 2 ^ f))
           (insert (p + 2 ^ f, f) FB) A {(p, f)} T"
proof -
  note D = pmm_invD [OF inv]
  define x where "x = p + 2 ^ f"
  have t0: "tiling (insert (p, Suc f) (FB \<union> A)) T"
    using D(3) by simp
  have nin: "(p, Suc f) \<notin> FB \<union> A"
    using D(5) by blast
  note sp = tiling_split [OF t0 nin, folded x_def]
  have t: "tiling (insert (x, f) FB \<union> A \<union> {(p, f)}) T"
    using sp(1) by (simp add: insert_commute)
  have f: "f < BUDDY_MAX_ORDER"
    using inv_block [OF inv, of p "Suc f"] by simp
  have "x \<in> T"
    using tiling_block [OF sp(1), of x f] head_in_block [of x f] by blast
  then have xt: "x < total_pages s" "x < 2 ^ 20"
    using D(1,2) by auto
  have "x \<noteq> p" "x \<noteq> 0"
    by (simp_all add: x_def)
  let ?t = "buddy_mark_free (buddy_set_order (buddy_add_to_free_list s (pa x) f) x f) x"
  have "free_lists_ok (buddy_add_to_free_list s (pa x) f) (insert (x, f) FB)"
    using f xt \<open>x \<noteq> 0\<close> sp(3) by (intro free_lists_add [OF D(6)]) auto
  then have lists: "free_lists_ok ?t (insert (x, f) FB)"
    using free_lists_ok_cong [of ?t "buddy_add_to_free_list s (pa x) f"] by simp
  have ord: "buddy_get_order ?t q = j" if "(q, j) \<in> insert (x, f) FB \<union> A" for q j
  proof (cases "(q, j) = (x, f)")
    case True
    then show ?thesis
      using f get_set_order [of f] by (simp add: BUDDY_MAX_ORDER_def)
  next
    case False
    then have "(q, j) \<in> FB \<union> A" "q \<noteq> x"
      using that sp(3) by auto
    then show ?thesis
      using D(7) [of q j] f get_set_order [of f] by (simp add: BUDDY_MAX_ORDER_def)
  qed
  have "x \<notin> fst ` A"
    using sp(3) by auto
  then have alloc: "buddy_is_allocated ?t q \<longleftrightarrow> q \<in> fst ` A" if "q < total_pages ?t" for q
    using D(8) [of q] that by (auto simp: is_allocated_mark_free)
  have sep: "(insert (x, f) FB) \<inter> A = {}" "{(p, f)} \<inter> (insert (x, f) FB \<union> A) = {}"
    using D(4) sp(2,3) \<open>x \<noteq> p\<close> by auto
  have "total_pages ?t \<le> 2 ^ 20" "T \<subseteq> {..<total_pages ?t}" "used_pages ?t = of_nat (block_sum A)"
    using D(1,2,9) by simp_all
  from pmm_invI [OF this(1,2) t sep lists ord alloc this(3)] show ?thesis
    by (simp only: x_def)
qed

lemma inv_split:
  assumes "pmm_inv s FB A {(p, f)} T" and "p \<noteq> 0" and "k \<le> f"
  shows "pmm_inv (buddy_split_block s (pa p) f k) (FB \<union> split_rest p k f) A {(p, k)} T \<and>
    refcount_map (buddy_split_block s (pa p) f k) = refcount_map s \<and>
    total_pages (buddy_split_block s (pa p) f k) = total_pages s \<and>
    alloc_count (buddy_split_block s (pa p) f k) = alloc_count s"
  using assms
proof (induction f arbitrary: s FB)
  case 0
  then show ?case by (simp add: split_rest_simps)
next
  case (Suc f)
  show ?case
  proof (cases "k = Suc f")
    case True
    then show ?thesis using Suc.prems by (simp add: split_rest_simps)
  next
    case False
    define t where "t = buddy_mark_free (buddy_set_order (buddy_add_to_free_list s (pa (p + 2 ^ f)) f) (p + 2 ^ f) f) (p + 2 ^ f)"
    have inv: "pmm_inv t (insert (p + 2 ^ f, f) FB) A {(p, f)} T"
      using inv_split_step Suc.prems(1,2) unfolding t_def by blast
    have k: "k \<le> f"
      using False Suc.prems(3) by simp
    have "p + 2 ^ f < 2 ^ 20"
      using inv_block [OF inv, of "p + 2 ^ f" f] by simp
    then have "buddy_split_block s (pa p) (Suc f) k = buddy_split_block t (pa p) f k"
      using k by (simp add: pa_add t_def Let_def del: of_nat_add)
    moreover have "insert (p + 2 ^ f, f) FB \<union> split_rest p k f = FB \<union> split_rest p k (Suc f)"
      using k by (simp add: split_rest_simps)
    moreover have "refcount_map t = refcount_map s" "total_pages t = total_pages s" "alloc_count t = alloc_count s"
      by (simp_all add: t_def)
    ultimately show ?thesis
      using Suc.IH [OF inv Suc.prems(2) k] by simp
  qed
qed

subsection \<open>Coalescing\<close>

lemma inv_merge:
  assumes inv: "pmm_inv s FB A {(h, k), (h + 2 ^ k, k)} T" and "2 ^ Suc k dvd h" and "k < BUDDY_MAX_ORDER"
  shows "pmm_inv (buddy_set_order s h (Suc k)) FB A {(h, Suc k)} T"
proof -
  note D = pmm_invD [OF inv]
  have "FB \<union> A \<union> {(h, k), (h + 2 ^ k, k)} = insert (h, k) (insert (h + 2 ^ k, k) (FB \<union> A))"
    by blast
  then have t2: "tiling (insert (h, k) (insert (h + 2 ^ k, k) (FB \<union> A))) T"
    using D(3) by (simp only:)
  have "(h, k) \<notin> FB \<union> A" "(h + 2 ^ k, k) \<notin> FB \<union> A"
    using D(5) by blast+
  note mg = tiling_merge [OF t2 assms(2,3) this]
  have t: "tiling (FB \<union> A \<union> {(h, Suc k)}) T" and new: "\<And>j. (h, j) \<notin> FB \<union> A"
    using mg by (simp_all only: Un_insert_right Un_empty_right not_False_eq_True)
  let ?t = "buddy_set_order s h (Suc k)"
  have lists: "free_lists_ok ?t FB"
    using D(6) free_lists_ok_cong [of ?t s] by simp
  have ord: "buddy_get_order ?t q = j" if "(q, j) \<in> FB \<union> A" for q j
    using that D(7) [OF that] new get_set_order [of "Suc k" s h q] assms(3) by (auto simp: BUDDY_MAX_ORDER_def)
  have sep: "{(h, Suc k)} \<inter> (FB \<union> A) = {}"
    using new by blast
  have alloc: "buddy_is_allocated ?t q \<longleftrightarrow> q \<in> fst ` A" if "q < total_pages ?t" for q
    using D(8) [of q] that by simp
  have "total_pages ?t \<le> 2 ^ 20" "T \<subseteq> {..<total_pages ?t}" "used_pages ?t = of_nat (block_sum A)"
    using D(1,2,9) by simp_all
  from pmm_invI [OF this(1,2) t D(4) sep lists ord alloc this(3)] show ?thesis .
qed

definition merged :: "pmm \<Rightarrow> (nat \<times> nat) set \<Rightarrow> (nat \<times> nat) set \<Rightarrow> pmm \<Rightarrow> nat \<Rightarrow> nat \<Rightarrow> (nat \<times> nat) set \<Rightarrow> bool" where
  "merged s FB A t q j FB' \<longleftrightarrow> pmm_inv t FB' A {(q, j)} {..<total_pages s} \<and> buddy_get_order t q = j \<and>
     q \<noteq> 0 \<and> FB' \<subseteq> FB \<and> (j < BUDDY_MAX_ORDER \<longrightarrow> (buddy_get_buddy_page q j, j) \<notin> FB') \<and>
     refcount_map t = refcount_map s \<and> total_pages t = total_pages s \<and> alloc_count t = alloc_count s"

lemma coalesce_stop:
  assumes inv: "pmm_inv s FB A {(p, k)} {..<total_pages s}" and "p \<noteq> 0" and "buddy_get_order s p = k"
    and stop: "\<not> k < BUDDY_MAX_ORDER \<or> buddy_get_buddy_page p k \<ge> total_pages s \<or>
      buddy_is_allocated s (buddy_get_buddy_page p k) \<or> buddy_get_order s (buddy_get_buddy_page p k) \<noteq> k"
  shows "merged s FB A s p k FB"
proof -
  note D = pmm_invD [OF inv]
  let ?q = "buddy_get_buddy_page p k"
  have "(?q, k) \<notin> FB" if "k < BUDDY_MAX_ORDER"
  proof
    assume q: "(?q, k) \<in> FB"
    then have lt: "?q < total_pages s" and "buddy_get_order s ?q = k"
      using inv_block [OF inv, of ?q k] D(7) by blast+
    then have "buddy_is_allocated s ?q"
      using stop that by linarith
    then have "?q \<in> fst ` A"
      using D(8) [OF lt] by simp
    then obtain j where "(?q, j) \<in> A" by auto
    then show False
      using tiling_head_unique [OF D(3), of ?q k j] q D(4) by blast
  qed
  then show ?thesis
    using assms by (simp add: merged_def)
qed

lemma coalesce_step:
  assumes inv: "pmm_inv s FB A {(p, k)} {..<total_pages s}" and "p \<noteq> 0" and "k < BUDDY_MAX_ORDER"
    and q: "q = buddy_get_buddy_page p k" and "q < total_pages s"
    and "\<not> buddy_is_allocated s q" and "buddy_get_order s q = k"
    and h: "h = (if q < p then q else p)"
    and t: "t = buddy_set_order (buddy_remove_from_free_list s (pa q) k) h (k + 1)"
  shows "pmm_inv t (FB - {(q, k)}) A {(h, k + 1)} {..<total_pages s} \<and> h \<noteq> 0 \<and> buddy_get_order t h = k + 1 \<and>
    pmm_page_to_addr h = (if q < p then pa q else pa p)"
proof -
  note D = pmm_invD [OF inv]
  have al: "2 ^ k dvd p"
    using inv_block [OF inv, of p k] by simp
  obtain j where j: "j \<le> k" "(q, j) \<in> FB \<union> A \<union> {(p, k)}"
    using tiling_buddy [OF D(3), of p k] assms(5) unfolding q by auto
  have "(q, j) \<notin> A"
    using D(8) [OF assms(5)] assms(6) by (metis fst_conv image_eqI)
  moreover have "(q, j) \<noteq> (p, k)"
    using buddy_neq [OF al] q by auto
  ultimately have "(q, j) \<in> FB"
    using j(2) by blast
  moreover from this have "j = k"
    using D(7) [of q j] assms(7) by blast
  ultimately have qk: "(q, k) \<in> FB"
    by simp
  then have "q \<noteq> 0"
    using free_lists_range [OF D(6)] by blast
  have inv2: "pmm_inv (buddy_remove_from_free_list s (pa q) k) (FB - {(q, k)}) A {(q, k), (p, k)} {..<total_pages s}"
    using inv_detach [OF inv qk] .
  obtain h' where h': "2 ^ Suc k dvd h'" "p = h' \<and> q = h' + 2 ^ k \<or> p = h' + 2 ^ k \<and> q = h'"
    using buddy_pair [OF al] q by metis
  have hh: "h = h'"
    using h'(2) h by auto
  have "{(q, k), (p, k)} = {(h, k), (h + 2 ^ k, k)}"
    using h'(2) hh by auto
  from inv_merge [OF inv2 [unfolded this] _ assms(3)] h'(1) hh
  have "pmm_inv t (FB - {(q, k)}) A {(h, k + 1)} {..<total_pages s}"
    by (simp add: t)
  moreover have "buddy_get_order t h = k + 1"
    using assms(3) get_set_order [of "k + 1"] by (simp add: t BUDDY_MAX_ORDER_def)
  ultimately show ?thesis
    using h \<open>q \<noteq> 0\<close> assms(2) by simp
qed

lemma coalesce_merges:
  assumes "pmm_inv s FB A {(p, k)} {..<total_pages s}" and "p \<noteq> 0" and "buddy_get_order s p = k"
  shows "\<exists>t q j FB'. coalesce_loop s p (pa p) k = (t, pa q) \<and> merged s FB A t q j FB'"
  using assms
proof (induction "BUDDY_MAX_ORDER - k" arbitrary: s FB p k)
  case 0
  then show ?case
    using coalesce_stop [OF "0.prems"] by (subst coalesce_loop.simps) auto
next
  case (Suc n)
  define q where "q = buddy_get_buddy_page p k"
  have k: "k < BUDDY_MAX_ORDER"
    using Suc.hyps(2) by linarith
  show ?case
  proof (cases "q \<ge> total_pages s \<or> buddy_is_allocated s q \<or> buddy_get_order s q \<noteq> k")
    case True
    then show ?thesis
      using coalesce_stop [OF Suc.prems] k unfolding q_def by (subst coalesce_loop.simps) (auto simp: Let_def)
  next
    case False
    define h where "h = (if q < p then q else p)"
    define t where "t = buddy_set_order (buddy_remove_from_free_list s (pa q) k) h (k + 1)"
    have eq: "coalesce_loop s p (pa p) k = coalesce_loop t h (if q < p then pa q else pa p) (k + 1)"
      using False k by (subst coalesce_loop.simps) (auto simp: Let_def q_def [symmetric] t_def h_def)
    have tot: "total_pages t = total_pages s" and fr: "refcount_map t = refcount_map s" "alloc_count t = alloc_count s"
      by (simp_all add: t_def)
    have st: "pmm_inv t (FB - {(q, k)}) A {(h, k + 1)} {..<total_pages s} \<and> h \<noteq> 0 \<and> buddy_get_order t h = k + 1 \<and>
        pa h = (if q < p then pa q else pa p)"
      using False by (intro coalesce_step [OF Suc.prems(1,2) k q_def _ _ _ h_def t_def]) simp_all
    have "n = BUDDY_MAX_ORDER - (k + 1)"
      using Suc.hyps(2) by simp
    from Suc.hyps(1) [OF this, of t "FB - {(q, k)}" h] st
    obtain u r j FB' where run: "coalesce_loop t h (pa h) (k + 1) = (u, pa r)"
      and m: "merged t (FB - {(q, k)}) A u r j FB'"
      unfolding tot by auto
    have "merged s FB A u r j FB'"
      using m unfolding merged_def tot fr by blast
    moreover have "coalesce_loop s p (pa p) k = (u, pa r)"
      using eq run st by simp
    ultimately show ?thesis
      by blast
  qed
qed

subsection \<open>Allocation and release\<close>

lemma set_refcounts_eq:
  "set_refcounts s p n c = s\<lparr>refcount_map := \<lambda>q. if p \<le> q \<and> q < p + n \<and> q < total_pages s then c else refcount_map s q\<rparr>"
proof (induction n arbitrary: s p)
  case (Suc n)
  show ?case
  proof (cases "p < total_pages s")
    case True
    then show ?thesis
      by (auto simp: Suc buddy_set_refcount_def fun_eq_iff)
  next
    case False
    then have "Suc p \<le> q \<and> q < Suc (p + n) \<and> q < total_pages s \<longleftrightarrow> p \<le> q \<and> q < Suc (p + n) \<and> q < total_pages s" for q
      by (cases "q = p") auto
    then show ?thesis
      using False by (simp add: Suc buddy_set_refcount_def)
  qed
next
  case 0
  have "(\<lambda>q. if p \<le> q \<and> q < p + 0 \<and> q < total_pages s then c else refcount_map s q) = refcount_map s"
    by (auto simp: fun_eq_iff)
  then show ?case
    unfolding set_refcounts.simps by (simp only:) simp
qed

lemma find_order_ge: "current \<le> find_order s current d"
  by (induction s current d rule: find_order.induct) auto

lemma find_order_cases:
  assumes "find_order s current d = k"
  shows "(\<forall>j. current \<le> j \<and> j < k \<longrightarrow> free_lists s j = 0) \<and> (k = current + d \<or> k < current + d \<and> free_lists s k \<noteq> 0)"
  using assms
proof (induction d arbitrary: current)
  case (Suc d)
  show ?case
  proof (cases "free_lists s current = 0")
    case True
    then have "find_order s (current + 1) d = k"
      using Suc.prems by simp
    note IH = Suc.IH [OF this]
    have "free_lists s j = 0" if "current \<le> j \<and> j < k" for j
      using IH True that by (cases "j = current") simp_all
    then show ?thesis
      using IH by simp
  qed (use Suc.prems in auto)
qed auto

text \<open>The free blocks after an allocation from the block \<open>(p, f)\<close>.\<close>

definition alloc_result :: "pmm \<Rightarrow> (nat \<times> nat) set \<Rightarrow> (nat \<times> nat) set \<Rightarrow> nat set \<Rightarrow> nat \<Rightarrow> pmm \<Rightarrow> nat \<Rightarrow> nat \<Rightarrow> bool" where
  "alloc_result s FB A T k t p f \<longleftrightarrow>
     (p, f) \<in> FB \<and> k \<le> f \<and> pmm_inv t (FB - {(p, f)} \<union> split_rest p k f) (insert (p, k) A) {} T \<and>
     total_pages t = total_pages s \<and> used_pages t = used_pages s + 2 ^ k \<and>
     (\<forall>q. refcount_map t q = (if q \<in> {p..<p + 2 ^ k} then 1 else refcount_map s q))"

lemma alloc_order_spec:
  assumes inv: "pmm_inv s FB A {} T" and k: "k \<le> BUDDY_MAX_ORDER"
  shows "(\<forall>p f. (p, f) \<in> FB \<longrightarrow> f < k) \<and> buddy_alloc_order s k = (0, s) \<or>
    (\<exists>t p f. buddy_alloc_order s k = (pa p, t) \<and> alloc_result s FB A T k t p f)"
proof -
  note D = pmm_invD [OF inv]
  define f where "f = find_order s k (BUDDY_MAX_ORDER + 1 - k)"
  have f1: "\<And>j. k \<le> j \<Longrightarrow> j < f \<Longrightarrow> free_lists s j = 0"
    and f2: "f = BUDDY_MAX_ORDER + 1 \<or> f \<le> BUDDY_MAX_ORDER \<and> free_lists s f \<noteq> 0" and kf: "k \<le> f"
    using find_order_cases [OF f_def [symmetric]] find_order_ge [of k s] k by (auto simp: f_def)
  show ?thesis
  proof (cases "f \<le> BUDDY_MAX_ORDER")
    case False
    have "j < k" if "(p, j) \<in> FB" for p j
    proof (rule ccontr)
      assume "\<not> j < k"
      moreover have "j \<le> BUDDY_MAX_ORDER"
        using free_lists_range [OF D(6) that] by blast
      ultimately show False
        using f1 [of j] f2 False free_lists_head(1) [OF D(6)] that by auto
    qed
    then show ?thesis
      using False k by (auto simp: buddy_alloc_order_def f_def)
  next
    case True
    then have "free_lists s f \<noteq> 0"
      using f2 by auto
    then obtain p where p: "(p, f) \<in> FB" "free_lists s f = pa p"
      using free_lists_head(2) [OF D(6) True] by blast
    have pr: "p < 2 ^ 20" "p \<noteq> 0"
      using free_lists_range [OF D(6) p(1)] by blast+
    define s1 where "s1 = buddy_remove_from_free_list s (pa p) f"
    have inv1: "pmm_inv s1 (FB - {(p, f)}) A {(p, f)} T"
      using inv_detach [OF inv p(1)] by (simp add: s1_def)
    define s2 where "s2 = buddy_split_block s1 (pa p) f k"
    have inv2: "pmm_inv s2 (FB - {(p, f)} \<union> split_rest p k f) A {(p, k)} T"
      and fr2: "refcount_map s2 = refcount_map s" "total_pages s2 = total_pages s"
      using inv_split [OF inv1 pr(2) kf] by (simp_all add: s2_def s1_def)
    define s3 where "s3 = (buddy_mark_allocated (buddy_set_order s2 p k) p)\<lparr>used_pages := used_pages s2 + 2 ^ k\<rparr>"
    have inv3: "pmm_inv s3 (FB - {(p, f)} \<union> split_rest p k f) (insert (p, k) A) {} T"
      using inv_allocate [OF inv2] by (simp add: s3_def)
    define t where "t = s3\<lparr>refcount_map := \<lambda>q. if p \<le> q \<and> q < p + 2 ^ k \<and> q < total_pages s then 1 else refcount_map s q,
        alloc_count := (alloc_count s2)(k := alloc_count s2 k + 1)\<rparr>"
    have split: "(if f > k then buddy_split_block s1 (pa p) f k else s1) = s2"
      using kf unfolding s2_def by (cases f) auto
    have "buddy_alloc_order s k = (pa p, t)"
      unfolding buddy_alloc_order_def Let_def f_def [symmetric] p(2) s1_def [symmetric] split
      using k True pr fr2 by (simp add: set_refcounts_eq t_def s3_def cong: if_cong)
    moreover have "pmm_inv t (FB - {(p, f)} \<union> split_rest p k f) (insert (p, k) A) {} T"
      using inv3 by (simp add: t_def)
    moreover have "used_pages s2 = used_pages s"
      using D(9) pmm_invD(9) [OF inv2] by simp
    moreover have "{p..<p + 2 ^ k} \<subseteq> {..<total_pages s}"
      using inv_block(3) [OF inv2, of p k] D(2) by blast
    then have "\<forall>q. refcount_map t q = (if q \<in> {p..<p + 2 ^ k} then 1 else refcount_map s q)"
      by (auto simp: t_def)
    ultimately have "alloc_result s FB A T k t p f"
      unfolding alloc_result_def using p(1) kf fr2 by (simp add: t_def s3_def)
    then show ?thesis
      using \<open>buddy_alloc_order s k = (pa p, t)\<close> by blast
  qed
qed

lemma any_shared_iff:
  "any_shared s p n \<longleftrightarrow> (\<exists>q. p \<le> q \<and> q < p + n \<and> buddy_get_refcount s q > 1)"
proof (induction n arbitrary: p)
  case (Suc n)
  have "p \<le> q \<and> q < p + Suc n \<and> P \<longleftrightarrow> q = p \<and> P \<or> p + 1 \<le> q \<and> q < p + 1 + n \<and> P" for q P
    by auto
  then show ?case
    unfolding any_shared.simps Suc.IH by auto
qed simp

definition free_result :: "pmm \<Rightarrow> (nat \<times> nat) set \<Rightarrow> (nat \<times> nat) set \<Rightarrow> nat \<Rightarrow> nat \<Rightarrow> pmm \<Rightarrow> nat \<Rightarrow> nat \<Rightarrow> (nat \<times> nat) set \<Rightarrow> bool" where
  "free_result s FB A p k t q j FB' \<longleftrightarrow>
     pmm_inv t (insert (q, j) FB') (A - {(p, k)}) {} {..<total_pages s} \<and> FB' \<subseteq> FB \<and>
     (j < BUDDY_MAX_ORDER \<longrightarrow> (buddy_get_buddy_page q j, j) \<notin> FB') \<and>
     total_pages t = total_pages s \<and> used_pages t = used_pages s - 2 ^ k \<and>
     (\<forall>q. refcount_map t q = (if q \<in> {p..<p + 2 ^ k} then 0 else refcount_map s q))"

lemma free_order_spec:
  assumes inv: "pmm_inv s FB A {} {..<total_pages s}" and b: "(p, k) \<in> A" and "p \<noteq> 0"
    and unshared: "\<And>q. q \<in> {p..<p + 2 ^ k} \<Longrightarrow> buddy_get_refcount s q \<le> 1"
  shows "\<exists>t q j FB'. buddy_free_order s (pa p) k = t \<and> free_result s FB A p k t q j FB'"
proof -
  note D = pmm_invD [OF inv]
  note B = inv_block [OF inv, of p k]
  have p: "p < total_pages s" "p < 2 ^ 20" and alloc: "buddy_is_allocated s p"
    using B b D(8) [of p] by (auto intro: rev_image_eqI)
  have no: "\<not> any_shared s p (2 ^ k)"
  proof
    assume "any_shared s p (2 ^ k)"
    then obtain q where "q \<in> {p..<p + 2 ^ k}" "buddy_get_refcount s q > 1"
      by (auto simp: any_shared_iff)
    then show False
      using unshared [of q] by simp
  qed
  define s1 where "s1 = (buddy_mark_free s p)\<lparr>used_pages := used_pages s - 2 ^ k\<rparr>"
  have inv1: "pmm_inv s1 FB (A - {(p, k)}) {(p, k)} {..<total_pages s}"
    using inv_release [OF inv b] by (simp add: s1_def)
  define s2 where "s2 = s1\<lparr>refcount_map := \<lambda>q. if p \<le> q \<and> q < p + 2 ^ k \<and> q < total_pages s then 0 else refcount_map s q\<rparr>"
  define s3 where "s3 = (if alloc_count s k > 0 then s2\<lparr>alloc_count := (alloc_count s)(k := alloc_count s k - 1)\<rparr> else s2)"
  have tot3: "total_pages s3 = total_pages s" and ref3: "refcount_map s3 = refcount_map s2"
    by (auto simp: s3_def s2_def s1_def)
  have inv3: "pmm_inv s3 FB (A - {(p, k)}) {(p, k)} {..<total_pages s3}"
    unfolding tot3 using inv1 by (auto simp: s3_def s2_def)
  have "buddy_get_order s3 p = k"
    using D(7) [of p k] b by (simp add: s3_def s2_def s1_def)
  from coalesce_merges [OF inv3 assms(3) this]
  obtain u q j FB' where run: "coalesce_loop s3 p (pa p) k = (u, pa q)" and m: "merged s3 FB (A - {(p, k)}) u q j FB'"
    by blast
  then have mi: "pmm_inv u FB' (A - {(p, k)}) {(q, j)} {..<total_pages s}" "buddy_get_order u q = j" "q \<noteq> 0"
    and mf: "FB' \<subseteq> FB" "j < BUDDY_MAX_ORDER \<longrightarrow> (buddy_get_buddy_page q j, j) \<notin> FB'"
      "refcount_map u = refcount_map s3" "total_pages u = total_pages s"
    unfolding merged_def tot3 by blast+
  define t where "t = buddy_add_to_free_list u (pa q) j"
  have inv_t: "pmm_inv t (insert (q, j) FB') (A - {(p, k)}) {} {..<total_pages s}"
    using inv_attach [OF mi(1,3,2)] by (simp add: t_def)
  have "q < 2 ^ 20"
    using inv_block(5) [OF mi(1), of q j] by simp
  moreover have "(set_refcounts (buddy_mark_free s p) p (2 ^ k) 0)\<lparr>used_pages := used_pages s - 2 ^ k\<rparr> = s2"
    by (simp add: s2_def s1_def set_refcounts_eq cong: if_cong)
  moreover have "used_pages (set_refcounts (buddy_mark_free s p) p (2 ^ k) 0) = used_pages s" "alloc_count s2 = alloc_count s"
      "alloc_count (set_refcounts (buddy_mark_free s p) p (2 ^ k) 0) = alloc_count s"
    by (simp_all add: set_refcounts_eq s2_def s1_def)
  ultimately have "buddy_free_order s (pa p) k = t"
    using p alloc no run mi(2)
    by (cases "0 < alloc_count s k") (simp_all add: buddy_free_order_def Let_def buddy_coalesce_def s3_def t_def)
  note run_t = this
  have "used_pages u = used_pages s - 2 ^ k"
    using pmm_invD(9) [OF mi(1)] pmm_invD(9) [OF inv1] by (simp add: s1_def)
  moreover have "{p..<p + 2 ^ k} \<subseteq> {..<total_pages s}"
    using B(3) b by blast
  then have "\<forall>r. refcount_map u r = (if r \<in> {p..<p + 2 ^ k} then 0 else refcount_map s r)"
    unfolding mf(3) ref3 by (auto simp: s2_def)
  ultimately have "free_result s FB A p k t q j FB'"
    unfolding free_result_def using inv_t mf by (simp add: t_def)
  then show ?thesis
    using run_t by blast
qed

subsection \<open>Coalesced states\<close>

text \<open>No two free blocks are buddies: the property that coalescing maintains.\<close>

definition coalesced :: "(nat \<times> nat) set \<Rightarrow> bool" where
  "coalesced FB \<longleftrightarrow> (\<forall>p k. (p, k) \<in> FB \<longrightarrow> k < BUDDY_MAX_ORDER \<longrightarrow> (buddy_get_buddy_page p k, k) \<notin> FB)"

definition pmm_tight :: "pmm \<Rightarrow> (nat \<times> nat) set \<Rightarrow> bool" where
  "pmm_tight s A \<longleftrightarrow> (\<exists>FB. pmm_inv s FB A {} {..<total_pages s} \<and> coalesced FB)"

definition allocated_pages :: "(nat \<times> nat) set \<Rightarrow> nat set" where
  "allocated_pages A = (\<Union>b\<in>A. block_pages b)"

lemma coalesced_insert:
  assumes "coalesced FB'" and "j < BUDDY_MAX_ORDER \<longrightarrow> (buddy_get_buddy_page q j, j) \<notin> FB'" and "2 ^ j dvd q"
  shows "coalesced (insert (q, j) FB')"
proof -
  have "(buddy_get_buddy_page p k, k) \<notin> insert (q, j) FB'" if pk: "(p, k) \<in> insert (q, j) FB'" "k < BUDDY_MAX_ORDER" for p k
  proof (cases "(p, k) = (q, j)")
    case True
    then show ?thesis
      using assms(2) pk(2) buddy_neq [OF assms(3)] by auto
  next
    case False
    then have "(p, k) \<in> FB'" using pk(1) by blast
    moreover have "(buddy_get_buddy_page p k, k) \<noteq> (q, j)"
      using assms(2) pk(2) \<open>(p, k) \<in> FB'\<close> buddy_invol [of p k] by auto
    ultimately show ?thesis
      using assms(1) pk(2) unfolding coalesced_def by blast
  qed
  then show ?thesis
    unfolding coalesced_def by blast
qed

lemma coalesced_subset: "coalesced FB \<Longrightarrow> FB' \<subseteq> FB \<Longrightarrow> coalesced FB'"
  unfolding coalesced_def by blast

lemma coalesced_split:
  assumes "coalesced FB" and "2 ^ f dvd p" and "\<And>j. (p, j) \<notin> FB"
  shows "coalesced (FB \<union> split_rest p k f)"
proof -
  have rest: "buddy_get_buddy_page q j = p" if "(q, j) \<in> split_rest p k f" for q j
  proof -
    have q: "q = p + 2 ^ j" "j < f"
      using that by (auto simp: split_rest_def)
    then have "(2 :: nat) ^ Suc j dvd 2 ^ f"
      by (intro le_imp_power_dvd) simp
    then have "2 ^ Suc j dvd p"
      using assms(2) dvd_trans by blast
    then have "buddy_get_buddy_page p j = q"
      using buddy_page(1) [of j p] q by (metis dvd_trans le_imp_power_dvd lessI less_imp_le)
    then show ?thesis
      using buddy_invol by metis
  qed
  have nin: "(p, j) \<notin> FB \<union> split_rest p k f" for j
    using assms(3) by (auto simp: split_rest_def)
  have "(buddy_get_buddy_page q j, j) \<notin> FB \<union> split_rest p k f"
    if qj: "(q, j) \<in> FB \<union> split_rest p k f" "j < BUDDY_MAX_ORDER" for q j
  proof (cases "(q, j) \<in> split_rest p k f")
    case True
    then show ?thesis using rest nin by simp
  next
    case False
    then have "(q, j) \<in> FB" using qj(1) by blast
    then have "(buddy_get_buddy_page q j, j) \<notin> FB"
      using assms(1) qj(2) unfolding coalesced_def by blast
    moreover have "(buddy_get_buddy_page q j, j) \<notin> split_rest p k f"
    proof
      assume "(buddy_get_buddy_page q j, j) \<in> split_rest p k f"
      then have "q = p"
        using rest buddy_invol by metis
      then show False using \<open>(q, j) \<in> FB\<close> assms(3) by blast
    qed
    ultimately show ?thesis by blast
  qed
  then show ?thesis
    unfolding coalesced_def by blast
qed

text \<open>In a coalesced state an aligned run of free pages lies in one free block: of the free blocks
  inside a run, one of least order would have a free buddy of the same order.\<close>

lemma covering_aligned:
  assumes t: "tiling B T" and "2 ^ k dvd p" and b: "(r, j) \<in> B" and x: "x \<in> {p..<p + 2 ^ k}" "x \<in> {r..<r + 2 ^ j}"
    and "j < k"
  shows "{r..<r + 2 ^ j} \<subseteq> {p..<p + 2 ^ k}"
proof -
  have r: "2 ^ j dvd r"
    using tiling_block [OF t b] by blast
  have "(2 :: nat) ^ j dvd 2 ^ k"
    using assms(6) by (intro le_imp_power_dvd) simp
  then have p: "2 ^ j dvd p" "2 ^ j dvd p + 2 ^ k"
    using assms(2) by (meson dvd_add dvd_trans)+
  have "p \<le> r"
    using x by (intro dvd_below [OF p(1) r]) auto
  moreover have "r + 2 ^ j \<le> p + 2 ^ k"
    using x r by (intro dvd_below [where d = "2 ^ j", OF _ p(2)]) auto
  ultimately show ?thesis by auto
qed

lemma coalesced_run:
  assumes inv: "pmm_inv s FB A {} {..<total_pages s}" and "coalesced FB"
    and run: "2 ^ k dvd p" "p + 2 ^ k \<le> total_pages s" "{p..<p + 2 ^ k} \<inter> allocated_pages A = {}"
    and "k \<le> BUDDY_MAX_ORDER"
  shows "\<exists>q f. (q, f) \<in> FB \<and> k \<le> f"
proof (rule ccontr)
  assume small: "\<not> ?thesis"
  note D = pmm_invD [OF inv]
  have t: "tiling (FB \<union> A) {..<total_pages s}"
    using D(3) by simp
  have cover: "\<exists>r j. (r, j) \<in> FB \<and> j < k \<and> x \<in> {r..<r + 2 ^ j}" if "x \<in> {p..<p + 2 ^ k}" for x
  proof -
    have "x \<in> {..<total_pages s}"
      using that run(2) by simp
    then obtain r j where rj: "(r, j) \<in> FB \<union> A" "x \<in> {r..<r + 2 ^ j}"
      using tiling_cover [OF t] by blast
    have "(r, j) \<notin> A"
    proof
      assume "(r, j) \<in> A"
      then have "x \<in> allocated_pages A"
        using rj(2) bp [of r j] unfolding allocated_pages_def by blast
      then show False using run(3) that by blast
    qed
    then show ?thesis
      using rj small by (meson UnE not_le)
  qed
  define P where "P = (\<lambda>j. \<exists>r. (r, j) \<in> FB \<and> j < k \<and> {r..<r + 2 ^ j} \<subseteq> {p..<p + 2 ^ k})"
  have sub: "{r..<r + 2 ^ j} \<subseteq> {p..<p + 2 ^ k}"
    if "(r, j) \<in> FB" "j < k" "x \<in> {p..<p + 2 ^ k}" "x \<in> {r..<r + 2 ^ j}" for r j x
    using covering_aligned [OF t run(1), of r j x] that by blast
  obtain r0 j0 where "(r0, j0) \<in> FB" "j0 < k" "p \<in> {r0..<r0 + 2 ^ j0}"
    using cover [OF head_in_block] by blast
  then have "P j0"
    using sub head_in_block unfolding P_def by blast
  define j where "j = (LEAST j. P j)"
  have "P j" and least: "\<And>i. P i \<Longrightarrow> j \<le> i"
    using LeastI [of P j0] Least_le [of P] \<open>P j0\<close> unfolding j_def by blast+
  then obtain r where r: "(r, j) \<in> FB" "j < k" "{r..<r + 2 ^ j} \<subseteq> {p..<p + 2 ^ k}"
    unfolding P_def by blast
  define q where "q = buddy_get_buddy_page r j"
  have al: "2 ^ j dvd r"
    using tiling_block [OF t, of r j] r(1) by blast
  have "q \<in> {p..<p + 2 ^ k}"
  proof -
    obtain h where h: "2 ^ Suc j dvd h" "r = h \<and> q = h + 2 ^ j \<or> r = h + 2 ^ j \<and> q = h"
      using buddy_pair [OF al] q_def by metis
    have "(2 :: nat) ^ Suc j dvd 2 ^ k"
      using r(2) by (intro le_imp_power_dvd) simp
    then have p: "2 ^ Suc j dvd p" "2 ^ Suc j dvd p + 2 ^ k"
      using run(1) by (meson dvd_add dvd_trans)+
    have "r \<in> {p..<p + 2 ^ k}"
      using r(3) head_in_block by blast
    moreover have "h \<le> r" "r \<le> h + 2 ^ j" "(2 :: nat) ^ j < 2 ^ Suc j"
      using h(2) by auto
    ultimately have "h < p + 2 ^ k" "p < h + 2 ^ Suc j"
      unfolding atLeastLessThan_iff by linarith+
    then have "p \<le> h" "h + 2 ^ Suc j \<le> p + 2 ^ k"
      using p h(1) by (auto intro: dvd_below [where d = "2 ^ Suc j"])
    moreover have "h \<le> q" "q \<le> h + 2 ^ j" "(2 :: nat) ^ j < 2 ^ Suc j"
      using h(2) by auto
    ultimately show ?thesis
      unfolding atLeastLessThan_iff by linarith
  qed
  from cover [OF this] obtain u i where u: "(u, i) \<in> FB" "i < k" "q \<in> {u..<u + 2 ^ i}"
    by blast
  have "j \<le> i"
    using least u sub [OF u(1,2) \<open>q \<in> {p..<p + 2 ^ k}\<close> u(3)] unfolding P_def by blast
  obtain i' where i': "i' \<le> j" "(q, i') \<in> FB \<union> A"
    using tiling_buddy [OF t, of r j] r(1) \<open>q \<in> {p..<p + 2 ^ k}\<close> run(2) unfolding q_def by auto
  then have "u = q \<and> i = i'"
    using tiling_unique [OF t, of u i q i' q] u head_in_block by blast
  then have "(q, j) \<in> FB"
    using u(1) i'(1) \<open>j \<le> i\<close> by simp
  then show False
    using assms(2,6) r(1,2) unfolding coalesced_def q_def by auto
qed

subsection \<open>The number of pages and the order\<close>

lemma unat_push_bit_1:
  assumes "i < 32"
  shows "unat (push_bit i 1 :: u32) = 2 ^ i"
proof (rule unat_eqI)
  have "(2 :: nat) ^ i < 2 ^ 32"
    using assms by (intro power_strict_increasing) simp_all
  then show "(2 :: nat) ^ i < 2 ^ 32" .
qed (simp add: push_bit_eq_mult)

lemma order_loop_returns:
  assumes "unat count \<le> 2 ^ (i + d)" and "i + d \<le> 31" and "d = 0 \<or> 2 ^ (i + d - 1) < unat count" and "unat count > 1"
  shows "order_loop (push_bit i 1) count (of_nat i) = Some (of_nat (i + d))"
  using assms
proof (induction d arbitrary: i)
  case 0
  have "unat (push_bit i 1 :: u32) = 2 ^ i"
    using "0.prems"(2) by (intro unat_push_bit_1) simp
  then show ?case
    using "0.prems" by (subst order_loop.simps) (simp add: word_less_nat_alt del: push_bit_of_1)
next
  case (Suc d)
  have pw: "unat (push_bit i 1 :: u32) = 2 ^ i"
    using Suc.prems(2) by (intro unat_push_bit_1) simp
  have "(2 :: nat) ^ i \<le> 2 ^ (i + d)"
    by simp
  also have "\<dots> < unat count"
    using Suc.prems(3) by simp
  finally have lt: "push_bit i 1 < count"
    unfolding word_less_nat_alt pw .
  have "d = 0 \<or> 2 ^ (Suc i + d - 1) < unat count"
    using Suc.prems(3) by (cases d) auto
  then have "order_loop (push_bit (Suc i) 1) count (of_nat (Suc i)) = Some (of_nat (Suc i + d))"
    using Suc.prems by (intro Suc.IH) simp_all
  moreover have "push_bit 1 (push_bit i 1) = (push_bit (Suc i) 1 :: u32)"
    by (simp only: push_bit_push_bit) simp
  ultimately show ?case
    using lt by (subst order_loop.simps) (simp del: push_bit_of_1 add: add.commute)
qed

lemma ceil_log2:
  fixes n :: nat
  assumes "1 < n" and "n \<le> 2 ^ m"
  obtains d where "n \<le> 2 ^ d" and "2 ^ (d - 1) < n" and "0 < d" and "d \<le> m"
proof -
  define d where "d = (LEAST d. n \<le> 2 ^ d)"
  have le: "n \<le> 2 ^ d" "d \<le> m"
    unfolding d_def using assms(2) by (rule LeastI, intro Least_le)
  have "0 < d"
    using le(1) assms(1) by (cases d) auto
  then have "\<not> n \<le> 2 ^ (d - 1)"
    using not_less_Least [of "d - 1" "\<lambda>d. n \<le> 2 ^ d"] unfolding d_def by fastforce
  then show thesis
    using that le \<open>0 < d\<close> by simp
qed

lemma order_loop_diverges:
  assumes "order_loop pw count ord = Some r"
  shows "\<not> (pw = 0 \<and> 0 < count)"
  using assms by (rule order_loop.raw_induct [rotated]) (auto split: if_splits)

lemma order_loop_shifted_out:
  assumes "i \<le> 32" and "2 ^ 31 < unat count"
  shows "order_loop (push_bit i 1) count ord = None"
  using assms(1)
proof (induction "32 - i" arbitrary: i ord)
  case 0
  then have "(push_bit i 1 :: u32) = 0"
    by (simp add: push_bit_eq_mult exp_eq_zero_iff)
  moreover have "0 < count"
    using assms(2) by (simp add: word_less_nat_alt)
  ultimately show ?case
    using order_loop_diverges by (metis not_None_eq)
next
  case (Suc n)
  then have i: "i < 32" "n = 32 - Suc i"
    by auto
  have "(2 :: nat) ^ i \<le> 2 ^ 31"
    using i(1) by (intro power_increasing) simp_all
  then have "push_bit i 1 < count"
    using assms(2) unat_push_bit_1 [OF i(1)] unfolding word_less_nat_alt by linarith
  moreover have "push_bit 1 (push_bit i 1) = (push_bit (Suc i) 1 :: u32)"
    by (simp only: push_bit_push_bit) simp
  ultimately show ?case
    using Suc.hyps(1) [OF i(2)] i(1) by (subst order_loop.simps) (simp del: push_bit_of_1)
qed

lemma calculate_order_small:
  assumes "0 < unat count" and "unat count \<le> 1024"
  shows "\<exists>k\<le>BUDDY_MAX_ORDER. buddy_calculate_order count = Some k \<and> unat count \<le> 2 ^ k \<and> 2 ^ k < 2 * unat count"
proof (cases "unat count = 1")
  case True
  then have "count = 1"
    using word_eq_of_nat by fastforce
  then show ?thesis
    by (simp add: buddy_calculate_order_def)
next
  case False
  then have "1 < unat count" "unat count \<le> 2 ^ 10"
    using assms by simp_all
  then obtain d where d: "unat count \<le> 2 ^ d" "2 ^ (d - 1) < unat count" "0 < d" "d \<le> 10"
    by (rule ceil_log2)
  have "order_loop (push_bit 0 1) count (of_nat 0) = Some (of_nat (0 + d))"
    using d \<open>1 < unat count\<close> by (intro order_loop_returns) simp_all
  moreover have "unat (of_nat d :: u8) = d"
    using d(4) by (simp add: unat_of_nat take_bit_nat_eq_self)
  moreover have "count \<noteq> 0" "count \<noteq> 1"
    using \<open>1 < unat count\<close> by auto
  ultimately have "buddy_calculate_order count = Some d"
    using d(4) by (simp add: buddy_calculate_order_def BUDDY_MAX_ORDER_def)
  moreover have "(2 :: nat) ^ d = 2 * 2 ^ (d - 1)"
    using d(3) by (cases d) simp_all
  ultimately show ?thesis
    using d by (intro exI [of _ d]) (simp add: BUDDY_MAX_ORDER_def)
qed

lemma calculate_order_large:
  assumes "1024 < unat count" and "unat count \<le> 2 ^ 31"
  shows "buddy_calculate_order count = Some BUDDY_MAX_ORDER"
proof -
  have "1 < unat count" using assms(1) by simp
  then obtain d where d: "unat count \<le> 2 ^ d" "2 ^ (d - 1) < unat count" "0 < d" "d \<le> 31"
    using assms(2) by (rule ceil_log2)
  have "order_loop (push_bit 0 1) count (of_nat 0) = Some (of_nat (0 + d))"
    using d \<open>1 < unat count\<close> by (intro order_loop_returns) simp_all
  moreover have "unat (of_nat d :: u8) = d"
    using d(4) by (simp add: unat_of_nat take_bit_nat_eq_self)
  moreover have "10 < d"
  proof (rule ccontr)
    assume "\<not> 10 < d"
    then have "(2 :: nat) ^ d \<le> 2 ^ 10"
      by (intro power_increasing) simp_all
    then show False using d(1) assms(1) by simp
  qed
  moreover have "count \<noteq> 0" "count \<noteq> 1"
    using \<open>1 < unat count\<close> by auto
  ultimately show ?thesis
    by (simp add: buddy_calculate_order_def BUDDY_MAX_ORDER_def)
qed

lemma calculate_order_huge:
  assumes "2 ^ 31 < unat count"
  shows "buddy_calculate_order count = None"
proof -
  have "count \<noteq> 0" "count \<noteq> 1"
    using assms by auto
  then show ?thesis
    using order_loop_shifted_out [of 0 count 0] assms by (simp add: buddy_calculate_order_def)
qed

subsection \<open>Tight states\<close>

lemma block_end:
  fixes p n :: nat
  assumes "{p..<p + 2 ^ k} \<subseteq> {..<n}"
  shows "p + 2 ^ k \<le> n"
proof -
  have pos: "0 < (2 :: nat) ^ k"
    by simp
  then have "p + (2 ^ k - 1) \<in> {p..<p + 2 ^ k}"
    unfolding atLeastLessThan_iff by linarith
  then have "p + (2 ^ k - 1) < n"
    using assms by blast
  then show ?thesis
    using pos by linarith
qed

lemma page_align_down [simp]: "pmm_addr_to_page (pmm_align_down a) = pmm_addr_to_page a"
  unfolding align_down_pa by (rule page_pa [OF addr_to_page_less])

lemma run_disjoint:
  assumes "pmm_inv s FB A {} T" and "(p, f) \<in> FB" and "k \<le> f"
  shows "{p..<p + 2 ^ k} \<inter> allocated_pages A = {}"
proof -
  note D = pmm_invD [OF assms(1)]
  have "(2 :: nat) ^ k \<le> 2 ^ f"
    using assms(3) by (intro power_increasing) simp_all
  then have sub: "{p..<p + 2 ^ k} \<subseteq> {p..<p + 2 ^ f}"
    by auto
  have "False" if "x \<in> {p..<p + 2 ^ k}" "(q, j) \<in> A" "x \<in> {q..<q + 2 ^ j}" for x q j
    using tiling_unique [OF D(3), of p f q j x] that assms(2) sub D(4) by blast
  then show ?thesis
    unfolding allocated_pages_def by (force simp: bp)
qed

lemma alloc_result_tight:
  assumes inv: "pmm_inv s FB A {} {..<total_pages s}" and co: "coalesced FB"
    and ar: "alloc_result s FB A {..<total_pages s} k t p f"
  shows "p < 2 ^ 20 \<and> p \<noteq> 0 \<and> 2 ^ k dvd p \<and> p + 2 ^ k \<le> total_pages s \<and>
      {p..<p + 2 ^ k} \<inter> allocated_pages A = {} \<and> pmm_tight t (insert (p, k) A)"
proof -
  note D = pmm_invD [OF inv]
  have pf: "(p, f) \<in> FB" "k \<le> f"
    and inv': "pmm_inv t (FB - {(p, f)} \<union> split_rest p k f) (insert (p, k) A) {} {..<total_pages t}"
    using ar by (simp_all add: alloc_result_def)
  have tot: "total_pages t = total_pages s"
    using ar by (simp add: alloc_result_def)
  have "coalesced (FB - {(p, f)} \<union> split_rest p k f)"
  proof (rule coalesced_split)
    show "coalesced (FB - {(p, f)})"
      using co coalesced_subset by blast
    show "2 ^ f dvd p"
      using inv_block(2) [OF inv, of p f] pf(1) by blast
    show "(p, j) \<notin> FB - {(p, f)}" for j
      using tiling_head_unique [OF D(3), of p f j] pf(1) by blast
  qed
  then have "pmm_tight t (insert (p, k) A)"
    unfolding pmm_tight_def using inv' by blast
  moreover have "2 ^ k dvd p" "{p..<p + 2 ^ k} \<subseteq> {..<total_pages s}"
    using inv_block(2,3) [OF inv', of p k] unfolding tot by blast+
  moreover have "p + 2 ^ k \<le> total_pages s"
    using \<open>{p..<p + 2 ^ k} \<subseteq> {..<total_pages s}\<close> by (rule block_end)
  ultimately show ?thesis
    using run_disjoint [OF inv pf] free_lists_range [OF D(6) pf(1)] by simp
qed

lemma free_result_tight:
  assumes "coalesced FB" and "free_result s FB A p k t q j FB'"
  shows "pmm_tight t (A - {(p, k)})"
proof -
  have inv: "pmm_inv t (insert (q, j) FB') (A - {(p, k)}) {} {..<total_pages t}" and "FB' \<subseteq> FB"
    and "j < BUDDY_MAX_ORDER \<longrightarrow> (buddy_get_buddy_page q j, j) \<notin> FB'"
    using assms(2) by (simp_all add: free_result_def)
  moreover have "2 ^ j dvd q"
    using inv_block(2) [OF inv, of q j] by blast
  ultimately have "coalesced (insert (q, j) FB')"
    using coalesced_insert coalesced_subset [OF assms(1)] by blast
  then show ?thesis
    unfolding pmm_tight_def using inv by blast
qed

lemma tight_order: "pmm_tight s A \<Longrightarrow> (p, k) \<in> A \<Longrightarrow> buddy_get_order s p = k \<and> p < 2 ^ 20"
  unfolding pmm_tight_def using pmm_invD(7) inv_block(5) by blast

lemma free_order_ignored:
  assumes "pmm_tight s A" and "pmm_addr_to_page a \<notin> fst ` A"
  shows "buddy_free_order s a k = s"
proof -
  define p where "p = pmm_addr_to_page a"
  have "pmm_addr_to_page (pmm_align_down a) = p"
    by (simp add: p_def)
  moreover have "\<not> buddy_is_allocated s p" if "p < total_pages s"
    using assms that pmm_invD(8) unfolding pmm_tight_def p_def by blast
  ultimately show ?thesis
    by (auto simp: buddy_free_order_def Let_def p_def [symmetric])
qed

text \<open>A small state: four pages, the first two in use, one free block of order 1.\<close>

definition demo_pmm :: pmm where
  "demo_pmm = \<lparr>free_lists = (\<lambda>_. 0)(1 := 0x2000), order_map = (\<lambda>_. 0)(0 := 0x100), status_map = (\<lambda>_. 0)(0 := 3),
     refcount_map = \<lambda>_. 0, total_pages = 4, used_pages = 2, alloc_count = \<lambda>_. 0,
     blocks = \<lambda>_. \<lparr>bb_next = 0, bb_prev = 0\<rparr>\<rparr>"

lemma demo_tight: "pmm_tight demo_pmm {(0, 0), (1, 0)}"
proof -
  have tile: "tiling ({(2, 1)} \<union> {(0, 0), (1, 0)} \<union> {}) {..<4}"
    unfolding tiling_def by (auto simp: bp BUDDY_MAX_ORDER_def)
  have pa2: "pa 2 = 0x2000"
    by (simp add: pmm_page_to_addr_def PMM_PAGE_SIZE_def)
  have "lists_ok demo_pmm ((\<lambda>_. [])(1 := [0x2000]))"
    by (auto simp: lists_ok_def demo_pmm_def)
  moreover have "set (((\<lambda>_. [])(1 := [0x2000])) k) = pa ` {p. (p, k) \<in> {(2, 1)}}" for k
    using pa2 by auto
  ultimately have "\<exists>L. lists_ok demo_pmm L \<and> (\<forall>k\<le>BUDDY_MAX_ORDER. set (L k) = pa ` {p. (p, k) \<in> {(2, 1)}})"
    by blast
  then have lists: "free_lists_ok demo_pmm {(2, 1)}"
    unfolding free_lists_ok_def by (simp add: BUDDY_MAX_ORDER_def)
  have ord: "buddy_get_order demo_pmm q = j" if "(q, j) \<in> {(2, 1)} \<union> {(0, 0), (1, 0)}" for q j
  proof -
    have "buddy_get_order demo_pmm 2 = 1" "buddy_get_order demo_pmm 0 = 0" "buddy_get_order demo_pmm 1 = 0"
      by code_simp+
    then show ?thesis using that by auto
  qed
  have alloc: "buddy_is_allocated demo_pmm q \<longleftrightarrow> q \<in> fst ` {(0 :: nat, 0 :: nat), (1, 0)}" if "q < total_pages demo_pmm" for q
  proof -
    have "buddy_is_allocated demo_pmm 0" "buddy_is_allocated demo_pmm 1"
      "\<not> buddy_is_allocated demo_pmm 2" "\<not> buddy_is_allocated demo_pmm 3"
      by code_simp+
    moreover have "q = 0 \<or> q = 1 \<or> q = 2 \<or> q = 3"
      using that by (auto simp: demo_pmm_def)
    ultimately show ?thesis by auto
  qed
  have "total_pages demo_pmm \<le> 2 ^ 20" "{..<4} \<subseteq> {..<total_pages demo_pmm}"
    "used_pages demo_pmm = of_nat (block_sum {(0, 0), (1, 0)})"
    by (simp_all add: demo_pmm_def block_sum_def)
  from pmm_invI [OF this(1,2) tile _ _ lists ord alloc this(3)]
  have "pmm_inv demo_pmm {(2, 1)} {(0, 0), (1, 0)} {} {..<total_pages demo_pmm}"
    by (simp add: demo_pmm_def)
  moreover have "coalesced {(2, 1)}"
    by (auto simp: coalesced_def buddy_page)
  ultimately show ?thesis
    unfolding pmm_tight_def by blast
qed
lemma demo_alloc: "fst (pmm_alloc_order demo_pmm 1) = 0x2000"
  by code_simp

subsection \<open>Properties\<close>

text \<open>C20. Allocation is sound and complete: from a coalesced state \<open>pmm_alloc_order\<close> fails, leaving the
  state as it is, exactly when no aligned run of free pages of the requested size exists; otherwise it returns
  the address of such a run, which becomes an allocated block with reference counts of one, and the state
  stays well formed and coalesced.\<close>

theorem pmm_alloc_order_correct:
  assumes "pmm_tight s A" and "unat k \<le> BUDDY_MAX_ORDER"
  shows "case pmm_alloc_order s k of (a, t) \<Rightarrow>
    if a = 0
    then t = s \<and> (\<nexists>p. 2 ^ unat k dvd p \<and> p + 2 ^ unat k \<le> total_pages s \<and> {p..<p + 2 ^ unat k} \<inter> allocated_pages A = {})
    else \<exists>p. a = pmm_page_to_addr p \<and> p < 2 ^ 20 \<and> 2 ^ unat k dvd p \<and> p + 2 ^ unat k \<le> total_pages s \<and>
      {p..<p + 2 ^ unat k} \<inter> allocated_pages A = {} \<and> pmm_tight t (insert (p, unat k) A) \<and>
      total_pages t = total_pages s \<and> used_pages t = used_pages s + 2 ^ unat k \<and>
      (\<forall>q. refcount_map t q = (if q \<in> {p..<p + 2 ^ unat k} then 1 else refcount_map s q))"
proof -
  obtain FB where inv: "pmm_inv s FB A {} {..<total_pages s}" and co: "coalesced FB"
    using assms(1) unfolding pmm_tight_def by blast
  from alloc_order_spec [OF inv assms(2)] show ?thesis
  proof (elim disjE exE conjE)
    assume none: "\<forall>p f. (p, f) \<in> FB \<longrightarrow> f < unat k" and res: "buddy_alloc_order s (unat k) = (0, s)"
    have "\<nexists>p. 2 ^ unat k dvd p \<and> p + 2 ^ unat k \<le> total_pages s \<and> {p..<p + 2 ^ unat k} \<inter> allocated_pages A = {}"
      using coalesced_run [OF inv co _ _ _ assms(2)] none by (meson not_le)
    then show ?thesis
      by (simp add: pmm_alloc_order_def res)
  next
    fix t p f
    assume res: "buddy_alloc_order s (unat k) = (pa p, t)"
      and ar: "alloc_result s FB A {..<total_pages s} (unat k) t p f"
    note at = alloc_result_tight [OF inv co ar]
    then have "pa p \<noteq> 0"
      using pa_0 by blast
    moreover have "total_pages t = total_pages s \<and> used_pages t = used_pages s + 2 ^ unat k \<and>
        (\<forall>q. refcount_map t q = (if q \<in> {p..<p + 2 ^ unat k} then 1 else refcount_map s q))"
      using ar unfolding alloc_result_def by blast
    ultimately show ?thesis
      unfolding pmm_alloc_order_def res prod.case using at by (simp only: if_False) (rule exI [of _ p], simp)
  qed
qed

theorem pmm_alloc_order_correct_witness:
  "\<exists>t. pmm_alloc_order demo_pmm 1 = (0x2000, t) \<and> pmm_tight t {(0, 0), (1, 0), (2, 1)}"
proof -
  obtain t where t: "pmm_alloc_order demo_pmm 1 = (0x2000, t)"
    using prod.collapse [of "pmm_alloc_order demo_pmm 1"] by (metis demo_alloc)
  then obtain p where "0x2000 = pmm_page_to_addr p" "p < 2 ^ 20" "pmm_tight t (insert (p, 1) {(0, 0), (1, 0)})"
    using pmm_alloc_order_correct [OF demo_tight, of 1] by (auto simp: BUDDY_MAX_ORDER_def)
  moreover from this have "p = 2"
    using page_pa [of p] by (simp add: pmm_addr_to_page_def PMM_PAGE_SIZE_def)
  ultimately show ?thesis
    using t by (auto simp: insert_commute)
qed

text \<open>C21. Releasing an allocated block whose pages are not shared returns exactly its pages to the
  allocator: the state stays well formed and coalesced, the count of used pages drops by the size of the block
  and its reference counts are cleared.\<close>

theorem pmm_free_page_correct:
  assumes "pmm_tight s A" and "(p, k) \<in> A" and "p \<noteq> 0" and "\<And>q. q \<in> {p..<p + 2 ^ k} \<Longrightarrow> buddy_get_refcount s q \<le> 1"
  shows "let t = pmm_free_page s (pmm_page_to_addr p) in
    pmm_tight t (A - {(p, k)}) \<and> total_pages t = total_pages s \<and> used_pages t = used_pages s - 2 ^ k \<and>
    (\<forall>q. refcount_map t q = (if q \<in> {p..<p + 2 ^ k} then 0 else refcount_map s q))"
proof -
  obtain FB where inv: "pmm_inv s FB A {} {..<total_pages s}" and co: "coalesced FB"
    using assms(1) unfolding pmm_tight_def by blast
  obtain q j FB' where fr: "free_result s FB A p k (buddy_free_order s (pa p) k) q j FB'"
    using free_order_spec [OF inv assms(2-4)] by blast
  have "pmm_free_page s (pa p) = buddy_free_order s (pa p) k"
    using tight_order [OF assms(1,2)] by (simp add: pmm_free_page_def)
  then show ?thesis
    using fr free_result_tight [OF co fr] by (simp add: free_result_def Let_def)
qed

theorem pmm_free_page_correct_witness:
  "pmm_tight (pmm_free_page demo_pmm (pmm_page_to_addr 1)) {(0, 0)}"
proof -
  have "{(0, 0), (1, 0)} - {(1, 0)} = {(0 :: nat, 0 :: nat)}"
    by auto
  then show ?thesis
    using pmm_free_page_correct [OF demo_tight, of 1 0]
    by (simp add: buddy_get_refcount_def demo_pmm_def Let_def)
qed

text \<open>C22. A release of an address that does not lie in the first page of an allocated block (a double free, an
  address inside a block, an address outside the managed memory) and a release of a block with a shared page
  change nothing.\<close>

theorem pmm_free_page_safe:
  assumes "pmm_tight s A"
    and "pmm_addr_to_page a \<notin> fst ` A \<or>
      (\<exists>k q. (pmm_addr_to_page a, k) \<in> A \<and> q \<in> {pmm_addr_to_page a..<pmm_addr_to_page a + 2 ^ k} \<and> 1 < buddy_get_refcount s q)"
  shows "pmm_free_page s a = s \<and> pmm_free_pages s a n = s \<and> pmm_free_order s a = s"
proof -
  define p where "p = pmm_addr_to_page a"
  have "buddy_free_order s a (buddy_get_order s p) = s"
  proof (cases "p \<in> fst ` A")
    case False
    then show ?thesis
      using free_order_ignored [OF assms(1)] unfolding p_def by blast
  next
    case True
    then obtain k q where kq: "(p, k) \<in> A" "q \<in> {p..<p + 2 ^ k}" "1 < buddy_get_refcount s q"
      using True assms(2) unfolding p_def [symmetric] by blast
    moreover have "pmm_addr_to_page (pmm_align_down a) = p"
      by (simp add: p_def)
    moreover have "any_shared s p (2 ^ k)"
      using kq by (auto simp: any_shared_iff)
    ultimately show ?thesis
      using tight_order [OF assms(1) kq(1)] by (auto simp: buddy_free_order_def Let_def p_def [symmetric])
  qed
  then show ?thesis
    by (simp add: pmm_free_page_def pmm_free_pages_def pmm_free_order_def Let_def p_def)
qed

theorem pmm_free_page_safe_witness:
  "pmm_free_page demo_pmm 0x2000 = demo_pmm \<and> pmm_free_pages demo_pmm 0x2000 2 = demo_pmm \<and> pmm_free_order demo_pmm 0x2000 = demo_pmm"
  by (rule pmm_free_page_safe [OF demo_tight]) (simp add: pmm_addr_to_page_def PMM_PAGE_SIZE_def)

text \<open>C23. \<open>pmm_alloc_pages\<close> rounds a count of up to 1024 pages up to the next power of two. A larger
  count is silently cut down to a block of 1024 pages, and above \<open>2 ^ 31\<close> the call does not return.\<close>

theorem pmm_alloc_pages_order:
  "(0 < unat count \<and> unat count \<le> 1024 \<longrightarrow>
      (\<exists>k\<le>BUDDY_MAX_ORDER. unat count \<le> 2 ^ k \<and> 2 ^ k < 2 * unat count \<and> pmm_alloc_pages s count = Some (buddy_alloc_order s k))) \<and>
   (1024 < unat count \<and> unat count \<le> 2 ^ 31 \<longrightarrow> pmm_alloc_pages s count = Some (buddy_alloc_order s BUDDY_MAX_ORDER)) \<and>
   (2 ^ 31 < unat count \<longrightarrow> pmm_alloc_pages s count = None)"
proof (intro conjI impI; (elim conjE)?)
  assume a: "0 < unat count" "unat count \<le> 1024"
  then have "count \<noteq> 0" by auto
  then show "\<exists>k\<le>BUDDY_MAX_ORDER. unat count \<le> 2 ^ k \<and> 2 ^ k < 2 * unat count \<and> pmm_alloc_pages s count = Some (buddy_alloc_order s k)"
    using calculate_order_small [OF a] by (auto simp: pmm_alloc_pages_def)
next
  assume a: "1024 < unat count" "unat count \<le> 2 ^ 31"
  then have "count \<noteq> 0" by auto
  then show "pmm_alloc_pages s count = Some (buddy_alloc_order s BUDDY_MAX_ORDER)"
    using calculate_order_large [OF a] by (simp add: pmm_alloc_pages_def)
next
  assume a: "2 ^ 31 < unat count"
  then have "count \<noteq> 0" by auto
  then show "pmm_alloc_pages s count = None"
    using calculate_order_huge [OF a] by (simp add: pmm_alloc_pages_def)
qed

theorem pmm_alloc_pages_order_witness:
  "pmm_alloc_pages demo_pmm 2000 = Some (buddy_alloc_order demo_pmm BUDDY_MAX_ORDER)"
  using pmm_alloc_pages_order [of 2000 demo_pmm] by simp

end
