(* ===== verification/Pmm_Boot.thy ===== *)
theory Pmm_Boot
  imports Buddy
begin

section \<open>Start-up of the physical memory manager\<close>

text \<open>
  What \<open>buddy_reserve_region\<close> and \<open>buddy_add_region\<close> build: reserved pages are allocated
  blocks of order 0, and a region of the memory map is cut into aligned free blocks that avoid the
  reserved pages. Together they give the invariant of the running allocator, and the
  histories of allocations and releases that start from it are safe.
\<close>

definition pmm_ok :: "pmm \<Rightarrow> (nat \<times> nat) set \<Rightarrow> bool" where
  "pmm_ok s A \<longleftrightarrow> (\<exists>FB. pmm_inv s FB A {} {..<total_pages s}) \<and> (\<forall>p. refcount_map s p \<le> 1)"

definition singles :: "nat set \<Rightarrow> (nat \<times> nat) set" where
  "singles R = (\<lambda>p. (p, 0)) ` R"

lemma fst_singles [simp]: "fst ` singles R = R"
  by (force simp: singles_def)

lemma singles_insert: "singles (insert p R) = insert (p, 0) (singles R)"
  by (simp add: singles_def)

subsection \<open>Reserving\<close>

definition reserved_ok :: "pmm \<Rightarrow> nat set \<Rightarrow> bool" where
  "reserved_ok s R \<longleftrightarrow> pmm_inv s {} (singles R) {} R \<and> (\<forall>p. buddy_get_order s p = 0) \<and> (\<forall>p. refcount_map s p = 0)"

lemma reserve_page:
  assumes ok: "reserved_ok s R" and "p < total_pages s" and "\<not> buddy_is_allocated s p"
  shows "reserved_ok ((buddy_mark_allocated s p)\<lparr>used_pages := used_pages s + 1\<rparr>) (insert p R)"
proof -
  let ?t = "(buddy_mark_allocated s p)\<lparr>used_pages := used_pages s + 1\<rparr>"
  have inv: "pmm_inv s {} (singles R) {} R" and ord: "\<forall>p. buddy_get_order s p = 0" and ref: "\<forall>p. refcount_map s p = 0"
    using ok unfolding reserved_ok_def by blast+
  note D = pmm_invD [OF inv]
  have new: "p \<notin> R"
    using D(8) [OF assms(2)] assms(3) by simp
  then have nin: "(p, 0) \<notin> singles R"
    by (auto simp: singles_def)
  have "insert p R - {p..<p + 2 ^ 0} = R"
    using new by auto
  then have tile: "tiling ({} \<union> singles (insert p R) \<union> {}) (insert p R)"
    using D(3) tiling_insert [OF nin, of "insert p R"] by (simp add: singles_insert)
  have "block_sum (singles (insert p R)) = block_sum (singles R) + 1"
    using nin inv_finite [OF inv] by (simp add: singles_insert block_sum_def)
  then have used: "used_pages ?t = of_nat (block_sum (singles (insert p R)))"
    using D(9) by simp
  have lists: "free_lists_ok ?t {}"
    using D(6) free_lists_ok_cong [of ?t s] by simp
  have orders: "buddy_get_order ?t q = j" if "(q, j) \<in> {} \<union> singles (insert p R)" for q j
    using that ord by (auto simp: singles_def)
  have alloc: "buddy_is_allocated ?t q \<longleftrightarrow> q \<in> fst ` singles (insert p R)" if "q < total_pages ?t" for q
    using D(8) [of q] that by (simp add: is_allocated_mark_allocated)
  have "total_pages ?t \<le> 2 ^ 20" "insert p R \<subseteq> {..<total_pages ?t}"
    using D(1,2) assms(2) by simp_all
  from pmm_invI [OF this tile _ _ lists orders alloc used]
  have "pmm_inv ?t {} (singles (insert p R)) {} (insert p R)"
    by simp
  then show ?thesis
    using ord ref unfolding reserved_ok_def by simp
qed

lemma reserve_loop_ok:
  assumes "reserved_ok s R" and "p + n \<le> 2 ^ 20"
  shows "reserved_ok (reserve_loop s (pa p) n) (R \<union> ({p..<p + n} \<inter> {..<total_pages s})) \<and>
    total_pages (reserve_loop s (pa p) n) = total_pages s"
  using assms
proof (induction n arbitrary: s R p)
  case (Suc n)
  have page: "pmm_addr_to_page (pa p) = p"
    using Suc.prems(2) by (intro page_pa) simp
  show ?case
  proof (cases "p < total_pages s")
    case False
    then have "{p..<p + Suc n} \<inter> {..<total_pages s} = {}"
      by auto
    then show ?thesis
      using Suc.prems(1) False by (simp add: page)
  next
    case True
    define t where "t = (if \<not> buddy_is_allocated s p then (buddy_mark_allocated s p)\<lparr>used_pages := used_pages s + 1\<rparr> else s)"
    have "reserved_ok t (insert p R)" and tot: "total_pages t = total_pages s"
    proof -
      have "p \<in> R" if "buddy_is_allocated s p"
        using pmm_invD(8) [of s "{}" "singles R" "{}" R p] Suc.prems(1) True that unfolding reserved_ok_def by simp
      then show "reserved_ok t (insert p R)"
        using reserve_page [OF Suc.prems(1) True] Suc.prems(1) by (auto simp: t_def insert_absorb)
      show "total_pages t = total_pages s"
        by (simp add: t_def)
    qed
    moreover have "pa p + PMM_PAGE_SIZE = pa (p + 1)"
      using pa_add_n [of p 1] by simp
    moreover have "R \<union> ({p..<p + Suc n} \<inter> {..<total_pages s}) = insert p R \<union> ({p + 1..<p + 1 + n} \<inter> {..<total_pages s})"
      using True by auto
    ultimately show ?thesis
      using Suc.IH [of t "insert p R" "p + 1"] Suc.prems(2) True
      by (simp add: page Let_def t_def [symmetric])
  qed
qed simp

definition reserved_span :: "u32 \<Rightarrow> u32 \<Rightarrow> nat set" where
  "reserved_span a b = {pmm_addr_to_page a..<pmm_addr_to_page (pmm_align_up b)}"

lemma align_up_pa: "pmm_align_up b = pa (pmm_addr_to_page (pmm_align_up b))"
proof -
  have "pmm_align_up b = pmm_align_down (b + PMM_PAGE_SIZE - 1)"
    by (simp add: pmm_align_up_def pmm_align_down_def)
  then show ?thesis
    by (metis align_down_pa page_align_down)
qed

lemma pa_less: "p < 2 ^ 20 \<Longrightarrow> q < 2 ^ 20 \<Longrightarrow> pa p < pa q \<longleftrightarrow> p < q"
  by (simp add: word_less_nat_alt unat_pa)

lemma pa_diff_pages:
  assumes "p < q" and "q < 2 ^ 20"
  shows "unat ((pa q - pa p) div PMM_PAGE_SIZE) = q - p"
proof -
  have "pa q - pa p = of_nat ((q - p) * 4096)"
    using assms(1) by (simp add: pmm_page_to_addr_def PMM_PAGE_SIZE_def of_nat_diff left_diff_distrib)
  moreover have "unat (of_nat ((q - p) * 4096) :: u32) = (q - p) * 4096"
    using assms by (intro unat_eqI [OF refl]) simp
  ultimately have "unat (pa q - pa p) = (q - p) * 4096"
    by (simp only:)
  then show ?thesis
    by (simp add: unat_div_distrib PMM_PAGE_SIZE_def)
qed

lemma reserve_region_ok:
  assumes "reserved_ok s R"
  shows "reserved_ok (buddy_reserve_region s a b) (R \<union> (reserved_span a b \<inter> {..<total_pages s})) \<and>
    total_pages (buddy_reserve_region s a b) = total_pages s"
proof -
  define p where "p = pmm_addr_to_page a"
  define q where "q = pmm_addr_to_page (pmm_align_up b)"
  have lt: "p < 2 ^ 20" "q < 2 ^ 20"
    by (simp_all only: p_def q_def addr_to_page_less)
  have eq: "pmm_align_down a = pa p" "pmm_align_up b = pa q"
    by (simp add: p_def align_down_pa, unfold q_def, rule align_up_pa)
  have span: "reserved_span a b = {p..<q}"
    by (simp add: reserved_span_def p_def q_def)
  show ?thesis
  proof (cases "p < q")
    case True
    then show ?thesis
      using reserve_loop_ok [OF assms, of p "q - p"] lt pa_less [OF lt] pa_diff_pages [OF True lt(2)]
      by (simp add: buddy_reserve_region_def eq span Let_def not_le [symmetric])
  next
    case False
    then show ?thesis
      using assms pa_less [OF lt] by (simp add: buddy_reserve_region_def eq span Let_def not_less)
  qed
qed

subsection \<open>Adding a region\<close>

lemma inv_add_block:
  assumes inv: "pmm_inv s FB A {} T" and "k \<le> BUDDY_MAX_ORDER" and "2 ^ k dvd p" and "p \<noteq> 0"
    and dj: "{p..<p + 2 ^ k} \<inter> T = {}" and sub: "{p..<p + 2 ^ k} \<subseteq> {..<total_pages s}"
  shows "pmm_inv (buddy_add_to_free_list (buddy_mark_free (buddy_set_order s p k) p) (pa p) k)
    (insert (p, k) FB) A {} (T \<union> {p..<p + 2 ^ k})"
proof -
  note D = pmm_invD [OF inv]
  let ?m = "buddy_mark_free (buddy_set_order s p k) p"
  let ?t = "buddy_add_to_free_list ?m (pa p) k"
  have pT: "p \<notin> T"
    using dj head_in_block [of p k] by blast
  then have new: "(p, j) \<notin> FB \<union> A" for j
    using tiling_not_in [OF D(3)] by simp
  have "p \<in> {..<total_pages s}"
    using sub head_in_block [of p k] by blast
  then have p: "p < total_pages s" "p < 2 ^ 20"
    using D(1) by simp_all
  have "T \<union> {p..<p + 2 ^ k} - {p..<p + 2 ^ k} = T"
    using dj by blast
  then have "tiling (insert (p, k) (FB \<union> A)) (T \<union> {p..<p + 2 ^ k})"
    using D(3) assms(2,3) tiling_insert [OF new, of k] by simp
  then have tile: "tiling (insert (p, k) FB \<union> A \<union> {}) (T \<union> {p..<p + 2 ^ k})"
    by simp
  have "free_lists_ok ?m FB"
    using D(6) free_lists_ok_cong [of ?m s] by simp
  then have lists: "free_lists_ok ?t (insert (p, k) FB)"
    using assms(2,4) p(2) new by (intro free_lists_add) auto
  have ord: "buddy_get_order ?t q = j" if "(q, j) \<in> insert (p, k) FB \<union> A" for q j
  proof (cases "(q, j) = (p, k)")
    case True
    then show ?thesis
      using assms(2) get_set_order [of k] by (simp add: BUDDY_MAX_ORDER_def)
  next
    case False
    then have "(q, j) \<in> FB \<union> A" "q \<noteq> p"
      using that new by auto
    then show ?thesis
      using D(7) [of q j] assms(2) get_set_order [of k] by (simp add: BUDDY_MAX_ORDER_def)
  qed
  have "p \<notin> fst ` A"
    using new by auto
  then have alloc: "buddy_is_allocated ?t q \<longleftrightarrow> q \<in> fst ` A" if "q < total_pages ?t" for q
    using D(8) [of q] that by (auto simp: is_allocated_mark_free)
  have sep: "insert (p, k) FB \<inter> A = {}" "{} \<inter> (insert (p, k) FB \<union> A) = {}"
    using D(4) new by auto
  have "total_pages ?t \<le> 2 ^ 20" "T \<union> {p..<p + 2 ^ k} \<subseteq> {..<total_pages ?t}" "used_pages ?t = of_nat (block_sum A)"
    using D(1,2,9) sub by simp_all
  from pmm_invI [OF this(1,2) tile sep lists ord alloc this(3)] show ?thesis .
qed

lemma all_pages_free_iff:
  "all_pages_free s p n \<longleftrightarrow> (\<forall>q\<in>{p..<p + n}. q < total_pages s \<and> \<not> buddy_is_allocated s q)"
proof (induction n arbitrary: p)
  case (Suc n)
  have "{p..<p + Suc n} = insert p {p + 1..<p + 1 + n}"
    by auto
  then show ?case
    unfolding all_pages_free.simps Suc by auto
qed simp

lemma order_aligned_iff:
  assumes "p < 2 ^ 20" and "k \<le> BUDDY_MAX_ORDER"
  shows "buddy_is_order_aligned (pa p) k \<longleftrightarrow> 2 ^ k dvd p"
proof -
  have "push_bit k PMM_PAGE_SIZE - 1 = mask (12 + k)"
    by (simp add: PMM_PAGE_SIZE_def mask_eq_exp_minus_1 push_bit_eq_mult power_add)
  then have "buddy_is_order_aligned (pa p) k \<longleftrightarrow> take_bit (12 + k) (pa p) = 0"
    unfolding buddy_is_order_aligned_def Let_def take_bit_eq_mask by simp
  also have "\<dots> \<longleftrightarrow> take_bit (12 + k) (unat (pa p)) = 0"
    by (metis unat_0 unat_eq_zero unsigned_take_bit_eq)
  also have "\<dots> \<longleftrightarrow> 2 ^ (12 + k) dvd p * 4096"
    by (simp add: unat_pa [OF assms(1)] take_bit_eq_mod dvd_eq_mod_eq_0)
  also have "\<dots> \<longleftrightarrow> 2 ^ k * 4096 dvd p * 4096"
    by (simp add: power_add mult.commute)
  also have "\<dots> \<longleftrightarrow> 2 ^ k dvd p"
    by simp
  finally show ?thesis .
qed

lemma region_order_props:
  assumes "p < 2 ^ 20" and "m \<le> BUDDY_MAX_ORDER" and "\<not> buddy_is_allocated s p" and "p < total_pages s" and "1 \<le> n"
  defines "k \<equiv> region_order s (pa p) p n m"
  shows "k \<le> m \<and> 2 ^ k \<le> n \<and> 2 ^ k dvd p \<and> (\<forall>q\<in>{p..<p + 2 ^ k}. q < total_pages s \<and> \<not> buddy_is_allocated s q)"
  unfolding k_def using assms(2)
proof (induction m)
  case 0
  then show ?case
    using assms by auto
next
  case (Suc m)
  show ?case
  proof (cases "(2 :: nat) ^ Suc m \<le> n \<and> buddy_is_order_aligned (pa p) (Suc m) \<and> all_pages_free s p (2 ^ Suc m)")
    case True
    then have "region_order s (pa p) p n (Suc m) = Suc m"
      by (simp add: Let_def)
    moreover have "2 ^ Suc m dvd p"
      using True order_aligned_iff [OF assms(1) Suc.prems] by blast
    ultimately show ?thesis
      using True unfolding all_pages_free_iff by simp
  next
    case False
    then have "region_order s (pa p) p n (Suc m) = region_order s (pa p) p n m"
      by (auto simp: Let_def)
    then show ?thesis
      using Suc by simp
  qed
qed

lemma region_loop_ok:
  assumes "pmm_inv s FB (singles R) {} T" and "c \<le> e" and "e < 2 ^ 20" and "e \<le> total_pages s"
    and "{c..<e} \<inter> T \<subseteq> R" and "0 \<in> R" and "R \<subseteq> T"
  shows "\<exists>FB'. pmm_inv (region_loop s (pa c) (pa e)) FB' (singles R) {} (T \<union> {c..<e}) \<and>
    total_pages (region_loop s (pa c) (pa e)) = total_pages s \<and>
    refcount_map (region_loop s (pa c) (pa e)) = refcount_map s"
  using assms
proof (induction "e - c" arbitrary: s FB T c rule: less_induct)
  case less
  note D = pmm_invD [OF less.prems(1)]
  show ?case
  proof (cases "c < e")
    case False
    then have "region_loop s (pa c) (pa e) = s" "{c..<e} = {}"
      using less.prems(2,3) by (simp_all add: region_loop.simps [of s] pa_less)
    then show ?thesis
      using less.prems(1) by auto
  next
    case True
    have c: "c < 2 ^ 20" "c < total_pages s"
      using True less.prems(3,4) by simp_all
    have alloc: "buddy_is_allocated s q \<longleftrightarrow> q \<in> R" if "q < total_pages s" for q
      using D(8) [OF that] by simp
    have rem: "unat ((pa e - pa c) div PMM_PAGE_SIZE) = e - c"
      by (rule pa_diff_pages [OF True less.prems(3)])
    have lt: "pa c < pa e"
      using pa_less True c(1) less.prems(3) by blast
    show ?thesis
    proof (cases "buddy_is_allocated s c")
      case in_use: True
      have "region_loop s (pa c) (pa e) = region_loop s (pa (c + 1)) (pa e)"
        using in_use lt rem True c pa_add_n [of c 1]
        by (subst region_loop.simps) (simp add: Let_def)
      moreover have "T \<union> {c + 1..<e} = T \<union> {c..<e}"
      proof -
        have "c \<in> T"
          using alloc [OF c(2)] in_use less.prems(7) by blast
        moreover have "{c..<e} = insert c {c + 1..<e}"
          using True by auto
        ultimately show ?thesis by auto
      qed
      moreover have "{c + 1..<e} \<inter> T \<subseteq> R"
        using less.prems(5) by auto
      ultimately show ?thesis
        using less.hyps [of "c + 1" s FB T] less.prems True by simp
    next
      case free: False
      define k where "k = region_order s (pa c) c (e - c) BUDDY_MAX_ORDER"
      have k: "k \<le> BUDDY_MAX_ORDER" "2 ^ k \<le> e - c" "2 ^ k dvd c"
        and pages: "\<forall>q\<in>{c..<c + 2 ^ k}. q < total_pages s \<and> \<not> buddy_is_allocated s q"
        using region_order_props [OF c(1) order_refl free c(2), of "e - c"] True unfolding k_def by auto
      define t where "t = buddy_add_to_free_list (buddy_mark_free (buddy_set_order s c k) c) (pa c) k"
      have step: "region_loop s (pa c) (pa e) = region_loop t (pa (c + 2 ^ k)) (pa e)"
        using free lt rem True c pa_add_n [of c "2 ^ k"]
        by (subst region_loop.simps) (simp add: Let_def k_def [symmetric] t_def)
      have ce: "c + 2 ^ k \<le> e"
        using k(2) True by linarith
      then have blk: "{c..<c + 2 ^ k} \<subseteq> {c..<e}"
        by simp
      have "q \<notin> T" if "q \<in> {c..<c + 2 ^ k}" for q
        using that blk pages alloc less.prems(5) by blast
      then have dj: "{c..<c + 2 ^ k} \<inter> T = {}"
        by blast
      have "c \<noteq> 0"
        using free alloc [OF c(2)] less.prems(6) by metis
      have inv: "pmm_inv t (insert (c, k) FB) (singles R) {} (T \<union> {c..<c + 2 ^ k})"
        unfolding t_def using pages by (intro inv_add_block [OF less.prems(1) k(1,3) \<open>c \<noteq> 0\<close> dj]) auto
      have "T \<union> {c..<c + 2 ^ k} \<union> {c + 2 ^ k..<e} = T \<union> {c..<e}"
        using ce by auto
      moreover have "{c + 2 ^ k..<e} \<inter> (T \<union> {c..<c + 2 ^ k}) \<subseteq> R"
        using less.prems(5) by auto
      moreover have "total_pages t = total_pages s" "refcount_map t = refcount_map s"
        by (simp_all add: t_def)
      moreover have "e - (c + 2 ^ k) < e - c" "c + 2 ^ k \<le> e"
        using True ce by (simp_all add: diff_less_mono2)
      ultimately show ?thesis
        using less.hyps [of "c + 2 ^ k" t "insert (c, k) FB" "T \<union> {c..<c + 2 ^ k}"] inv less.prems(3,4,6,7) step
        by auto
    qed
  qed
qed

definition added_span :: "u32 \<Rightarrow> u32 \<Rightarrow> nat set" where
  "added_span a b = {pmm_addr_to_page (pmm_align_up a)..<pmm_addr_to_page b}"

lemma add_region_ok:
  assumes "pmm_inv s FB (singles R) {} T" and "added_span a b \<subseteq> {..<total_pages s}" and "added_span a b \<inter> T \<subseteq> R"
    and "0 \<in> R" and "R \<subseteq> T"
  shows "\<exists>FB'. pmm_inv (buddy_add_region s a b) FB' (singles R) {} (T \<union> added_span a b) \<and>
    total_pages (buddy_add_region s a b) = total_pages s \<and> refcount_map (buddy_add_region s a b) = refcount_map s"
proof -
  define c where "c = pmm_addr_to_page (pmm_align_up a)"
  define e where "e = pmm_addr_to_page b"
  have lt: "c < 2 ^ 20" "e < 2 ^ 20"
    by (simp_all only: c_def e_def addr_to_page_less)
  have eq: "pmm_align_up a = pa c" "pmm_align_down b = pa e"
    unfolding c_def e_def by (rule align_up_pa, simp add: align_down_pa)
  have span: "added_span a b = {c..<e}"
    by (simp add: added_span_def c_def e_def)
  show ?thesis
  proof (cases "c < e")
    case True
    have "e \<le> total_pages s"
      using assms(2) True unfolding span by (metis atLeastLessThan_subset_iff le_refl lessThan_atLeast0 not_less)
    moreover have "buddy_add_region s a b = region_loop s (pa c) (pa e)"
      using True pa_less [OF lt] by (simp add: buddy_add_region_def eq Let_def not_le [symmetric])
    ultimately show ?thesis
      using region_loop_ok [OF assms(1), of c e] True lt assms(3-5) by (simp add: span)
  next
    case False
    then show ?thesis
      using assms(1) pa_less [OF lt] by (auto simp: buddy_add_region_def eq span Let_def not_less)
  qed
qed

subsection \<open>The whole start-up\<close>

definition entry_stop :: "mmap_entry \<Rightarrow> u32" where
  "entry_stop e = (let stop = ucast (entry_base e + entry_length e) in if stop < ucast (entry_base e) then 0xFFFFFFFF else stop)"

definition entry_span :: "mmap_entry \<Rightarrow> nat set" where
  "entry_span e = (if entry_type e \<noteq> 1 \<or> entry_base e \<ge> 0xFFFFFFFF then {}
     else added_span (ucast (entry_base e)) (entry_stop e))"

definition modules_span :: "(u32 \<times> u32) list \<Rightarrow> nat set" where
  "modules_span ms = (\<Union>(a, b)\<in>set ms. reserved_span a b)"

definition boot_pages :: "mmap_entry list \<Rightarrow> u32" where
  "boot_pages mmap = process_memory_map 0 mmap div PMM_PAGE_SIZE"

definition boot_reserved :: "u32 \<Rightarrow> u32 \<Rightarrow> (u32 \<times> u32) list \<Rightarrow> mmap_entry list \<Rightarrow> nat set" where
  "boot_reserved kernel_start kernel_end modules mmap =
     (reserved_span 0 PMM_RESERVED_AREA \<union> reserved_span kernel_start (metadata_end kernel_end modules (boot_pages mmap))
      \<union> modules_span modules) \<inter> {..<unat (boot_pages mmap)}"

text \<open>The memory maps on which the allocator works: no entry wraps around, the available entries
  overlap at most in reserved pages, and every page up to the last one is reserved or available.\<close>

fun entries_apart :: "nat set \<Rightarrow> nat set \<Rightarrow> mmap_entry list \<Rightarrow> bool" where
  "entries_apart R T [] \<longleftrightarrow> True"
| "entries_apart R T (e # es) \<longleftrightarrow> entry_span e \<inter> T \<subseteq> R \<and> entries_apart R (T \<union> entry_span e) es"

definition boot_map_ok :: "nat set \<Rightarrow> mmap_entry list \<Rightarrow> bool" where
  "boot_map_ok R mmap \<longleftrightarrow> unat (boot_pages mmap) \<noteq> 0 \<and>
     (\<forall>e\<in>set mmap. unat (entry_base e) + unat (entry_length e) < 2 ^ 64) \<and>
     entries_apart R R mmap \<and> R \<union> (\<Union>e\<in>set mmap. entry_span e) = {..<unat (boot_pages mmap)}"

lemma reserve_modules_ok:
  "reserved_ok s R \<Longrightarrow> reserved_ok (reserve_modules s ms) (R \<union> (modules_span ms \<inter> {..<total_pages s})) \<and>
     total_pages (reserve_modules s ms) = total_pages s"
proof (induction ms arbitrary: s R)
  case (Cons m ms)
  obtain a b where m: "m = (a, b)" by (cases m)
  note r = reserve_region_ok [OF Cons.prems, of a b]
  then show ?case
    using Cons.IH [of "buddy_reserve_region s a b" "R \<union> (reserved_span a b \<inter> {..<total_pages s})"]
    by (simp add: m modules_span_def Int_Un_distrib2 Un_assoc)
qed (simp add: modules_span_def)

lemma reserved_empty:
  assumes "n \<le> 2 ^ 20"
  shows "reserved_ok (s\<lparr>free_lists := \<lambda>i. 0, order_map := \<lambda>i. 0, status_map := \<lambda>i. 0, refcount_map := \<lambda>i. 0,
      total_pages := n, used_pages := 0, alloc_count := \<lambda>i. 0\<rparr>) {}"
proof -
  let ?t = "s\<lparr>free_lists := \<lambda>i. 0, order_map := \<lambda>i. 0, status_map := \<lambda>i. 0, refcount_map := \<lambda>i. 0,
      total_pages := n, used_pages := 0, alloc_count := \<lambda>i. 0\<rparr>"
  have "lists_ok ?t (\<lambda>k. [])"
    by (simp add: lists_ok_def)
  then have "free_lists_ok ?t {}"
    by (auto simp: free_lists_ok_def)
  then have "pmm_inv ?t {} (singles {}) {} {}"
    using assms by (simp add: pmm_inv_def tiling_def singles_def block_sum_def buddy_is_allocated_def)
  then show ?thesis
    by (simp add: reserved_ok_def buddy_get_order_def Let_def)
qed

lemma process_map_mono: "mx \<le> process_memory_map mx es"
proof (induction es arbitrary: mx)
  case (Cons e es)
  show ?case
    using Cons [of mx] order_trans [OF less_imp_le Cons] by (auto simp: Let_def)
qed simp

lemma process_map_entry:
  assumes "e \<in> set es" and "entry_type e = 1"
  shows "ucast (if entry_base e + entry_length e > 0xFFFFFFFF then 0xFFFFFFFF else entry_base e + entry_length e)
    \<le> process_memory_map mx es"
  using assms
proof (induction es arbitrary: mx)
  case (Cons a es)
  show ?case
  proof (cases "a = e")
    case True
    let ?v = "ucast (if entry_base e + entry_length e > 0xFFFFFFFF then 0xFFFFFFFF else entry_base e + entry_length e) :: u32"
    have "?v \<le> (if ?v > mx then ?v else mx)"
      by auto
    also have "\<dots> \<le> process_memory_map (if ?v > mx then ?v else mx) es"
      by (rule process_map_mono)
    finally show ?thesis
      using True Cons.prems(2) by (simp add: Let_def)
  next
    case False
    then show ?thesis
      using Cons by (simp add: Let_def)
  qed
qed simp

lemma ucast_64_32:
  fixes w :: u64
  assumes "w \<le> 0xFFFFFFFF"
  shows "unat (ucast w :: u32) = unat w"
proof -
  have "unat w < 2 ^ 32"
    using assms by (simp add: word_le_nat_alt)
  then show ?thesis
    by (simp add: unsigned_ucast_eq take_bit_nat_eq_self)
qed

lemma entry_stop_le:
  assumes "e \<in> set mmap" and "entry_type e = 1" and "entry_base e < 0xFFFFFFFF"
    and nw: "unat (entry_base e) + unat (entry_length e) < 2 ^ 64"
  shows "entry_stop e \<le> process_memory_map 0 mmap"
proof (cases "entry_base e + entry_length e > 0xFFFFFFFF")
  case True
  have "(0xFFFFFFFF :: u32) \<le> process_memory_map 0 mmap"
    using process_map_entry [OF assms(1,2), of 0] True by simp
  moreover have "w \<le> 0xFFFFFFFF" for w :: u32
    using unat_lt_32 [of w] by (simp add: word_le_nat_alt)
  ultimately show ?thesis
    by (rule order_trans [rotated])
next
  case False
  have sum: "unat (entry_base e + entry_length e) = unat (entry_base e) + unat (entry_length e)"
    using nw by (simp add: unat_plus_simple [THEN iffD1] unat_word_ariths)
  have "unat (ucast (entry_base e + entry_length e) :: u32) = unat (entry_base e + entry_length e)"
    using False by (intro ucast_64_32) simp
  moreover have "unat (ucast (entry_base e) :: u32) = unat (entry_base e)"
    using assms(3) by (intro ucast_64_32) simp
  ultimately have "\<not> (ucast (entry_base e + entry_length e) :: u32) < ucast (entry_base e)"
    using sum by (simp add: word_less_nat_alt)
  then show ?thesis
    using process_map_entry [OF assms(1,2), of 0] False by (simp add: entry_stop_def Let_def)
qed

lemma entry_span_bound:
  assumes "boot_map_ok R mmap" and "e \<in> set mmap"
  shows "entry_span e \<subseteq> {..<unat (boot_pages mmap)}"
  using assms unfolding boot_map_ok_def by blast

lemma add_entries_ok:
  assumes "pmm_inv s FB (singles R) {} T" and "entries_apart R T es" and "0 \<in> R" and "R \<subseteq> T"
    and "\<And>e. e \<in> set es \<Longrightarrow> entry_span e \<subseteq> {..<total_pages s}"
  shows "\<exists>FB'. pmm_inv (add_entries s es) FB' (singles R) {} (T \<union> (\<Union>e\<in>set es. entry_span e)) \<and>
    total_pages (add_entries s es) = total_pages s \<and> refcount_map (add_entries s es) = refcount_map s"
  using assms
proof (induction es arbitrary: s FB T)
  case (Cons e es)
  show ?case
  proof (cases "entry_type e \<noteq> 1 \<or> entry_base e \<ge> 0xFFFFFFFF")
    case True
    then have "add_entries s (e # es) = add_entries s es" "entry_span e = {}"
      by (auto simp: entry_span_def)
    then show ?thesis
      using Cons.IH [OF Cons.prems(1)] Cons.prems by simp
  next
    case False
    define t where "t = buddy_add_region s (ucast (entry_base e)) (entry_stop e)"
    have span: "entry_span e = added_span (ucast (entry_base e)) (entry_stop e)"
      using False by (auto simp: entry_span_def)
    have eq: "add_entries s (e # es) = add_entries t es"
      using False by (auto simp: t_def entry_stop_def Let_def)
    obtain FB1 where inv: "pmm_inv t FB1 (singles R) {} (T \<union> entry_span e)"
      and fr: "total_pages t = total_pages s" "refcount_map t = refcount_map s"
      using add_region_ok [OF Cons.prems(1), of "ucast (entry_base e)" "entry_stop e"] Cons.prems(2-5)
      unfolding span [symmetric] t_def [symmetric] by auto
    have "\<exists>FB'. pmm_inv (add_entries t es) FB' (singles R) {} (T \<union> entry_span e \<union> (\<Union>e\<in>set es. entry_span e)) \<and>
        total_pages (add_entries t es) = total_pages t \<and> refcount_map (add_entries t es) = refcount_map t"
      using Cons.prems fr by (intro Cons.IH [OF inv]) auto
    then show ?thesis
      using eq fr by (simp add: Un_assoc)
  qed
qed auto

lemma zero_reserved: "unat (boot_pages mmap) \<noteq> 0 \<Longrightarrow> 0 \<in> boot_reserved ks ke ms mmap"
  by (simp add: boot_reserved_def reserved_span_def pmm_addr_to_page_def pmm_align_up_def PMM_RESERVED_AREA_def PMM_PAGE_SIZE_def)

lemma boot_pages_le: "unat (boot_pages mmap) \<le> 2 ^ 20"
  using unat_lt_32 [of "process_memory_map 0 mmap"]
  by (simp add: boot_pages_def unat_div_distrib PMM_PAGE_SIZE_def)

lemma pmm_init_inv:
  assumes ok: "boot_map_ok (boot_reserved ks ke ms mmap) mmap"
  shows "pmm_ok (pmm_init ks ke ms mmap s) (singles (boot_reserved ks ke ms mmap)) \<and>
    total_pages (pmm_init ks ke ms mmap s) = unat (boot_pages mmap)"
proof -
  define R where "R = boot_reserved ks ke ms mmap"
  define n where "n = unat (boot_pages mmap)"
  define s0 where "s0 = s\<lparr>free_lists := \<lambda>i. 0, order_map := \<lambda>i. 0, status_map := \<lambda>i. 0, refcount_map := \<lambda>i. 0,
      total_pages := n, used_pages := 0, alloc_count := \<lambda>i. 0\<rparr>"
  define s1 where "s1 = buddy_reserve_region s0 0 PMM_RESERVED_AREA"
  define s2 where "s2 = buddy_reserve_region s1 ks (metadata_end ke ms (boot_pages mmap))"
  define s3 where "s3 = reserve_modules s2 ms"
  have tot0: "total_pages s0 = n"
    by (simp add: s0_def)
  have r0: "reserved_ok s0 {}"
    unfolding s0_def n_def by (rule reserved_empty [OF boot_pages_le])
  note r1 = reserve_region_ok [OF r0, of 0 PMM_RESERVED_AREA, folded s1_def, unfolded tot0]
  note r2 = reserve_region_ok [OF conjunct1 [OF r1], of ks "metadata_end ke ms (boot_pages mmap)", folded s2_def]
  note r3 = reserve_modules_ok [OF conjunct1 [OF r2], of ms, folded s3_def]
  have tot: "total_pages s3 = n" "total_pages s2 = n" "total_pages s1 = n"
    using r1 r2 r3 by simp_all
  have "({} \<union> (reserved_span 0 PMM_RESERVED_AREA \<inter> {..<n}) \<union> (reserved_span ks (metadata_end ke ms (boot_pages mmap)) \<inter> {..<n})
      \<union> (modules_span ms \<inter> {..<n})) = R"
    by (simp add: R_def boot_reserved_def n_def Int_Un_distrib2)
  then have "reserved_ok s3 R"
    using conjunct1 [OF r3] unfolding tot by simp
  then have inv: "pmm_inv s3 {} (singles R) {} R" and ref: "\<forall>p. refcount_map s3 p = 0"
    unfolding reserved_ok_def by blast+
  have nz: "n \<noteq> 0" and apart: "entries_apart R R mmap" and all: "R \<union> (\<Union>e\<in>set mmap. entry_span e) = {..<n}"
    using ok unfolding boot_map_ok_def R_def n_def by blast+
  have "0 \<in> R"
    using zero_reserved nz unfolding R_def n_def by blast
  moreover have "entry_span e \<subseteq> {..<total_pages s3}" if "e \<in> set mmap" for e
    using entry_span_bound [OF ok that] by (simp add: tot n_def)
  ultimately obtain FB' where "pmm_inv (add_entries s3 mmap) FB' (singles R) {} {..<n}"
    "total_pages (add_entries s3 mmap) = n" "refcount_map (add_entries s3 mmap) = refcount_map s3"
    using add_entries_ok [OF inv apart] by (auto simp: all tot)
  moreover have "pmm_init ks ke ms mmap s = add_entries s3 mmap"
  proof -
    have "process_memory_map 0 mmap \<noteq> 0"
      using nz by (auto simp: n_def boot_pages_def)
    then show ?thesis
      by (simp add: pmm_init_def Let_def s3_def s2_def s1_def s0_def n_def boot_pages_def)
  qed
  ultimately show ?thesis
    using ref by (auto simp: pmm_ok_def R_def n_def)
qed

subsection \<open>Histories of calls\<close>

text \<open>What the allocator's callers rely on. A state \<open>s\<close> hands out the blocks \<open>A\<close>: pairs of a first page and an
  order. They never overlap, an allocation adds a new one or changes nothing, and a release takes one away.\<close>

locale page_source =
  fixes ok :: "'s \<Rightarrow> (nat \<times> nat) set \<Rightarrow> bool"
    and alloc :: "'s \<Rightarrow> u8 \<Rightarrow> u32 \<times> 's"
    and release :: "'s \<Rightarrow> u32 \<Rightarrow> 's"
  assumes apart: "ok s A \<Longrightarrow> (p, k) \<in> A \<Longrightarrow> (q, j) \<in> A \<Longrightarrow> (p, k) \<noteq> (q, j) \<Longrightarrow> {p..<p + 2 ^ k} \<inter> {q..<q + 2 ^ j} = {}"
    and alloc_ok: "ok s A \<Longrightarrow> unat n \<le> BUDDY_MAX_ORDER \<Longrightarrow> alloc s n = (a, t) \<Longrightarrow>
      a = 0 \<and> t = s \<or> (\<exists>p. a = pmm_page_to_addr p \<and> p \<noteq> 0 \<and> p < 2 ^ 20 \<and> (p, unat n) \<notin> A \<and> ok t (insert (p, unat n) A))"
    and release_ok: "ok s A \<Longrightarrow> (p, k) \<in> A \<Longrightarrow> p \<noteq> 0 \<Longrightarrow> ok (release s (pmm_page_to_addr p)) (A - {(p, k)})"

text \<open>The states that calls lead to from a state \<open>s0\<close>, with the blocks the callers hold. Callers release only what
  they hold.\<close>

inductive history :: "('s \<Rightarrow> u8 \<Rightarrow> u32 \<times> 's) \<Rightarrow> ('s \<Rightarrow> u32 \<Rightarrow> 's) \<Rightarrow> 's \<Rightarrow> 's \<Rightarrow> (nat \<times> nat) set \<Rightarrow> bool"
  for alloc release s0 where
  start: "history alloc release s0 s0 {}"
| allocate: "history alloc release s0 s H \<Longrightarrow> unat n \<le> BUDDY_MAX_ORDER \<Longrightarrow> alloc s n = (a, t) \<Longrightarrow> a \<noteq> 0 \<Longrightarrow>
    history alloc release s0 t (insert (pmm_addr_to_page a, unat n) H)"
| exhausted: "history alloc release s0 s H \<Longrightarrow> unat n \<le> BUDDY_MAX_ORDER \<Longrightarrow> alloc s n = (0, t) \<Longrightarrow>
    history alloc release s0 t H"
| giveback: "history alloc release s0 s H \<Longrightarrow> (p, k) \<in> H \<Longrightarrow>
    history alloc release s0 (release s (pmm_page_to_addr p)) (H - {(p, k)})"

context page_source
begin

lemma history_ok:
  assumes "history alloc release s0 s H" and "ok s0 A0"
  shows "ok s (A0 \<union> H) \<and> A0 \<inter> H = {} \<and> 0 \<notin> fst ` H \<and> finite H"
  using assms
proof (induction rule: history.induct)
  case (allocate s H k a t)
  then obtain p where p: "a = pmm_page_to_addr p" "p \<noteq> 0" "p < 2 ^ 20" "(p, unat k) \<notin> A0 \<union> H"
    "ok t (insert (p, unat k) (A0 \<union> H))"
    using alloc_ok [of s "A0 \<union> H" k a t] by blast
  moreover have "pmm_addr_to_page a = p"
    using p(1,3) page_pa by simp
  ultimately show ?case
    using allocate by auto
next
  case (exhausted s H k t)
  then have "t = s"
    using alloc_ok [of s "A0 \<union> H" k 0 t] pa_0 by metis
  then show ?case
    using exhausted by simp
next
  case (giveback s H p k)
  then have "A0 \<union> H - {(p, k)} = A0 \<union> (H - {(p, k)})" "p \<noteq> 0" "(p, k) \<in> A0 \<union> H"
    by (auto intro: rev_image_eqI)
  then show ?case
    using giveback release_ok [of s "A0 \<union> H" p k] by auto
qed simp

lemma history_apart:
  assumes "history alloc release s0 s H" and "ok s0 A0"
    and "(p, k) \<in> H" and "(q, j) \<in> A0 \<union> H" and "(p, k) \<noteq> (q, j)"
  shows "{p..<p + 2 ^ k} \<inter> {q..<q + 2 ^ j} = {}"
  using history_ok [OF assms(1,2)] assms(3-5) apart [of s "A0 \<union> H" p k q j] by blast

end

lemma pmm_ok_alloc:
  assumes "pmm_ok s A" and "unat k \<le> BUDDY_MAX_ORDER" and "pmm_alloc_order s k = (a, t)"
  shows "a = 0 \<and> t = s \<or>
    (\<exists>p. a = pmm_page_to_addr p \<and> p \<noteq> 0 \<and> p < 2 ^ 20 \<and> (p, unat k) \<notin> A \<and> pmm_ok t (insert (p, unat k) A))"
proof -
  obtain FB where inv: "pmm_inv s FB A {} {..<total_pages s}" and ref: "\<And>p. refcount_map s p \<le> 1"
    using assms(1) unfolding pmm_ok_def by blast
  from alloc_order_spec [OF inv assms(2)] show ?thesis
  proof (elim disjE exE conjE)
    fix u p f
    assume res: "buddy_alloc_order s (unat k) = (pmm_page_to_addr p, u)"
      and ar: "alloc_result s FB A {..<total_pages s} (unat k) u p f"
    have u: "u = t" "a = pmm_page_to_addr p"
      using res assms(3) by (simp_all add: pmm_alloc_order_def)
    have pf: "(p, f) \<in> FB" "unat k \<le> f"
      and inv': "pmm_inv t (FB - {(p, f)} \<union> split_rest p (unat k) f) (insert (p, unat k) A) {} {..<total_pages t}"
      and ref': "\<forall>q. refcount_map t q \<le> 1"
      using ar ref unfolding u by (simp_all add: alloc_result_def)
    have "p \<noteq> 0"
      using free_lists_range [OF pmm_invD(6) [OF inv] pf(1)] by simp
    moreover have "(p, unat k) \<notin> A"
      using tiling_head_unique [OF pmm_invD(3) [OF inv], of p f "unat k"] pf(1) pmm_invD(4) [OF inv] by blast
    moreover have "p < 2 ^ 20"
      using inv_block(5) [OF inv, of p f] pf(1) by blast
    ultimately show ?thesis
      using u(2) inv' ref' unfolding pmm_ok_def by blast
  qed (use assms(3) in \<open>simp add: pmm_alloc_order_def\<close>)
qed

lemma pmm_ok_free:
  assumes "pmm_ok s A" and "(p, k) \<in> A" and "p \<noteq> 0"
  shows "pmm_ok (pmm_free_page s (pmm_page_to_addr p)) (A - {(p, k)})"
proof -
  obtain FB where inv: "pmm_inv s FB A {} {..<total_pages s}" and ref: "\<And>p. refcount_map s p \<le> 1"
    using assms(1) unfolding pmm_ok_def by blast
  have "buddy_get_refcount s q \<le> 1" for q
    using ref [of q] by (simp add: buddy_get_refcount_def)
  then obtain q j FB' where fr: "free_result s FB A p k (buddy_free_order s (pmm_page_to_addr p) k) q j FB'"
    using free_order_spec [OF inv assms(2,3)] by blast
  have "p < 2 ^ 20" "buddy_get_order s p = k"
    using inv_block(5) [OF inv, of p k] pmm_invD(7) [OF inv, of p k] assms(2) by blast+
  then have "pmm_free_page s (pmm_page_to_addr p) = buddy_free_order s (pmm_page_to_addr p) k"
    by (simp add: pmm_free_page_def)
  then show ?thesis
    using fr ref unfolding pmm_ok_def free_result_def by auto
qed

interpretation frames: page_source pmm_ok pmm_alloc_order pmm_free_page
proof
  show "{p..<p + 2 ^ k} \<inter> {q..<q + 2 ^ j} = {}"
    if "pmm_ok s A" "(p, k) \<in> A" "(q, j) \<in> A" "(p, k) \<noteq> (q, j)" for s A p k q j
    using that tiling_unique [of _ _ p k q j] pmm_invD(3) unfolding pmm_ok_def by blast
qed (fact pmm_ok_alloc, fact pmm_ok_free)

subsection \<open>A machine\<close>

definition machine_map :: "mmap_entry list" where
  "machine_map = [\<lparr>base_low = 0, base_high = 0, length_low = 0x200000, length_high = 0, entry_type = 1\<rparr>]"

definition blank_pmm :: pmm where
  "blank_pmm = \<lparr>free_lists = \<lambda>_. 0, order_map = \<lambda>_. 0, status_map = \<lambda>_. 0,
     refcount_map = \<lambda>_. 0, total_pages = 0, used_pages = 0, alloc_count = \<lambda>_. 0,
     blocks = \<lambda>_. \<lparr>bb_next = 0, bb_prev = 0\<rparr>\<rparr>"

lemma machine_pages: "boot_pages machine_map = 0x200"
  by code_simp

lemma machine_metadata: "metadata_end 0x110000 [] 0x200 = 0x113000"
  by code_simp

lemma machine_span: "entry_span \<lparr>base_low = 0, base_high = 0, length_low = 0x200000, length_high = 0, entry_type = 1\<rparr> = {0..<0x200}"
  by (simp add: entry_span_def entry_stop_def added_span_def entry_base_def entry_length_def Let_def pmm_addr_to_page_def
      pmm_align_up_def PMM_PAGE_SIZE_def)

lemma machine_map_ok: "boot_map_ok (boot_reserved 0x100000 0x110000 [] machine_map) machine_map"
proof -
  define R where "R = boot_reserved 0x100000 0x110000 [] machine_map"
  have "R \<subseteq> {..<0x200}"
    by (auto simp: R_def boot_reserved_def machine_pages)
  then show ?thesis
    unfolding R_def [symmetric] boot_map_ok_def machine_pages
    by (auto simp: machine_map_def machine_span entry_base_def entry_length_def)
qed

lemma pmm_ok_used:
  assumes "pmm_ok s (singles R \<union> H)" and "singles R \<inter> H = {}" and "finite R" and "finite H"
  shows "used_pages s = of_nat (card R + block_sum H)"
proof -
  have "block_sum (singles R \<union> H) = block_sum (singles R) + block_sum H"
    unfolding block_sum_def using assms(2-4) by (intro sum.union_disjoint) (auto simp: singles_def)
  moreover have "block_sum (singles R) = card R"
    unfolding block_sum_def singles_def by (subst sum.reindex) (auto simp: inj_on_def)
  ultimately show ?thesis
    using assms(1) pmm_invD(9) unfolding pmm_ok_def by metis
qed

lemma pmm_ok_alloc_page:
  assumes "pmm_ok s (singles R)" and "x < total_pages s" and "x \<notin> R"
  shows "fst (pmm_alloc_order s 0) \<noteq> 0"
proof -
  obtain FB where inv: "pmm_inv s FB (singles R) {} {..<total_pages s}"
    using assms(1) unfolding pmm_ok_def by blast
  obtain p k where pk: "(p, k) \<in> FB \<union> singles R" "x \<in> {p..<p + 2 ^ k}"
    using tiling_cover [OF pmm_invD(3) [OF inv], of x] assms(2) by auto
  have "(p, k) \<in> FB"
    using pk assms(3) by (auto simp: singles_def le_less_Suc_eq)
  then have "\<not> (\<forall>p f. (p, f) \<in> FB \<longrightarrow> f < 0)"
    by blast
  then obtain t p f where "buddy_alloc_order s 0 = (pmm_page_to_addr p, t)" "(p, f) \<in> FB"
    using alloc_order_spec [OF inv, of 0] unfolding alloc_result_def by blast
  moreover from this have "p \<noteq> 0" "p < 2 ^ 20"
    using free_lists_range [OF pmm_invD(6) [OF inv]] by blast+
  ultimately show ?thesis
    using pa_0 by (simp add: pmm_alloc_order_def)
qed

lemma boot_reserved_finite: "finite (boot_reserved ks ke ms mmap)"
  by (simp add: boot_reserved_def)

subsection \<open>Properties\<close>

text \<open>C24. Start-up: when every page below the end of the memory is reserved or lies in exactly one available entry
  of the memory map, \<open>pmm_init\<close> leaves a well formed allocator. Exactly the pages of the first megabyte, of
  the kernel with the allocator's tables and of the modules are allocated, each as a block of its own, and the count of used
  pages is their number.\<close>

theorem pmm_init_correct:
  assumes "boot_map_ok (boot_reserved ks ke ms mmap) mmap"
  shows "let t = pmm_init ks ke ms mmap s in
    pmm_ok t (singles (boot_reserved ks ke ms mmap)) \<and> total_pages t = unat (boot_pages mmap) \<and>
    (\<forall>p<total_pages t. buddy_is_allocated t p \<longleftrightarrow> p \<in> boot_reserved ks ke ms mmap) \<and>
    used_pages t = of_nat (card (boot_reserved ks ke ms mmap))"
proof -
  let ?t = "pmm_init ks ke ms mmap s" and ?R = "boot_reserved ks ke ms mmap"
  have ok: "pmm_ok ?t (singles ?R)" and tot: "total_pages ?t = unat (boot_pages mmap)"
    using pmm_init_inv [OF assms] by blast+
  have "buddy_is_allocated ?t p \<longleftrightarrow> p \<in> ?R" if "p < total_pages ?t" for p
    using ok pmm_invD(8) [OF _ that] fst_singles unfolding pmm_ok_def by metis
  moreover have "used_pages ?t = of_nat (card ?R)"
    using pmm_ok_used [of ?t ?R "{}"] ok boot_reserved_finite by (simp add: block_sum_def)
  ultimately show ?thesis
    using ok tot by (simp add: Let_def)
qed

theorem pmm_init_correct_witness:
  "let t = pmm_init 0x100000 0x110000 [] machine_map blank_pmm in total_pages t = 512 \<and> buddy_is_allocated t 0"
proof -
  have "0 \<in> boot_reserved 0x100000 0x110000 [] machine_map"
    by (rule zero_reserved) (simp add: machine_pages)
  then show ?thesis
    using pmm_init_correct [OF machine_map_ok, of blank_pmm] by (simp add: Let_def machine_pages)
qed



end
