(* ===== verification/Paging.thy ===== *)
theory Paging
  imports Pmm_Boot
begin

section \<open>Page directories and page tables\<close>

text \<open>
  \<open>kernel/arch/i386/paging/paging.c\<close>: two-level page tables in physical memory, with
  copy-on-write sharing between the address spaces of a process and its copy.

  Physical memory is a map from the address of a page frame to its 1024 words, so that a frame used as a
  directory, as a table or for data is one and the same kind of object and may in principle be
  confused with another. Entries are words with the fields of \<open>page_table_entry_t\<close>: bit 0
  present, 1 writable, 2 user, 9 (the lowest of \<open>available\<close>) copy-on-write, and the frame number from
  bit 12 on. Pointers to directories and tables are the physical addresses of their frames; the kernel reaches them
  through the map of physical memory at \<open>PHYS_MAP_BASE\<close>, which covers the first GiB. A NULL
  table is \<open>None\<close> and a NULL directory is 0, the address of a reserved page. The translation
  look-aside buffer and the debug output are not part of the state; \<open>None\<close> as the result of a
  call stands for \<open>abort\<close>.
\<close>

subsection \<open>Addresses\<close>

definition PAGE_SIZE :: u32 where "PAGE_SIZE = 4096"

definition VMM_KERNEL_START :: u32 where "VMM_KERNEL_START = 0x00100000"

definition VMM_USER_START :: u32 where "VMM_USER_START = 0x00400000"

definition VMM_USER_END :: u32 where "VMM_USER_END = 0x40000000"

definition VMM_KERNEL_HEAP :: u32 where "VMM_KERNEL_HEAP = 0x40000000"

definition VMM_KERNEL_END :: u32 where "VMM_KERNEL_END = 0xC0000000"

definition PHYS_MAP_BASE :: u32 where "PHYS_MAP_BASE = 0xC0000000"

definition PHYS_MAP_SIZE :: u32 where "PHYS_MAP_SIZE = 0x40000000"

definition paging_get_pd_index :: "u32 \<Rightarrow> nat" where
  "paging_get_pd_index virt = unat (drop_bit 22 virt)"

definition paging_get_pt_index :: "u32 \<Rightarrow> nat" where
  "paging_get_pt_index virt = unat (drop_bit 12 virt AND 0x3FF)"

definition paging_get_page_offset :: "u32 \<Rightarrow> u32" where
  "paging_get_page_offset virt = virt AND (PAGE_SIZE - 1)"

definition paging_align_down :: "u32 \<Rightarrow> u32" where
  "paging_align_down addr = addr AND NOT (PAGE_SIZE - 1)"

definition paging_align_up :: "u32 \<Rightarrow> u32" where
  "paging_align_up addr = (addr + PAGE_SIZE - 1) AND NOT (PAGE_SIZE - 1)"

definition paging_is_aligned :: "u32 \<Rightarrow> bool" where
  "paging_is_aligned addr \<longleftrightarrow> addr AND (PAGE_SIZE - 1) = 0"

definition paging_addr_to_page :: "u32 \<Rightarrow> u32" where
  "paging_addr_to_page addr = addr div PAGE_SIZE"

definition paging_page_to_addr :: "u32 \<Rightarrow> u32" where
  "paging_page_to_addr page = page * PAGE_SIZE"

subsection \<open>Entries\<close>

definition set_flag :: "nat \<Rightarrow> bool \<Rightarrow> u32 \<Rightarrow> u32" where
  "set_flag n b w = (if b then set_bit n w else unset_bit n w)"

definition entry_present :: "u32 \<Rightarrow> bool" where
  "entry_present e \<longleftrightarrow> bit e 0"

definition entry_rw :: "u32 \<Rightarrow> bool" where
  "entry_rw e \<longleftrightarrow> bit e 1"

definition entry_user :: "u32 \<Rightarrow> bool" where
  "entry_user e \<longleftrightarrow> bit e 2"

definition entry_cow :: "u32 \<Rightarrow> bool" where
  "entry_cow e \<longleftrightarrow> bit e 9"

definition entry_frame :: "u32 \<Rightarrow> u32" where
  "entry_frame e = drop_bit 12 e"

definition set_frame :: "u32 \<Rightarrow> u32 \<Rightarrow> u32" where
  "set_frame f e = take_bit 12 e OR push_bit 12 f"

subsection \<open>The state\<close>

type_synonym frame = "nat \<Rightarrow> u32"

record paging =
  pmm_of :: pmm
  mem :: "u32 \<Rightarrow> frame"
  kernel_page_directory :: u32
  current_page_directory :: u32
  paging_enabled :: bool
  pages_saved_by_cow :: u32

definition set_word :: "paging \<Rightarrow> u32 \<Rightarrow> nat \<Rightarrow> u32 \<Rightarrow> paging" where
  "set_word s a i w = s\<lparr>mem := (mem s)(a := (mem s a)(i := w))\<rparr>"

definition clear_page :: "paging \<Rightarrow> u32 \<Rightarrow> paging" where
  "clear_page s a = s\<lparr>mem := (mem s)(a := \<lambda>i. 0)\<rparr>"

definition copy_page :: "paging \<Rightarrow> u32 \<Rightarrow> u32 \<Rightarrow> paging" where
  "copy_page s dst src = s\<lparr>mem := (mem s)(dst := mem s src)\<rparr>"

definition alloc_frame :: "paging \<Rightarrow> u32 \<times> paging" where
  "alloc_frame s = (case pmm_alloc_page (pmm_of s) of (a, p) \<Rightarrow> (a, s\<lparr>pmm_of := p\<rparr>))"

definition free_frame :: "paging \<Rightarrow> u32 \<Rightarrow> paging" where
  "free_frame s a = s\<lparr>pmm_of := pmm_free_page (pmm_of s) a\<rparr>"

subsection \<open>Mapping pages\<close>

definition paging_get_page_table :: "paging \<Rightarrow> u32 \<Rightarrow> bool \<Rightarrow> u32 option \<times> paging" where
  "paging_get_page_table s virt create =
     (let pd_index = paging_get_pd_index virt; pd = current_page_directory s in
      if \<not> entry_present (mem s pd pd_index) then
        if \<not> create then (None, s)
        else case alloc_frame s of (pt_phys, s) \<Rightarrow>
          if pt_phys = 0 then (None, s)
          else
            let s = clear_page s pt_phys;
                in_usermode = (virt \<ge> VMM_USER_START \<and> virt < VMM_USER_END);
                e = set_flag 2 in_usermode (set_flag 1 True (set_flag 0 True (mem s pd pd_index)));
                s = set_word s pd pd_index (set_frame (drop_bit 12 pt_phys) e) in
            (Some pt_phys, s)
      else (Some (push_bit 12 (entry_frame (mem s pd pd_index))), s))"

definition paging_get_page_table_from_pde :: "u32 \<Rightarrow> u32 option" where
  "paging_get_page_table_from_pde pde =
     (if \<not> entry_present pde then None else Some (push_bit 12 (entry_frame pde)))"

definition paging_map_page :: "paging \<Rightarrow> u32 \<Rightarrow> u32 \<Rightarrow> u32 \<Rightarrow> bool \<times> paging" where
  "paging_map_page s virt phys flags =
     (let virt = paging_align_down virt; phys = paging_align_down phys in
      case paging_get_page_table s virt True of
        (None, s) \<Rightarrow> (False, s)
      | (Some pt, s) \<Rightarrow>
          let i = paging_get_pt_index virt; e = mem s pt i;
              e = set_flag 0 (bit flags 0) e;
              e = set_flag 1 (bit flags 1) e;
              e = set_flag 2 (bit flags 2) e;
              e = set_flag 3 (bit flags 3) e;
              e = set_flag 4 (bit flags 4) e;
              e = set_flag 7 (bit flags 7) e;
              e = set_flag 8 (bit flags 8) e;
              e = set_frame (drop_bit 12 phys) e in
          (True, set_word s pt i e))"

definition paging_unmap_page :: "paging \<Rightarrow> u32 \<Rightarrow> paging" where
  "paging_unmap_page s virt =
     (let virt = paging_align_down virt in
      case fst (paging_get_page_table s virt False) of
        None \<Rightarrow> s
      | Some pt \<Rightarrow>
          let i = paging_get_pt_index virt in
          if entry_present (mem s pt i) then set_word s pt i 0 else s)"

definition paging_get_physical_address :: "paging \<Rightarrow> u32 \<Rightarrow> u32" where
  "paging_get_physical_address s virt =
     (case fst (paging_get_page_table s virt False) of
        None \<Rightarrow> 0
      | Some pt \<Rightarrow>
          let e = mem s pt (paging_get_pt_index virt) in
          if \<not> entry_present e then 0
          else push_bit 12 (entry_frame e) OR paging_get_page_offset virt)"

definition paging_is_mapped :: "paging \<Rightarrow> u32 \<Rightarrow> bool" where
  "paging_is_mapped s virt =
     (case fst (paging_get_page_table s virt False) of
        None \<Rightarrow> False
      | Some pt \<Rightarrow> entry_present (mem s pt (paging_get_pt_index virt)))"

definition paging_switch_directory :: "paging \<Rightarrow> u32 \<Rightarrow> paging" where
  "paging_switch_directory s pd = (if pd = 0 then s else s\<lparr>current_page_directory := pd\<rparr>)"

definition paging_validate_identity_mapping :: "paging \<Rightarrow> bool" where
  "paging_validate_identity_mapping s =
     list_all (\<lambda>virt. paging_is_mapped s virt \<and> paging_get_physical_address s virt = virt)
       [0x00000000, 0x000B8000, 0x00100000, 0x00200000, 0x003FF000]"

subsection \<open>Start-up\<close>

text \<open>The loops over the pages of an area stop at the first page that cannot be mapped.\<close>

fun map_area :: "paging \<Rightarrow> u32 \<Rightarrow> u32 \<Rightarrow> u32 \<Rightarrow> nat \<Rightarrow> bool \<times> paging" where
  "map_area s virt phys flags 0 = (True, s)"
| "map_area s virt phys flags (Suc n) =
     (case paging_map_page s virt phys flags of
        (False, s) \<Rightarrow> (False, s)
      | (True, s) \<Rightarrow> map_area s (virt + PAGE_SIZE) (phys + PAGE_SIZE) flags n)"

fun max_module_end :: "u32 \<Rightarrow> (u32 \<times> u32) list \<Rightarrow> u32" where
  "max_module_end m [] = m"
| "max_module_end m ((_, e) # ms) = max_module_end (if e > m then e else m) ms"

definition phys_mem_mapped :: "paging \<Rightarrow> (u32 \<times> u32) list \<Rightarrow> u32" where
  "phys_mem_mapped s modules =
     (let phys_mem_size = pmm_get_total_memory (pmm_of s);
          max_module_addr = max_module_end 0 modules;
          phys_mem_size = (if max_module_addr > phys_mem_size then paging_align_up max_module_addr else phys_mem_size) in
      if phys_mem_size > PHYS_MAP_SIZE then PHYS_MAP_SIZE else phys_mem_size)"

text \<open>The framebuffer, if there is one, as its physical address, height and pitch.\<close>

definition FRAMEBUFFER_VIRT_BASE :: u32 where "FRAMEBUFFER_VIRT_BASE = 0xB0000000"

definition map_framebuffer :: "paging \<Rightarrow> (u32 \<times> u32 \<times> u32) option \<Rightarrow> bool \<times> paging" where
  "map_framebuffer s fb =
     (case fb of
        None \<Rightarrow> (True, s)
      | Some (fb_phys, height, pitch) \<Rightarrow>
          let fb_size = height * pitch; fb_phys_base = paging_align_down fb_phys;
              fb_map_size = paging_align_up (fb_size + (fb_phys - fb_phys_base)) in
          map_area s FRAMEBUFFER_VIRT_BASE fb_phys_base (0x83) (unat (fb_map_size div PAGE_SIZE)))"

definition paging_init :: "paging \<Rightarrow> (u32 \<times> u32) list \<Rightarrow> (u32 \<times> u32 \<times> u32) option \<Rightarrow> paging" where
  "paging_init s modules fb =
     (if paging_enabled s then s
      else case alloc_frame s of (pd_phys, s) \<Rightarrow>
        if pd_phys = 0 then s
        else
          let s = s\<lparr>kernel_page_directory := pd_phys, current_page_directory := pd_phys\<rparr>;
              s = clear_page s pd_phys in
          case map_area s 0 0 3 1024 of
            (False, s) \<Rightarrow> s
          | (True, s) \<Rightarrow>
              case map_area s PHYS_MAP_BASE 0 3 ((unat (phys_mem_mapped s modules) + 4095) div 4096) of
                (False, s) \<Rightarrow> s
              | (True, s) \<Rightarrow>
                  case map_framebuffer s fb of
                    (False, s) \<Rightarrow> s
                  | (True, s) \<Rightarrow> s\<lparr>paging_enabled := True\<rparr>)"

subsection \<open>New directories\<close>

definition paging_create_directory :: "paging \<Rightarrow> u32 \<times> paging" where
  "paging_create_directory s =
     (case alloc_frame s of (pd_phys, s) \<Rightarrow>
        if pd_phys = 0 then (0, s) else (pd_phys, clear_page s pd_phys))"

fun copy_present_entries :: "paging \<Rightarrow> u32 \<Rightarrow> u32 \<Rightarrow> nat list \<Rightarrow> paging" where
  "copy_present_entries s dst src [] = s"
| "copy_present_entries s dst src (i # js) =
     copy_present_entries (if entry_present (mem s src i) then set_word s dst i (mem s src i) else s) dst src js"

definition paging_clone_kernel_directory :: "paging \<Rightarrow> u32 \<times> paging" where
  "paging_clone_kernel_directory s =
     (if kernel_page_directory s = 0 then (0, s)
      else case paging_create_directory s of (pd, s) \<Rightarrow>
        if pd = 0 then (0, s)
        else
          let s = set_word s pd 0 (mem s (kernel_page_directory s) 0) in
          (pd, copy_present_entries s pd (kernel_page_directory s)
                 [paging_get_pd_index PHYS_MAP_BASE..<paging_get_pd_index 0xFFFFFFFF + 1]))"

subsection \<open>Copying an address space\<close>

definition is_stack_page :: "u32 \<Rightarrow> u32 \<Rightarrow> u32 \<Rightarrow> bool" where
  "is_stack_page user_stack_base user_stack_size virt \<longleftrightarrow>
     user_stack_size > 0 \<and> virt \<ge> user_stack_base \<and> virt < user_stack_base + user_stack_size"

definition clone_stack_entry :: "paging \<Rightarrow> u32 \<Rightarrow> u32 \<Rightarrow> nat \<Rightarrow> paging option" where
  "clone_stack_entry s src_pt dst_pt i =
     (case alloc_frame s of (new_phys, s) \<Rightarrow>
        if new_phys = 0 then None
        else
          let src_pte = mem s src_pt i;
              s = (if entry_present src_pte then copy_page s new_phys (push_bit 12 (entry_frame src_pte))
                   else clear_page s new_phys);
              e = set_flag 2 True (set_flag 1 True (set_flag 0 True (mem s dst_pt i))) in
          Some (set_word s dst_pt i (set_frame (drop_bit 12 new_phys) e)))"

definition clone_cow_entry :: "paging \<Rightarrow> u32 \<Rightarrow> u32 \<Rightarrow> nat \<Rightarrow> paging option" where
  "clone_cow_entry s src_pt dst_pt i =
     (let phys = push_bit 12 (entry_frame (mem s src_pt i)) in
      case pmm_inc_refcount (pmm_of s) phys of
        None \<Rightarrow> None
      | Some (refcount, p) \<Rightarrow>
          if refcount = 0 then None
          else
            let s = s\<lparr>pmm_of := p\<rparr>;
                s = set_word s dst_pt i (mem s src_pt i);
                s = set_word s src_pt i (set_flag 9 True (set_flag 1 False (mem s src_pt i)));
                s = set_word s dst_pt i (set_flag 9 True (set_flag 1 False (mem s dst_pt i))) in
            Some s)"

definition clone_entry :: "paging \<Rightarrow> u32 \<Rightarrow> u32 \<Rightarrow> nat \<Rightarrow> u32 \<Rightarrow> u32 \<Rightarrow> nat \<Rightarrow> paging option" where
  "clone_entry s src_pt dst_pt pd_index user_stack_base user_stack_size i =
     (let virt = of_nat pd_index * (1024 * PAGE_SIZE) + of_nat i * PAGE_SIZE in
      if is_stack_page user_stack_base user_stack_size virt then clone_stack_entry s src_pt dst_pt i
      else if entry_present (mem s src_pt i) then clone_cow_entry s src_pt dst_pt i
      else Some s)"

fun clone_entries :: "paging \<Rightarrow> u32 \<Rightarrow> u32 \<Rightarrow> nat \<Rightarrow> u32 \<Rightarrow> u32 \<Rightarrow> nat list \<Rightarrow> paging option" where
  "clone_entries s src_pt dst_pt pd_index user_stack_base user_stack_size [] = Some s"
| "clone_entries s src_pt dst_pt pd_index user_stack_base user_stack_size (i # js) =
     (case clone_entry s src_pt dst_pt pd_index user_stack_base user_stack_size i of
        None \<Rightarrow> None
      | Some s \<Rightarrow> clone_entries s src_pt dst_pt pd_index user_stack_base user_stack_size js)"

definition paging_clone_page_table :: "paging \<Rightarrow> u32 \<Rightarrow> nat \<Rightarrow> u32 \<Rightarrow> u32 \<Rightarrow> (u32 \<times> paging) option" where
  "paging_clone_page_table s src_pt pd_index user_stack_base user_stack_size =
     (case alloc_frame s of (dst_pt_phys, s) \<Rightarrow>
        if dst_pt_phys = 0 then None
        else
          let s = clear_page s dst_pt_phys in
          case clone_entries s src_pt dst_pt_phys pd_index user_stack_base user_stack_size [0..<1024] of
            None \<Rightarrow> None
          | Some s \<Rightarrow> Some (dst_pt_phys, s))"

text \<open>A new table that only has stack pages: \<open>None\<close> as the table when a page cannot be allocated.\<close>

fun stack_entries :: "paging \<Rightarrow> u32 \<Rightarrow> nat \<Rightarrow> u32 \<Rightarrow> u32 \<Rightarrow> nat list \<Rightarrow> bool \<times> paging" where
  "stack_entries s pt pd_index user_stack_base user_stack_size [] = (True, s)"
| "stack_entries s pt pd_index user_stack_base user_stack_size (i # js) =
     (let virt = of_nat pd_index * 1024 * PAGE_SIZE + of_nat i * PAGE_SIZE in
      if virt \<ge> user_stack_base \<and> virt < user_stack_base + user_stack_size then
        case alloc_frame s of (phys, s) \<Rightarrow>
          if phys = 0 then (False, free_frame s pt)
          else
            let s = clear_page s phys;
                e = set_flag 2 True (set_flag 1 True (set_flag 0 True (mem s pt i)));
                s = set_word s pt i (set_frame (drop_bit 12 phys) e) in
            stack_entries s pt pd_index user_stack_base user_stack_size js
      else stack_entries s pt pd_index user_stack_base user_stack_size js)"

definition paging_create_stack_page_table :: "paging \<Rightarrow> nat \<Rightarrow> u32 \<Rightarrow> u32 \<Rightarrow> u32 option \<times> paging" where
  "paging_create_stack_page_table s pd_index user_stack_base user_stack_size =
     (case alloc_frame s of (pt_phys, s) \<Rightarrow>
        if pt_phys = 0 then (None, s)
        else
          let s = clear_page s pt_phys in
          case stack_entries s pt_phys pd_index user_stack_base user_stack_size [0..<1024] of
            (False, s) \<Rightarrow> (None, s)
          | (True, s) \<Rightarrow> (Some pt_phys, s))"

definition clone_user_entry :: "paging \<Rightarrow> u32 \<Rightarrow> u32 \<Rightarrow> u32 \<Rightarrow> u32 \<Rightarrow> nat \<Rightarrow> paging option" where
  "clone_user_entry s src dst user_stack_base user_stack_size pd_idx =
     (let src_pde = mem s src pd_idx;
          pd_virt_start = of_nat pd_idx * (1024 * PAGE_SIZE);
          pd_virt_end = pd_virt_start + (1024 * PAGE_SIZE);
          contains_stack = (user_stack_size > 0 \<and> user_stack_base \<ge> pd_virt_start \<and> user_stack_base < pd_virt_end) in
      case paging_get_page_table_from_pde src_pde of
        None \<Rightarrow>
          if contains_stack then
            case paging_create_stack_page_table s pd_idx user_stack_base user_stack_size of
              (None, s) \<Rightarrow> None
            | (Some stack_pt, s) \<Rightarrow>
                let e = set_flag 2 True (set_flag 1 True (set_flag 0 True (mem s dst pd_idx))) in
                Some (set_word s dst pd_idx (set_frame (drop_bit 12 stack_pt) e))
          else Some s
      | Some src_pt \<Rightarrow>
          case paging_clone_page_table s src_pt pd_idx user_stack_base user_stack_size of
            None \<Rightarrow> None
          | Some (dst_pt, s) \<Rightarrow>
              Some (set_word s dst pd_idx (set_frame (drop_bit 12 dst_pt) (mem s src pd_idx))))"

fun clone_user_entries :: "paging \<Rightarrow> u32 \<Rightarrow> u32 \<Rightarrow> u32 \<Rightarrow> u32 \<Rightarrow> nat list \<Rightarrow> paging option" where
  "clone_user_entries s src dst user_stack_base user_stack_size [] = Some s"
| "clone_user_entries s src dst user_stack_base user_stack_size (i # js) =
     (case clone_user_entry s src dst user_stack_base user_stack_size i of
        None \<Rightarrow> None
      | Some s \<Rightarrow> clone_user_entries s src dst user_stack_base user_stack_size js)"

definition paging_clone_directory :: "paging \<Rightarrow> u32 \<Rightarrow> bool \<Rightarrow> u32 \<Rightarrow> u32 \<Rightarrow> (u32 \<times> paging) option" where
  "paging_clone_directory s src usermode user_stack_base user_stack_size =
     (if src = 0 then None
      else case paging_create_directory s of (dst, s) \<Rightarrow>
        if dst = 0 then None
        else
          let s = set_word s dst 0 (mem s src 0);
              s = copy_present_entries s dst src
                    [paging_get_pd_index PHYS_MAP_BASE..<paging_get_pd_index 0xFFFFFFFF + 1];
              s = copy_present_entries s dst src
                    [paging_get_pd_index VMM_KERNEL_HEAP..<paging_get_pd_index VMM_KERNEL_END] in
          if usermode then
            case clone_user_entries s src dst user_stack_base user_stack_size
                   [paging_get_pd_index VMM_USER_START..<paging_get_pd_index VMM_USER_END] of
              None \<Rightarrow> None
            | Some s \<Rightarrow> Some (dst, s)
          else Some (dst, s))"

subsection \<open>Copy on write\<close>

definition drop_reference :: "paging \<Rightarrow> u32 \<Rightarrow> paging option" where
  "drop_reference s phys =
     (case pmm_dec_refcount (pmm_of s) phys of
        None \<Rightarrow> None
      | Some (refcount, p) \<Rightarrow>
          let s = s\<lparr>pmm_of := p\<rparr> in
          if refcount = 0 then Some (free_frame s phys) else Some s)"

definition paging_handle_page_fault_cow :: "paging \<Rightarrow> u32 \<Rightarrow> (bool \<times> paging) option" where
  "paging_handle_page_fault_cow s faulting_addr =
     (let page_addr = paging_align_down faulting_addr;
          pd_index = unat (drop_bit 22 page_addr);
          pt_index = unat (drop_bit 12 page_addr AND 0x3FF);
          pde = mem s (current_page_directory s) pd_index in
      if \<not> entry_present pde then Some (False, s)
      else
        let pt = push_bit 12 (entry_frame pde); pte = mem s pt pt_index in
        if \<not> entry_present pte then Some (False, s)
        else if \<not> entry_cow pte then Some (False, s)
        else case alloc_frame s of (new_phys, s) \<Rightarrow>
          if new_phys = 0 then Some (False, s)
          else
            let old_phys = push_bit 12 (entry_frame (mem s pt pt_index));
                s = copy_page s new_phys old_phys;
                e = set_frame (drop_bit 12 new_phys) (mem s pt pt_index);
                s = set_word s pt pt_index (set_flag 9 False (set_flag 1 True e)) in
            case drop_reference s old_phys of
              None \<Rightarrow> None
            | Some s \<Rightarrow> Some (True, s\<lparr>pages_saved_by_cow := pages_saved_by_cow s + 1\<rparr>))"

subsection \<open>Releasing an address space\<close>

definition free_user_entry :: "paging \<Rightarrow> u32 \<Rightarrow> paging option" where
  "free_user_entry s pte =
     (if \<not> entry_present pte then Some s
      else
        let phys = push_bit 12 (entry_frame pte) in
        if entry_cow pte then drop_reference s phys else Some (free_frame s phys))"

fun free_user_entries :: "paging \<Rightarrow> u32 \<Rightarrow> nat list \<Rightarrow> paging option" where
  "free_user_entries s pt [] = Some s"
| "free_user_entries s pt (i # js) =
     (case free_user_entry s (mem s pt i) of
        None \<Rightarrow> None
      | Some s \<Rightarrow> free_user_entries s pt js)"

fun free_user_tables :: "paging \<Rightarrow> u32 \<Rightarrow> nat list \<Rightarrow> paging option" where
  "free_user_tables s pd [] = Some s"
| "free_user_tables s pd (i # js) =
     (case paging_get_page_table_from_pde (mem s pd i) of
        None \<Rightarrow> free_user_tables s pd js
      | Some pt \<Rightarrow>
          (case free_user_entries s pt [0..<1024] of
             None \<Rightarrow> None
           | Some s \<Rightarrow> free_user_tables (free_frame s (push_bit 12 (entry_frame (mem s pd i)))) pd js))"

definition paging_free_user_pages :: "paging \<Rightarrow> u32 \<Rightarrow> paging option" where
  "paging_free_user_pages s pd =
     (if pd = 0 then Some s
      else free_user_tables s pd [paging_get_pd_index VMM_USER_START..<paging_get_pd_index VMM_USER_END])"

subsection \<open>Laws of the entries\<close>

lemma bit_set_flag [simp]: "bit (set_flag n b w) m \<longleftrightarrow> (if m = n then b \<and> n < 32 else bit w m)"
  by (auto simp: set_flag_def bit_set_bit_iff bit_unset_bit_iff dest: bit_imp_le_length)

lemma bit_set_frame: "bit (set_frame f e) m \<longleftrightarrow> (if m < 12 then bit e m else m < 32 \<and> bit f (m - 12))"
  by (auto simp: set_frame_def bit_or_iff bit_take_bit_iff bit_push_bit_iff dest: bit_imp_le_length)

lemma bit_not_fff: "bit (NOT (PAGE_SIZE - 1)) m \<longleftrightarrow> 12 \<le> m \<and> m < 32"
proof -
  have "PAGE_SIZE - 1 = mask 12"
    by (simp add: PAGE_SIZE_def mask_eq_exp_minus_1)
  then show ?thesis
    unfolding bit_not_iff by (auto simp: bit_mask_iff)
qed

lemma bit_fff: "bit (PAGE_SIZE - 1) m \<longleftrightarrow> m < 12"
proof -
  have "PAGE_SIZE - 1 = mask 12"
    by (simp add: PAGE_SIZE_def mask_eq_exp_minus_1)
  then show ?thesis
    by (auto simp: bit_mask_iff)
qed

lemma bit_3ff: "bit (0x3FF :: u32) m \<longleftrightarrow> m < 10"
proof -
  have "(0x3FF :: u32) = mask 10"
    by (simp add: mask_eq_exp_minus_1)
  then show ?thesis
    by (simp only: bit_mask_iff) auto
qed

lemma bit_align_down: "bit (paging_align_down a) m \<longleftrightarrow> 12 \<le> m \<and> bit a m"
  unfolding paging_align_down_def bit_and_iff bit_not_fff by (auto dest: bit_imp_le_length)

lemma frame_addr: "push_bit 12 (entry_frame e) = paging_align_down e"
  by (rule bit_eqI) (auto simp: entry_frame_def bit_align_down bit_push_bit_iff bit_drop_bit_eq)

lemma frame_addr_set [simp]: "paging_align_down (set_frame (drop_bit 12 a) e) = paging_align_down a"
  by (rule bit_eqI) (auto simp: bit_align_down bit_set_frame bit_drop_bit_eq dest: bit_imp_le_length)

lemma align_down_set_flag [simp]: "n < 12 \<Longrightarrow> paging_align_down (set_flag n b e) = paging_align_down e"
  by (rule bit_eqI) (auto simp: bit_align_down)

lemma align_down_idem [simp]: "paging_align_down (paging_align_down a) = paging_align_down a"
  by (rule bit_eqI) (auto simp: bit_align_down)

lemma entry_flags_set_frame [simp]:
  "entry_present (set_frame f e) = entry_present e" "entry_rw (set_frame f e) = entry_rw e"
  "entry_user (set_frame f e) = entry_user e" "entry_cow (set_frame f e) = entry_cow e"
  by (simp_all add: entry_present_def entry_rw_def entry_user_def entry_cow_def bit_set_frame)

lemma entry_flags_set_flag [simp]:
  "entry_present (set_flag n b e) = (if n = 0 then b else entry_present e)"
  "entry_rw (set_flag n b e) = (if n = 1 then b else entry_rw e)"
  "entry_user (set_flag n b e) = (if n = 2 then b else entry_user e)"
  "entry_cow (set_flag n b e) = (if n = 9 then b else entry_cow e)"
  by (auto simp: entry_present_def entry_rw_def entry_user_def entry_cow_def)

lemma not_present_0 [simp]: "\<not> entry_present 0"
  by (simp add: entry_present_def)

lemma bit_pd_index: "bit (drop_bit 22 v :: u32) m \<longleftrightarrow> bit v (22 + m)"
  by (simp add: bit_drop_bit_eq)

lemma index_align_down [simp]:
  "paging_get_pd_index (paging_align_down v) = paging_get_pd_index v"
  "paging_get_pt_index (paging_align_down v) = paging_get_pt_index v"
proof -
  have "drop_bit 22 (paging_align_down v) = drop_bit 22 v"
    by (rule bit_eqI) (auto simp: bit_drop_bit_eq bit_align_down)
  moreover have "drop_bit 12 (paging_align_down v) = drop_bit 12 v"
    by (rule bit_eqI) (auto simp: bit_drop_bit_eq bit_align_down)
  ultimately show "paging_get_pd_index (paging_align_down v) = paging_get_pd_index v"
    "paging_get_pt_index (paging_align_down v) = paging_get_pt_index v"
    by (simp_all add: paging_get_pd_index_def paging_get_pt_index_def)
qed

lemma same_page_iff:
  "paging_align_down v = paging_align_down w \<longleftrightarrow>
   paging_get_pd_index v = paging_get_pd_index w \<and> paging_get_pt_index v = paging_get_pt_index w"
proof
  assume "paging_get_pd_index v = paging_get_pd_index w \<and> paging_get_pt_index v = paging_get_pt_index w"
  then have hi: "drop_bit 22 v = drop_bit 22 w" and lo: "drop_bit 12 v AND 0x3FF = drop_bit 12 w AND 0x3FF"
    by (simp_all only: paging_get_pd_index_def paging_get_pt_index_def word_unat_eq_iff)
  have "bit v m \<longleftrightarrow> bit w m" if "12 \<le> m" for m
  proof (cases "m < 22")
    case True
    have "bit (drop_bit 12 v AND 0x3FF) (m - 12) \<longleftrightarrow> bit (drop_bit 12 w AND 0x3FF) (m - 12)"
      by (simp only: lo)
    then show ?thesis
      unfolding bit_and_iff bit_drop_bit_eq bit_3ff using that True by (auto simp: less_diff_conv2)
  next
    case False
    have "bit (drop_bit 22 v) (m - 22) \<longleftrightarrow> bit (drop_bit 22 w) (m - 22)"
      by (simp only: hi)
    then show ?thesis
      unfolding bit_drop_bit_eq using False by simp
  qed
  then show "paging_align_down v = paging_align_down w"
    by (intro bit_eqI) (auto simp: bit_align_down)
qed (metis index_align_down)

lemma pd_index_less: "paging_get_pd_index v < 1024"
proof -
  have "unat (drop_bit 22 v) = unat v div 2 ^ 22"
    by (simp add: drop_bit_eq_div unat_div_distrib)
  then show ?thesis
    using unat_lt_32 [of v] by (simp add: paging_get_pd_index_def less_mult_imp_div_less)
qed

lemma pd_index_div: "paging_get_pd_index v = unat v div 4194304"
  by (simp add: paging_get_pd_index_def drop_bit_eq_div unat_div_distrib)

lemma pt_index_less: "paging_get_pt_index v < 1024"
proof -
  have "drop_bit 12 v AND 0x3FF \<le> 0x3FF"
    by (rule word_and_le1)
  then show ?thesis
    by (simp add: paging_get_pt_index_def word_le_nat_alt)
qed

subsection \<open>Frames in use\<close>

text \<open>A frame is in use when it is the first page of an allocated block. What paging relies on: an allocation
  returns a frame that was not in use, and no call touches the state of other frames.\<close>

definition pmm_own :: "pmm \<Rightarrow> bool" where
  "pmm_own p \<longleftrightarrow> (\<exists>FB A. pmm_inv p FB A {} {..<total_pages p})"

definition used_frame :: "pmm \<Rightarrow> u32 \<Rightarrow> bool" where
  "used_frame p a \<longleftrightarrow> paging_align_down a = a \<and> a \<noteq> 0 \<and> pmm_addr_to_page a < total_pages p \<and>
     buddy_is_allocated p (pmm_addr_to_page a)"

lemma align_down_pmm: "paging_align_down a = pmm_page_to_addr (pmm_addr_to_page a)"
  using align_down_pa [of a] by (simp add: paging_align_down_def pmm_align_down_def PAGE_SIZE_def PMM_PAGE_SIZE_def)

lemma aligned_addr_inj: "paging_align_down a = a \<Longrightarrow> paging_align_down b = b \<Longrightarrow> pmm_addr_to_page a = pmm_addr_to_page b \<Longrightarrow> a = b"
  by (metis align_down_pmm)

lemma pmm_is_aligned_iff: "pmm_is_aligned a \<longleftrightarrow> paging_align_down a = a"
proof -
  have "pmm_is_aligned a \<longleftrightarrow> a AND (PAGE_SIZE - 1) = 0"
    by (simp add: pmm_is_aligned_def PAGE_SIZE_def PMM_PAGE_SIZE_def)
  also have "\<dots> \<longleftrightarrow> (\<forall>m<12. \<not> bit a m)"
    unfolding bit_eq_iff bit_and_iff bit_fff using bit_imp_le_length [of a] by auto
  also have "\<dots> \<longleftrightarrow> paging_align_down a = a"
  proof
    assume "\<forall>m<12. \<not> bit a m"
    then show "paging_align_down a = a"
      by (intro bit_eqI) (metis bit_align_down not_le)
  qed (metis bit_align_down not_le)
  finally show ?thesis .
qed

lemma page_0_iff: "paging_align_down a = a \<Longrightarrow> pmm_addr_to_page a = 0 \<longleftrightarrow> a = 0"
  using align_down_pmm [of a] pa_0 [OF addr_to_page_less, of a] by metis

lemma pmm_own_alloc:
  assumes "pmm_own p" and "pmm_alloc_page p = (a, q)"
  shows "a = 0 \<and> q = p \<or>
    a \<noteq> 0 \<and> pmm_own q \<and> \<not> used_frame p a \<and> (\<forall>x. used_frame q x \<longleftrightarrow> used_frame p x \<or> x = a) \<and>
    (\<forall>x. refcount_map q x = (if x = pmm_addr_to_page a then 1 else refcount_map p x)) \<and> total_pages q = total_pages p"
proof -
  obtain FB A where inv: "pmm_inv p FB A {} {..<total_pages p}"
    using assms(1) unfolding pmm_own_def by blast
  from alloc_order_spec [OF inv le0] show ?thesis
  proof (elim disjE exE conjE)
    fix u n f
    assume res: "buddy_alloc_order p 0 = (pmm_page_to_addr n, u)" and ar: "alloc_result p FB A {..<total_pages p} 0 u n f"
    have u: "u = q" "a = pmm_page_to_addr n"
      using res assms(2) by (simp_all add: pmm_alloc_page_def)
    have nf: "(n, f) \<in> FB" and inv': "pmm_inv q (FB - {(n, f)} \<union> split_rest n 0 f) (insert (n, 0) A) {} {..<total_pages q}"
      and ref: "\<forall>x. refcount_map q x = (if x = n then 1 else refcount_map p x)" and tot: "total_pages q = total_pages p"
      using ar unfolding u by (auto simp: alloc_result_def)
    have n: "n < 2 ^ 20" "n \<noteq> 0" "n < total_pages p"
      using free_lists_range [OF pmm_invD(6) [OF inv] nf] inv_block(4) [OF inv, of n f] nf by auto
    have pn: "pmm_addr_to_page a = n"
      using n(1) by (simp add: u(2))
    have a: "paging_align_down a = a" "a \<noteq> 0"
      using align_down_pmm [of a] pn u(2) pa_0 [OF n(1)] n(2) by metis+
    have "n \<notin> fst ` A"
    proof
      assume "n \<in> fst ` A"
      then obtain k where "(n, k) \<in> A" by auto
      then show False
        using tiling_head_unique [OF pmm_invD(3) [OF inv], of n f k] nf pmm_invD(4) [OF inv] by blast
    qed
    then have "\<not> used_frame p a"
      using pmm_invD(8) [OF inv n(3)] by (simp add: used_frame_def pn)
    moreover have "used_frame q x \<longleftrightarrow> used_frame p x \<or> x = a" for x
    proof (cases "x = a")
      case True
      then show ?thesis
        using pmm_invD(8) [OF inv', of n] a n tot by (simp add: used_frame_def pn)
    next
      case False
      then have "pmm_addr_to_page x \<noteq> n" if "paging_align_down x = x"
        using aligned_addr_inj [OF that a(1)] pn by metis
      then show ?thesis
        using False pmm_invD(8) [OF inv', of "pmm_addr_to_page x"] pmm_invD(8) [OF inv, of "pmm_addr_to_page x"]
        by (auto simp: used_frame_def tot)
    qed
    ultimately show ?thesis
      using a inv' ref tot unfolding pmm_own_def pn by blast
  qed (use assms(2) in \<open>simp add: pmm_alloc_page_def\<close>)
qed

lemma pmm_own_free:
  assumes "pmm_own p" and "paging_align_down a = a" and "a \<noteq> 0"
  shows "pmm_own (pmm_free_page p a) \<and> total_pages (pmm_free_page p a) = total_pages p \<and>
    (\<forall>x. used_frame (pmm_free_page p a) x \<longrightarrow> used_frame p x) \<and>
    (\<forall>x. used_frame p x \<longrightarrow> x \<noteq> a \<longrightarrow> used_frame (pmm_free_page p a) x)"
proof -
  obtain FB A where inv: "pmm_inv p FB A {} {..<total_pages p}"
    using assms(1) unfolding pmm_own_def by blast
  define n where "n = pmm_addr_to_page a"
  have a: "a = pmm_page_to_addr n" and n: "n < 2 ^ 20" "n \<noteq> 0"
    using align_down_pmm [of a] assms(2,3) page_0_iff [of a] addr_to_page_less [of a] by (simp_all add: n_def)
  have al: "pmm_is_aligned a"
    using assms(2) by (simp add: pmm_is_aligned_iff)
  show ?thesis
  proof (cases "n < total_pages p \<and> buddy_is_allocated p n \<and> \<not> any_shared p n (2 ^ buddy_get_order p n)")
    case False
    then have "pmm_free_page p a = p"
      using al by (auto simp: pmm_free_page_def buddy_free_order_def Let_def n_def push_bit_eq_mult)
    then show ?thesis
      using assms(1) by simp
  next
    case True
    then obtain k where k: "(n, k) \<in> A"
      using pmm_invD(8) [OF inv, of n] by auto
    then have ord: "buddy_get_order p n = k"
      using pmm_invD(7) [OF inv, of n k] by blast
    have "buddy_get_refcount p q \<le> 1" if "q \<in> {n..<n + 2 ^ k}" for q
      using True that unfolding ord any_shared_iff by (meson atLeastLessThan_iff not_le)
    then obtain t q j FB' where t: "buddy_free_order p (pmm_page_to_addr n) k = t" and fr: "free_result p FB A n k t q j FB'"
      using free_order_spec [OF inv k n(2)] by blast
    have eq: "pmm_free_page p a = t"
      using t n(1) by (simp add: pmm_free_page_def a ord)
    have inv': "pmm_inv t (insert (q, j) FB') (A - {(n, k)}) {} {..<total_pages t}" and tot: "total_pages t = total_pages p"
      using fr by (simp_all add: free_result_def)
    have alloc: "buddy_is_allocated t x \<longleftrightarrow> buddy_is_allocated p x \<and> x \<noteq> n" if "x < total_pages p" for x
    proof -
      have "i = k" if "(n, i) \<in> A" for i
        using tiling_head_unique [OF pmm_invD(3) [OF inv], of n i k] k that by simp
      then have "x \<in> fst ` (A - {(n, k)}) \<longleftrightarrow> x \<in> fst ` A \<and> x \<noteq> n"
        unfolding image_iff by (metis Diff_iff Diff_insert_absorb fst_conv insert_iff prod.collapse singletonD)
      then show ?thesis
        using pmm_invD(8) [OF inv that] pmm_invD(8) [OF inv', of x] that unfolding tot by blast
    qed
    have "x = a" if "used_frame p x" "pmm_addr_to_page x = n" for x
      using that aligned_addr_inj [of x a] assms(2) by (simp add: used_frame_def n_def)
    then show ?thesis
      unfolding eq using inv' tot alloc by (auto simp: used_frame_def pmm_own_def)
  qed
qed

lemma pmm_own_refcount [simp]: "pmm_own (p\<lparr>refcount_map := r\<rparr>) = pmm_own p"
  by (simp add: pmm_own_def)

lemma used_frame_refcount [simp]: "used_frame (p\<lparr>refcount_map := r\<rparr>) x = used_frame p x"
  by (simp add: used_frame_def buddy_is_allocated_def)

lemma pmm_inc_own:
  assumes "pmm_own p" and "pmm_inc_refcount p a = Some (c, q)"
  shows "pmm_own q \<and> (\<forall>x. used_frame q x \<longleftrightarrow> used_frame p x) \<and> total_pages q = total_pages p"
  using assms by (auto simp: pmm_inc_refcount_def buddy_inc_refcount_def Let_def split: if_splits)

lemma pmm_dec_own:
  assumes "pmm_own p" and "pmm_dec_refcount p a = Some (c, q)"
  shows "pmm_own q \<and> (\<forall>x. used_frame q x \<longleftrightarrow> used_frame p x) \<and> total_pages q = total_pages p"
  using assms by (auto simp: pmm_dec_refcount_def buddy_dec_refcount_def Let_def split: if_splits)

subsection \<open>Address spaces\<close>

lemma set_word_simps [simp]:
  "pmm_of (set_word s a i w) = pmm_of s" "current_page_directory (set_word s a i w) = current_page_directory s"
  "kernel_page_directory (set_word s a i w) = kernel_page_directory s"
  "pages_saved_by_cow (set_word s a i w) = pages_saved_by_cow s" "paging_enabled (set_word s a i w) = paging_enabled s"
  by (simp_all add: set_word_def)

lemma mem_set_word: "mem (set_word s a i w) x j = (if x = a \<and> j = i then w else mem s x j)"
  by (simp add: set_word_def)

lemma mem_set_word_other [simp]: "x \<noteq> a \<Longrightarrow> mem (set_word s a i w) x = mem s x"
  by (simp add: set_word_def)

lemma clear_page_simps [simp]:
  "pmm_of (clear_page s a) = pmm_of s" "current_page_directory (clear_page s a) = current_page_directory s"
  "kernel_page_directory (clear_page s a) = kernel_page_directory s"
  "paging_enabled (clear_page s a) = paging_enabled s"
  "mem (clear_page s a) x = (if x = a then \<lambda>i. 0 else mem s x)"
  by (simp_all add: clear_page_def)

lemma copy_page_simps [simp]:
  "pmm_of (copy_page s a b) = pmm_of s" "current_page_directory (copy_page s a b) = current_page_directory s"
  "kernel_page_directory (copy_page s a b) = kernel_page_directory s"
  "mem (copy_page s a b) x = (if x = a then mem s b else mem s x)"
  by (simp_all add: copy_page_def)

lemma free_frame_simps [simp]:
  "mem (free_frame s a) = mem s" "current_page_directory (free_frame s a) = current_page_directory s"
  "pmm_of (free_frame s a) = pmm_free_page (pmm_of s) a"
  by (simp_all add: free_frame_def)

definition in_use :: "paging \<Rightarrow> u32 \<Rightarrow> bool" where
  "in_use s a \<longleftrightarrow> used_frame (pmm_of s) a"

definition table_of :: "paging \<Rightarrow> u32 \<Rightarrow> nat \<Rightarrow> u32" where
  "table_of s pd i = paging_align_down (mem s pd i)"

text \<open>The entry that maps an address in a directory, if its table exists, and the frame it is mapped to.\<close>

definition leaf :: "paging \<Rightarrow> u32 \<Rightarrow> u32 \<Rightarrow> u32 option" where
  "leaf s pd v =
     (if entry_present (mem s pd (paging_get_pd_index v))
      then Some (mem s (table_of s pd (paging_get_pd_index v)) (paging_get_pt_index v)) else None)"

definition translate :: "paging \<Rightarrow> u32 \<Rightarrow> u32 \<Rightarrow> u32 option" where
  "translate s pd v =
     (case leaf s pd v of None \<Rightarrow> None | Some e \<Rightarrow> if entry_present e then Some (paging_align_down e) else None)"

text \<open>A directory is well formed when it and its tables are distinct frames in use.\<close>

definition dir_ok :: "paging \<Rightarrow> u32 \<Rightarrow> bool" where
  "dir_ok s pd \<longleftrightarrow> in_use s pd \<and>
     (\<forall>i<1024. entry_present (mem s pd i) \<longrightarrow> in_use s (table_of s pd i) \<and> table_of s pd i \<noteq> pd) \<and>
     (\<forall>i<1024. \<forall>j<1024. entry_present (mem s pd i) \<longrightarrow> entry_present (mem s pd j) \<longrightarrow> i \<noteq> j \<longrightarrow>
        table_of s pd i \<noteq> table_of s pd j)"

definition paging_ok :: "paging \<Rightarrow> bool" where
  "paging_ok s \<longleftrightarrow> pmm_own (pmm_of s) \<and> dir_ok s (current_page_directory s)"

lemma dir_okD:
  assumes "dir_ok s pd"
  shows "in_use s pd" "\<And>i. i < 1024 \<Longrightarrow> entry_present (mem s pd i) \<Longrightarrow> in_use s (table_of s pd i) \<and> table_of s pd i \<noteq> pd"
    "\<And>i j. i < 1024 \<Longrightarrow> j < 1024 \<Longrightarrow> entry_present (mem s pd i) \<Longrightarrow> entry_present (mem s pd j) \<Longrightarrow> i \<noteq> j \<Longrightarrow>
        table_of s pd i \<noteq> table_of s pd j"
  using assms unfolding dir_ok_def by blast+

lemma get_table_lookup:
  "fst (paging_get_page_table s v False) =
     (if entry_present (mem s (current_page_directory s) (paging_get_pd_index v))
      then Some (table_of s (current_page_directory s) (paging_get_pd_index v)) else None)"
  by (simp add: paging_get_page_table_def table_of_def frame_addr Let_def)

lemma is_mapped_translate: "paging_is_mapped s v \<longleftrightarrow> translate s (current_page_directory s) v \<noteq> None"
  by (simp add: paging_is_mapped_def get_table_lookup translate_def leaf_def)

lemma physical_address_translate:
  "paging_get_physical_address s v =
     (case translate s (current_page_directory s) v of None \<Rightarrow> 0 | Some f \<Rightarrow> f OR paging_get_page_offset v)"
  by (simp add: paging_get_physical_address_def get_table_lookup translate_def leaf_def frame_addr Let_def)

lemma alloc_frame_cases:
  assumes "pmm_own (pmm_of s)" and "alloc_frame s = (a, t)"
  obtains "a = 0" and "t = s"
  | q where "a \<noteq> 0" and "t = s\<lparr>pmm_of := q\<rparr>" and "pmm_own q" and "\<not> in_use s a" and "paging_align_down a = a"
    and "\<And>x. used_frame q x \<longleftrightarrow> in_use s x \<or> x = a"
    and "\<And>x. refcount_map q x = (if x = pmm_addr_to_page a then 1 else refcount_map (pmm_of s) x)"
proof -
  obtain q where q: "pmm_alloc_page (pmm_of s) = (a, q)" "t = s\<lparr>pmm_of := q\<rparr>"
    using assms(2) by (auto simp: alloc_frame_def split: prod.splits)
  from pmm_own_alloc [OF assms(1) q(1)] show thesis
  proof (elim disjE conjE)
    assume "a = 0" "q = pmm_of s"
    then show thesis using q(2) that(1) by simp
  next
    assume r: "a \<noteq> 0" "pmm_own q" "\<not> used_frame (pmm_of s) a" "\<forall>x. used_frame q x \<longleftrightarrow> used_frame (pmm_of s) x \<or> x = a"
      "\<forall>x. refcount_map q x = (if x = pmm_addr_to_page a then 1 else refcount_map (pmm_of s) x)"
    moreover have "paging_align_down a = a"
      using r(4) unfolding used_frame_def by blast
    ultimately show thesis
      using that(2) [of q] q(2) by (simp add: in_use_def)
  qed
qed

text \<open>A write to a frame that belongs neither to a directory nor to its tables does not change what the directory maps.\<close>

lemma leaf_cong:
  assumes "mem t pd = mem s pd" and "entry_present (mem s pd (paging_get_pd_index v)) \<Longrightarrow>
    mem t (table_of s pd (paging_get_pd_index v)) (paging_get_pt_index v) = mem s (table_of s pd (paging_get_pd_index v)) (paging_get_pt_index v)"
  shows "leaf t pd v = leaf s pd v"
  using assms by (simp add: leaf_def table_of_def)

lemma dir_ok_cong:
  assumes "dir_ok s pd" and "mem t pd = mem s pd" and "\<And>x. in_use s x \<Longrightarrow> in_use t x"
  shows "dir_ok t pd"
  using assms by (simp add: dir_ok_def table_of_def)

lemma get_table_create:
  assumes "paging_ok s" and "paging_get_page_table s v True = (r, t)"
  shows "r = None \<and> t = s \<or>
    paging_ok t \<and> current_page_directory t = current_page_directory s \<and>
    entry_present (mem t (current_page_directory s) (paging_get_pd_index v)) \<and>
    r = Some (table_of t (current_page_directory s) (paging_get_pd_index v)) \<and>
    (\<forall>w. translate t (current_page_directory s) w = translate s (current_page_directory s) w) \<and>
    (\<forall>x. in_use s x \<longrightarrow> in_use t x \<and> (x \<noteq> current_page_directory s \<longrightarrow> mem t x = mem s x))"
proof -
  let ?D = "current_page_directory s" and ?i = "paging_get_pd_index v"
  have own: "pmm_own (pmm_of s)" and dir: "dir_ok s ?D"
    using assms(1) by (simp_all add: paging_ok_def)
  show ?thesis
  proof (cases "entry_present (mem s ?D ?i)")
    case True
    then show ?thesis
      using assms by (auto simp: paging_get_page_table_def Let_def table_of_def frame_addr)
  next
    case False
    obtain a u where al: "alloc_frame s = (a, u)"
      by fastforce
    from own al show ?thesis
    proof (cases rule: alloc_frame_cases)
      case 1
      then show ?thesis
        using False assms(2) al by (simp add: paging_get_page_table_def Let_def)
    next
      case (2 q)
      have D: "in_use s ?D" "?D \<noteq> a"
        using dir_okD(1) [OF dir] 2(4) by auto
      define e where "e = set_flag 2 (VMM_USER_START \<le> v \<and> v < VMM_USER_END) (set_flag 1 True (set_flag 0 True (mem s ?D ?i)))"
      define e' where "e' = set_frame (drop_bit 12 a) e"
      have t: "t = set_word (clear_page u a) ?D ?i e'" and r: "r = Some a"
        using False assms(2) al 2(1,2) D(2) by (simp_all add: paging_get_page_table_def Let_def e_def e'_def)
      have e': "entry_present e'" "paging_align_down e' = a"
        using 2(5) by (simp_all add: e'_def e_def)
      have memt: "mem t x = mem s x" if "in_use s x" "x \<noteq> ?D" for x
        using that 2(2,4) by (auto simp: t)
      have memD: "mem t ?D j = (if j = ?i then e' else mem s ?D j)" for j
        using D(2) 2(2) by (simp add: t mem_set_word)
      have mema: "mem t a = (\<lambda>i. 0)"
        using D(2) by (simp add: t)
      have use: "in_use t x \<longleftrightarrow> in_use s x \<or> x = a" for x
        using 2(2,6) by (simp add: t in_use_def)
      have fresh: "paging_align_down (mem s ?D j) \<noteq> a" if "j < 1024" "entry_present (mem s ?D j)" for j
        using dir_okD(2) [OF dir that] 2(4) by (auto simp: table_of_def)
      have "dir_ok t ?D"
        unfolding dir_ok_def table_of_def memD use
        using dir_okD [OF dir] e' fresh fresh [symmetric] D by (auto simp: table_of_def)
      moreover have "translate t ?D w = translate s ?D w" for w
      proof (cases "paging_get_pd_index w = ?i")
        case True
        then have "leaf t ?D w = Some 0" "leaf s ?D w = None"
          using memD mema e' False by (simp_all add: leaf_def table_of_def)
        then show ?thesis
          by (simp add: translate_def)
      next
        case False
        have "in_use s (table_of s ?D (paging_get_pd_index w)) \<and> table_of s ?D (paging_get_pd_index w) \<noteq> ?D"
          if "entry_present (mem s ?D (paging_get_pd_index w))"
          using dir_okD(2) [OF dir pd_index_less that] .
        then have "leaf t ?D w = leaf s ?D w"
          using False memt by (simp add: leaf_def table_of_def memD)
        then show ?thesis
          by (simp add: translate_def)
      qed
      moreover have "current_page_directory t = ?D" "pmm_of t = q"
        using 2(2) by (simp_all add: t)
      ultimately show ?thesis
        using 2(3) e' r use memt by (simp add: paging_ok_def memD table_of_def)
    qed
  qed
qed

lemma set_leaf_ok:
  assumes "paging_ok s" and "entry_present (mem s (current_page_directory s) (paging_get_pd_index v))"
    and t: "t = set_word s (table_of s (current_page_directory s) (paging_get_pd_index v)) (paging_get_pt_index v) e"
  shows "paging_ok t \<and> current_page_directory t = current_page_directory s \<and>
    (\<forall>w. leaf t (current_page_directory s) w =
      (if paging_align_down w = paging_align_down v then Some e else leaf s (current_page_directory s) w)) \<and>
    (\<forall>x. in_use t x \<longleftrightarrow> in_use s x)"
proof -
  let ?D = "current_page_directory s" and ?i = "paging_get_pd_index v"
  let ?T = "table_of s ?D ?i"
  have own: "pmm_own (pmm_of s)" and dir: "dir_ok s ?D"
    using assms(1) by (simp_all add: paging_ok_def)
  have T: "?T \<noteq> ?D" "in_use s ?T"
    using dir_okD(2) [OF dir pd_index_less assms(2)] by blast+
  have memD: "mem t ?D = mem s ?D"
    using T by (simp add: t)
  have use: "in_use t x \<longleftrightarrow> in_use s x" for x
    by (simp add: t in_use_def)
  have "leaf t ?D w = (if paging_align_down w = paging_align_down v then Some e else leaf s ?D w)" for w
  proof (cases "paging_get_pd_index w = ?i")
    case True
    then show ?thesis
      using assms(2) memD by (auto simp: leaf_def table_of_def same_page_iff t mem_set_word)
  next
    case False
    have "table_of s ?D (paging_get_pd_index w) \<noteq> ?T" if "entry_present (mem s ?D (paging_get_pd_index w))"
      using dir_okD(3) [OF dir pd_index_less pd_index_less that assms(2) False] .
    then have "leaf t ?D w = leaf s ?D w"
      by (intro leaf_cong memD) (simp add: t)
    then show ?thesis
      using False by (auto simp: same_page_iff)
  qed
  moreover have "dir_ok t ?D"
    using dir_ok_cong [OF dir memD] use by blast
  ultimately show ?thesis
    using own use by (simp add: paging_ok_def t)
qed

lemma leaf_page: "paging_align_down w = paging_align_down v \<Longrightarrow> leaf s D w = leaf s D v"
  by (simp add: leaf_def same_page_iff)

lemma translate_leaf: "leaf t D w = leaf s D w \<Longrightarrow> translate t D w = translate s D w"
  by (simp add: translate_def)

lemma map_page_ok:
  assumes "paging_ok s" and "paging_map_page s v p fl = (b, t)"
  shows "paging_ok t \<and> current_page_directory t = current_page_directory s \<and> (\<not> b \<longrightarrow> t = s) \<and>
    (\<forall>x. in_use s x \<longrightarrow> in_use t x) \<and>
    (b \<longrightarrow> (\<forall>w. translate t (current_page_directory s) w =
      (if paging_align_down w = paging_align_down v then if bit fl 0 then Some (paging_align_down p) else None
       else translate s (current_page_directory s) w)))"
proof -
  let ?D = "current_page_directory s" and ?v = "paging_align_down v"
  obtain r u where g: "paging_get_page_table s ?v True = (r, u)"
    by fastforce
  from get_table_create [OF assms(1) g] show ?thesis
  proof (elim disjE conjE)
    assume "r = None" "u = s"
    then show ?thesis
      using assms g by (auto simp: paging_map_page_def)
  next
    assume u: "paging_ok u" "current_page_directory u = ?D" "entry_present (mem u ?D (paging_get_pd_index ?v))"
      "r = Some (table_of u ?D (paging_get_pd_index ?v))" "\<forall>w. translate u ?D w = translate s ?D w"
      "\<forall>x. in_use s x \<longrightarrow> in_use u x \<and> (x \<noteq> ?D \<longrightarrow> mem u x = mem s x)"
    define e where "e = set_frame (drop_bit 12 (paging_align_down p)) (set_flag 8 (bit fl 8) (set_flag 7 (bit fl 7)
      (set_flag 4 (bit fl 4) (set_flag 3 (bit fl 3) (set_flag 2 (bit fl 2) (set_flag 1 (bit fl 1) (set_flag 0 (bit fl 0)
      (mem u (table_of u ?D (paging_get_pd_index ?v)) (paging_get_pt_index ?v)))))))))"
    have t: "t = set_word u (table_of u ?D (paging_get_pd_index ?v)) (paging_get_pt_index ?v) e" and b
      using assms(2) g u(4) by (simp_all add: paging_map_page_def Let_def e_def)
    have e: "entry_present e \<longleftrightarrow> bit fl 0" "paging_align_down e = paging_align_down p"
      by (simp_all add: e_def)
    note l = set_leaf_ok [OF u(1), of ?v t e, unfolded u(2), OF u(3) t]
    have "translate t ?D w =
        (if paging_align_down w = ?v then if bit fl 0 then Some (paging_align_down p) else None else translate s ?D w)" for w
      using l u(5) e by (auto simp: translate_def)
    then show ?thesis
      using l u(6) \<open>b\<close> by simp
  qed
qed

lemma unmap_page_ok:
  assumes "paging_ok s"
  shows "paging_ok (paging_unmap_page s v) \<and> current_page_directory (paging_unmap_page s v) = current_page_directory s \<and>
    (\<forall>x. in_use (paging_unmap_page s v) x \<longleftrightarrow> in_use s x) \<and>
    (\<forall>w. translate (paging_unmap_page s v) (current_page_directory s) w =
      (if paging_align_down w = paging_align_down v then None else translate s (current_page_directory s) w))"
proof -
  let ?D = "current_page_directory s" and ?v = "paging_align_down v"
  show ?thesis
  proof (cases "translate s ?D ?v")
    case (Some f)
    then have p: "entry_present (mem s ?D (paging_get_pd_index ?v))"
      and "entry_present (mem s (table_of s ?D (paging_get_pd_index ?v)) (paging_get_pt_index ?v))"
      by (simp_all add: translate_def leaf_def split: if_splits)
    then have t: "paging_unmap_page s v = set_word s (table_of s ?D (paging_get_pd_index ?v)) (paging_get_pt_index ?v) 0"
      by (simp add: paging_unmap_page_def get_table_lookup)
    note l = set_leaf_ok [OF assms p t]
    have "translate (paging_unmap_page s v) ?D w = (if paging_align_down w = ?v then None else translate s ?D w)" for w
      using l by (simp add: translate_def)
    then show ?thesis
      using l by simp
  next
    case None
    then have "paging_unmap_page s v = s"
      by (simp add: translate_def leaf_def paging_unmap_page_def get_table_lookup split: if_splits)
    moreover have "translate s ?D w = None" if "paging_align_down w = ?v" for w
      using None leaf_page [of w "?v" s ?D] that by (simp add: translate_def)
    ultimately show ?thesis
      using assms by simp
  qed
qed

lemma align_pa [simp]: "paging_align_down (pmm_page_to_addr n) = pmm_page_to_addr n"
proof -
  have "pmm_page_to_addr n = push_bit 12 (of_nat n)"
    by (simp add: pmm_page_to_addr_def push_bit_eq_mult PMM_PAGE_SIZE_def)
  then show ?thesis
    by (simp only:) (rule bit_eqI, auto simp: bit_align_down bit_push_bit_iff)
qed

lemma pa_Suc: "pmm_page_to_addr n + PAGE_SIZE = pmm_page_to_addr (Suc n)"
  using pa_add_n [of n 1] by (simp add: PAGE_SIZE_def PMM_PAGE_SIZE_def)

lemma align_down_eq_pa: "n < 2 ^ 20 \<Longrightarrow> paging_align_down w = pmm_page_to_addr n \<longleftrightarrow> pmm_addr_to_page w = n"
  by (metis align_down_pmm addr_to_page_less pa_inj)

lemma map_area_ok:
  assumes "paging_ok s" and "map_area s (pmm_page_to_addr v) (pmm_page_to_addr p) fl n = (b, t)"
    and "bit fl 0" and "v + n \<le> 2 ^ 20"
  shows "paging_ok t \<and> current_page_directory t = current_page_directory s \<and>
    (b \<longrightarrow> (\<forall>w. translate t (current_page_directory s) w =
      (if pmm_addr_to_page w \<in> {v..<v + n} then Some (pmm_page_to_addr (p + (pmm_addr_to_page w - v)))
       else translate s (current_page_directory s) w)))"
  using assms
proof (induction n arbitrary: s v p)
  case (Suc n)
  obtain c u where m: "paging_map_page s (pmm_page_to_addr v) (pmm_page_to_addr p) fl = (c, u)"
    by fastforce
  note mo = map_page_ok [OF Suc.prems(1) m]
  show ?case
  proof (cases c)
    case False
    then show ?thesis
      using mo m Suc.prems(2) by auto
  next
    case True
    have "map_area u (pmm_page_to_addr (Suc v)) (pmm_page_to_addr (Suc p)) fl n = (b, t)"
      using Suc.prems(2) m True by (simp add: pa_Suc)
    note ih = Suc.IH [OF conjunct1 [OF mo] this Suc.prems(3)]
    have cur: "current_page_directory u = current_page_directory s"
      using mo by blast
    have first: "translate u (current_page_directory s) w =
        (if pmm_addr_to_page w = v then Some (pmm_page_to_addr p) else translate s (current_page_directory s) w)" for w
      using mo True Suc.prems(3,4) align_down_eq_pa [of v w] by simp
    have "translate t (current_page_directory s) w =
        (if pmm_addr_to_page w \<in> {v..<v + Suc n} then Some (pmm_page_to_addr (p + (pmm_addr_to_page w - v)))
         else translate s (current_page_directory s) w)" if b for w
    proof -
      have "translate t (current_page_directory s) w =
          (if pmm_addr_to_page w \<in> {Suc v..<Suc v + n} then Some (pmm_page_to_addr (Suc p + (pmm_addr_to_page w - Suc v)))
           else translate u (current_page_directory s) w)"
        using ih Suc.prems(4) that unfolding cur by simp
      moreover have "Suc p + (pmm_addr_to_page w - Suc v) = p + (pmm_addr_to_page w - v)" if "Suc v \<le> pmm_addr_to_page w"
        using that by simp
      ultimately show ?thesis
        unfolding first by auto
    qed
    then show ?thesis
      using ih Suc.prems(4) cur by simp
  qed
qed simp

lemma alloc_frame_same:
  "alloc_frame s = (a, t) \<Longrightarrow> kernel_page_directory t = kernel_page_directory s \<and> paging_enabled t = paging_enabled s \<and>
    mem t = mem s \<and> current_page_directory t = current_page_directory s"
  by (auto simp: alloc_frame_def split: prod.splits)

lemma alloc_frame_total: "pmm_own (pmm_of s) \<Longrightarrow> alloc_frame s = (a, t) \<Longrightarrow> total_pages (pmm_of t) = total_pages (pmm_of s)"
  using pmm_own_alloc [of "pmm_of s" a] by (auto simp: alloc_frame_def split: prod.splits)

lemma map_page_same:
  assumes "paging_ok s" and "paging_map_page s v p fl = (b, t)"
  shows "kernel_page_directory t = kernel_page_directory s \<and> paging_enabled t = paging_enabled s \<and>
    total_pages (pmm_of t) = total_pages (pmm_of s)"
proof -
  obtain r u where g: "paging_get_page_table s (paging_align_down v) True = (r, u)"
    by fastforce
  obtain a w where al: "alloc_frame s = (a, w)"
    by fastforce
  have "kernel_page_directory w = kernel_page_directory s" "paging_enabled w = paging_enabled s"
    "total_pages (pmm_of w) = total_pages (pmm_of s)"
    using alloc_frame_same [OF al] alloc_frame_total [OF _ al] assms(1) by (simp_all add: paging_ok_def)
  then have "kernel_page_directory u = kernel_page_directory s \<and> paging_enabled u = paging_enabled s \<and>
      total_pages (pmm_of u) = total_pages (pmm_of s)"
    using g al by (auto simp: paging_get_page_table_def Let_def split: if_splits)
  then show ?thesis
    using assms(2) g by (auto simp: paging_map_page_def Let_def split: option.splits)
qed

lemma map_area_same:
  assumes "paging_ok s" and "map_area s v p fl n = (b, t)"
  shows "kernel_page_directory t = kernel_page_directory s \<and> paging_enabled t = paging_enabled s \<and>
    total_pages (pmm_of t) = total_pages (pmm_of s)"
  using assms
proof (induction n arbitrary: s v p)
  case (Suc n)
  obtain c u where m: "paging_map_page s v p fl = (c, u)"
    by fastforce
  note s = map_page_same [OF Suc.prems(1) m]
  show ?case
  proof (cases c)
    case True
    then have "map_area u (v + PAGE_SIZE) (p + PAGE_SIZE) fl n = (b, t)"
      using Suc.prems(2) m by simp
    then show ?thesis
      using Suc.IH [of u] s map_page_ok [OF Suc.prems(1) m] by simp
  qed (use Suc.prems(2) m s in simp)
qed simp

lemma page_of_low: "w < 0x400000 \<Longrightarrow> pmm_addr_to_page w < 1024"
  by (simp add: pmm_addr_to_page_def PMM_PAGE_SIZE_def unat_div_distrib word_less_nat_alt less_mult_imp_div_less)

lemma page_of_phys_map:
  assumes "w < x" and "x \<le> PHYS_MAP_SIZE"
  shows "pmm_addr_to_page (PHYS_MAP_BASE + w) = 0xC0000 + pmm_addr_to_page w \<and> pmm_addr_to_page w < (unat x + 4095) div 4096"
proof -
  have "unat w < unat x" "unat x \<le> 0x40000000"
    using assms by (simp_all add: word_less_nat_alt word_le_nat_alt PHYS_MAP_SIZE_def)
  moreover from this have "unat (PHYS_MAP_BASE + w) = 0xC0000000 + unat w"
    by (simp add: PHYS_MAP_BASE_def unat_word_ariths)
  moreover have "(3221225472 + unat w) div 4096 = 786432 + unat w div 4096"
    by linarith
  moreover have "unat w div 4096 < (unat x + 4095) div 4096" if "unat w < unat x"
    using that by linarith
  ultimately show ?thesis
    by (simp add: pmm_addr_to_page_def PMM_PAGE_SIZE_def unat_div_distrib)
qed

lemma phys_mem_mapped_le: "phys_mem_mapped s modules \<le> PHYS_MAP_SIZE"
  by (auto simp: phys_mem_mapped_def Let_def not_less)

lemma phys_mem_mapped_cong: "total_pages (pmm_of t) = total_pages (pmm_of s) \<Longrightarrow> phys_mem_mapped t modules = phys_mem_mapped s modules"
  by (simp add: phys_mem_mapped_def pmm_get_total_memory_def)

lemma map_framebuffer_ok:
  assumes "paging_ok s" and "map_framebuffer s fb = (True, t)"
    and fb: "\<And>a h p. fb = Some (a, h, p) \<Longrightarrow>
      unat (paging_align_up (h * p + (a - paging_align_down a))) \<le> 0x10000000"
  shows "paging_ok t \<and> current_page_directory t = current_page_directory s \<and> kernel_page_directory t = kernel_page_directory s \<and>
    (\<forall>w. pmm_addr_to_page w \<notin> {0xB0000..<0xC0000} \<longrightarrow>
      translate t (current_page_directory s) w = translate s (current_page_directory s) w)"
proof (cases fb)
  case (Some x)
  obtain a h p where x: "x = (a, h, p)"
    by (cases x)
  define n where "n = unat (paging_align_up (h * p + (a - paging_align_down a)) div PAGE_SIZE)"
  have n: "n \<le> 0x10000"
    using fb [of a h p] Some x by (simp add: n_def PAGE_SIZE_def unat_div_distrib)
  have "map_area s (pmm_page_to_addr 0xB0000) (pmm_page_to_addr (pmm_addr_to_page a)) 0x83 n = (True, t)"
    using assms(2) by (simp add: map_framebuffer_def Some x Let_def n_def align_down_pmm FRAMEBUFFER_VIRT_BASE_def
        pmm_page_to_addr_def PMM_PAGE_SIZE_def)
  then show ?thesis
    using map_area_ok [OF assms(1)] map_area_same [OF assms(1)] n by fastforce
qed (use assms in \<open>simp add: map_framebuffer_def\<close>)

lemma paging_ok_enabled [simp]: "paging_ok (s\<lparr>paging_enabled := b\<rparr>) = paging_ok s"
  by (simp add: paging_ok_def dir_ok_def in_use_def table_of_def)

lemma map_framebuffer_enabled:
  "paging_ok s \<Longrightarrow> map_framebuffer s fb = (b, t) \<Longrightarrow> paging_enabled t = paging_enabled s"
  using map_area_same by (fastforce simp: map_framebuffer_def Let_def split: option.splits)

lemma init_directory_ok:
  assumes own: "pmm_own (pmm_of s)" and al: "alloc_frame s = (d, u)" and "d \<noteq> 0"
  shows "paging_ok (clear_page (u\<lparr>kernel_page_directory := d, current_page_directory := d\<rparr>) d)"
  using alloc_frame_cases [OF own al]
proof cases
  case (2 q)
  then show ?thesis
    by (simp add: paging_ok_def dir_ok_def in_use_def)
qed (use assms(3) in simp)

lemma paging_init_ok:
  assumes own: "pmm_own (pmm_of s)" and off: "\<not> paging_enabled s" and on: "paging_enabled (paging_init s modules fb)"
    and fb: "\<And>a h p. fb = Some (a, h, p) \<Longrightarrow>
      unat (paging_align_up (h * p + (a - paging_align_down a))) \<le> 0x10000000"
  shows "let t = paging_init s modules fb in
    paging_ok t \<and> kernel_page_directory t = current_page_directory t \<and>
    (\<forall>w. w < 0x400000 \<longrightarrow> translate t (current_page_directory t) w = Some (paging_align_down w)) \<and>
    (\<forall>w. w < phys_mem_mapped s modules \<longrightarrow> translate t (current_page_directory t) (PHYS_MAP_BASE + w) = Some (paging_align_down w))"
proof -
  obtain d u where al: "alloc_frame s = (d, u)"
    by fastforce
  show ?thesis
  proof (cases rule: alloc_frame_cases [OF own al])
    case 1
    then show ?thesis
      using on off al by (simp add: paging_init_def)
  next
    case (2 q)
    define s1 where "s1 = clear_page (u\<lparr>kernel_page_directory := d, current_page_directory := d\<rparr>) d"
    have s1: "current_page_directory s1 = d" "kernel_page_directory s1 = d" "pmm_of s1 = q" "mem s1 d = (\<lambda>i. 0)"
      using 2(2) by (simp_all add: s1_def)
    have ok1: "paging_ok s1"
      unfolding s1_def by (rule init_directory_ok [OF own al 2(1)])
    have tot1: "total_pages (pmm_of s1) = total_pages (pmm_of s)"
      using alloc_frame_total [OF own al] 2(2) by (simp add: s1)
    have z: "(0 :: u32) = pmm_page_to_addr 0" "PHYS_MAP_BASE = pmm_page_to_addr 0xC0000"
      by (simp_all add: pmm_page_to_addr_def PHYS_MAP_BASE_def PMM_PAGE_SIZE_def)
    obtain b2 s2 where m2: "map_area s1 0 0 3 1024 = (b2, s2)"
      by fastforce
    define N where "N = (unat (phys_mem_mapped s2 modules) + 4095) div 4096"
    obtain b3 s3 where m3: "map_area s2 PHYS_MAP_BASE 0 3 N = (b3, s3)"
      by fastforce
    obtain b4 s4 where m4: "map_framebuffer s3 fb = (b4, s4)"
      by fastforce
    have en: "paging_enabled u = False" "paging_enabled s1 = False"
      using alloc_frame_same [OF al] off by (simp_all add: s1_def clear_page_def)
    have init: "paging_init s modules fb = (case map_area s1 0 0 3 1024 of (False, s) \<Rightarrow> s | (True, s) \<Rightarrow>
        case map_area s PHYS_MAP_BASE 0 3 ((unat (phys_mem_mapped s modules) + 4095) div 4096) of (False, s) \<Rightarrow> s
        | (True, s) \<Rightarrow> case map_framebuffer s fb of (False, s) \<Rightarrow> s | (True, s) \<Rightarrow> s\<lparr>paging_enabled := True\<rparr>)"
      using off al 2(1) by (simp add: paging_init_def s1_def Let_def)
    note ok2 = map_area_ok [OF ok1 m2 [unfolded z(1)]] and same2 = map_area_same [OF ok1 m2]
    have c2: "paging_ok s2" "current_page_directory s2 = d"
      using ok2 by (simp_all add: s1)
    note ok3 = map_area_ok [OF c2(1) m3 [unfolded z]] and same3 = map_area_same [OF c2(1) m3]
    have N: "N \<le> 0x40000"
      using phys_mem_mapped_le [of s2 modules] by (simp add: N_def PHYS_MAP_SIZE_def word_le_nat_alt)
    have c3: "paging_ok s3" "current_page_directory s3 = d"
      using ok3 c2 N by simp_all
    have "b2" "b3" "b4"
      using on map_framebuffer_enabled [OF c3(1) m4] same2 same3 en
      unfolding init m2 N_def [symmetric] by (auto simp: m3 m4 N_def [symmetric] split: if_splits bool.splits)
    then have t: "paging_init s modules fb = s4\<lparr>paging_enabled := True\<rparr>" (is "_ = ?t")
      unfolding init m2 by (simp add: m3 m4 N_def [symmetric])
    note ok4 = map_framebuffer_ok [OF c3(1) m4 [unfolded eqTrueI [OF \<open>b4\<close>]] fb, unfolded c3(2)]
    have tr: "translate ?t d w = translate s4 d w" for w
      by (simp add: translate_def leaf_def table_of_def)
    have "paging_ok ?t" "current_page_directory ?t = d" "kernel_page_directory ?t = d"
      using ok4 same2 same3 s1(2) by simp_all
    moreover have "translate ?t d w = Some (paging_align_down w)" if "w < 0x400000" for w
      using page_of_low [OF that] ok4 ok3 ok2 N \<open>b2\<close> \<open>b3\<close> unfolding tr by (simp add: c2(2) s1(1) align_down_pmm)
    moreover have "translate ?t d (PHYS_MAP_BASE + w) = Some (paging_align_down w)" if "w < phys_mem_mapped s modules" for w
    proof -
      have "phys_mem_mapped s2 modules = phys_mem_mapped s modules"
        using same2 tot1 by (intro phys_mem_mapped_cong) simp
      then show ?thesis
        using page_of_phys_map [OF that phys_mem_mapped_le] ok4 ok3 N \<open>b3\<close> unfolding tr by (simp add: c2(2) N_def align_down_pmm)
    qed
    ultimately show ?thesis
      by (simp add: t Let_def)
  qed
qed

lemma map_page_succeeds: "fst (pmm_alloc_page (pmm_of s)) \<noteq> 0 \<Longrightarrow> fst (paging_map_page s v p fl)"
  by (auto simp: paging_map_page_def paging_get_page_table_def alloc_frame_def Let_def split: prod.splits if_splits)

lemma map_page_in_table:
  assumes "entry_present (mem s (current_page_directory s) (paging_get_pd_index v))"
  shows "fst (paging_map_page s v p fl) \<and> pmm_of (snd (paging_map_page s v p fl)) = pmm_of s"
  using assms by (simp add: paging_map_page_def paging_get_page_table_def Let_def)

lemma map_page_keeps_table:
  assumes "paging_ok s" and "paging_map_page s v p fl = (True, t)"
  shows "entry_present (mem t (current_page_directory s) (paging_get_pd_index v))"
proof -
  let ?D = "current_page_directory s"
  obtain r u where g: "paging_get_page_table s (paging_align_down v) True = (r, u)"
    by fastforce
  from get_table_create [OF assms(1) g] show ?thesis
  proof (elim disjE conjE)
    assume u: "paging_ok u" "current_page_directory u = ?D" "entry_present (mem u ?D (paging_get_pd_index (paging_align_down v)))"
      "r = Some (table_of u ?D (paging_get_pd_index (paging_align_down v)))"
    have "table_of u ?D (paging_get_pd_index v) \<noteq> ?D"
      using u(1-3) dir_okD(2) [OF _ pd_index_less, of u ?D v] by (simp add: paging_ok_def)
    then show ?thesis
      using assms(2) g u(3,4) by (auto simp: paging_map_page_def Let_def)
  qed (use assms(2) g in \<open>auto simp: paging_map_page_def\<close>)
qed

lemma map_area_in_table:
  assumes "paging_ok s" and "entry_present (mem s (current_page_directory s) k)"
    and "\<And>i. i < n \<Longrightarrow> paging_get_pd_index (pmm_page_to_addr (v + i)) = k"
  shows "fst (map_area s (pmm_page_to_addr v) (pmm_page_to_addr p) fl n) \<and>
    pmm_of (snd (map_area s (pmm_page_to_addr v) (pmm_page_to_addr p) fl n)) = pmm_of s"
  using assms
proof (induction n arbitrary: s v p)
  case (Suc n)
  have k: "paging_get_pd_index (pmm_page_to_addr v) = k"
    using Suc.prems(3) [of 0] by simp
  obtain t where m: "paging_map_page s (pmm_page_to_addr v) (pmm_page_to_addr p) fl = (True, t)" and pm: "pmm_of t = pmm_of s"
    using map_page_in_table [of s "pmm_page_to_addr v" "pmm_page_to_addr p" fl] Suc.prems(2) k by (metis prod.collapse)
  note ok = map_page_ok [OF Suc.prems(1) m]
  have "entry_present (mem t (current_page_directory t) k)"
    using map_page_keeps_table [OF Suc.prems(1) m] ok k by simp
  moreover have "paging_get_pd_index (pmm_page_to_addr (Suc v + i)) = k" if "i < n" for i
    using Suc.prems(3) [of "Suc i"] that by simp
  ultimately show ?case
    using Suc.IH [of t "Suc v" "Suc p"] ok m pm by (simp add: pa_Suc)
qed simp

lemma map_area_new_table:
  assumes "paging_ok s" and "\<not> entry_present (mem s (current_page_directory s) k)" and "fst (pmm_alloc_page (pmm_of s)) \<noteq> 0"
    and "\<And>i. i < Suc n \<Longrightarrow> paging_get_pd_index (pmm_page_to_addr (v + i)) = k"
  shows "fst (map_area s (pmm_page_to_addr v) (pmm_page_to_addr p) fl (Suc n)) \<and>
    pmm_of (snd (map_area s (pmm_page_to_addr v) (pmm_page_to_addr p) fl (Suc n))) = snd (pmm_alloc_page (pmm_of s))"
proof -
  have k: "paging_get_pd_index (pmm_page_to_addr v) = k"
    using assms(4) [of 0] by simp
  obtain t where m: "paging_map_page s (pmm_page_to_addr v) (pmm_page_to_addr p) fl = (True, t)"
    using map_page_succeeds [OF assms(3), of "pmm_page_to_addr v" "pmm_page_to_addr p" fl] by (metis prod.collapse)
  have pm: "pmm_of t = snd (pmm_alloc_page (pmm_of s))"
    using m assms(2,3) k by (auto simp: paging_map_page_def paging_get_page_table_def alloc_frame_def Let_def split: prod.splits if_splits)
  note ok = map_page_ok [OF assms(1) m]
  have "entry_present (mem t (current_page_directory t) k)"
    using map_page_keeps_table [OF assms(1) m] ok k by simp
  moreover have "paging_get_pd_index (pmm_page_to_addr (Suc v + i)) = k" if "i < n" for i
    using assms(4) [of "Suc i"] that by simp
  ultimately show ?thesis
    using map_area_in_table [of t k n "Suc v" "Suc p" fl] ok m pm by (simp add: pa_Suc)
qed

lemma map_area_one_table:
  assumes "paging_ok s" and "fst (pmm_alloc_page (pmm_of s)) \<noteq> 0" and "0 < n"
    and "\<And>i. i < n \<Longrightarrow> paging_get_pd_index (pmm_page_to_addr (v + i)) = k"
  shows "fst (map_area s (pmm_page_to_addr v) (pmm_page_to_addr p) fl n) \<and>
    (\<not> entry_present (mem s (current_page_directory s) k) \<longrightarrow>
      pmm_of (snd (map_area s (pmm_page_to_addr v) (pmm_page_to_addr p) fl n)) = snd (pmm_alloc_page (pmm_of s)))"
proof (cases n)
  case (Suc m)
  show ?thesis
    using map_area_in_table [OF assms(1) _ assms(4)] map_area_new_table [OF assms(1) _ assms(2)] assms(4) unfolding Suc by blast
qed (use assms(3) in simp)

lemma pd_index_pa: "n < 2 ^ 20 \<Longrightarrow> paging_get_pd_index (pmm_page_to_addr n) = n div 1024"
  using div_mult2_eq [of "n * 4096" 4096 1024] by (simp add: pd_index_div unat_pa)

subsection \<open>A small machine\<close>

text \<open>Eight pages: one reserved, a directory, a table and a data page, and a free block of four.\<close>

definition tiny_pmm :: pmm where
  "tiny_pmm = \<lparr>free_lists = (\<lambda>_. 0)(2 := 0x4000), order_map = (\<lambda>_. 0)(0 := 0x20000), status_map = (\<lambda>_. 0)(0 := 0xF),
     refcount_map = (\<lambda>_. 0)(1 := 1, 2 := 1, 3 := 1), total_pages = 8, used_pages = 4, alloc_count = \<lambda>_. 0,
     blocks = \<lambda>_. \<lparr>bb_next = 0, bb_prev = 0\<rparr>\<rparr>"

definition tiny_paging :: paging where
  "tiny_paging = \<lparr>pmm_of = tiny_pmm, mem = (\<lambda>_ _. 0)(0x1000 := (\<lambda>_. 0)(1 := 0x2007), 0x2000 := (\<lambda>_. 0)(0 := 0x3007)),
     kernel_page_directory = 0x1000, current_page_directory = 0x1000, paging_enabled = True, pages_saved_by_cow = 0\<rparr>"

lemma tiny_own: "pmm_own tiny_pmm"
proof -
  let ?A = "{(0, 0), (1, 0), (2, 0), (3, 0)} :: (nat \<times> nat) set"
  have tile: "tiling ({(4, 2)} \<union> ?A \<union> {}) {..<8}"
    unfolding tiling_def by (auto simp: bp BUDDY_MAX_ORDER_def)
  have pa4: "pmm_page_to_addr 4 = 0x4000"
    by (simp add: pmm_page_to_addr_def PMM_PAGE_SIZE_def)
  have "lists_ok tiny_pmm ((\<lambda>_. [])(2 := [0x4000]))"
    by (auto simp: lists_ok_def tiny_pmm_def)
  moreover have "set (((\<lambda>_. [])(2 := [0x4000])) k) = pmm_page_to_addr ` {p. (p, k) \<in> {(4, 2)}}" for k
    using pa4 by auto
  ultimately have "\<exists>L. lists_ok tiny_pmm L \<and> (\<forall>k\<le>BUDDY_MAX_ORDER. set (L k) = pmm_page_to_addr ` {p. (p, k) \<in> {(4, 2)}})"
    by blast
  then have lists: "free_lists_ok tiny_pmm {(4, 2)}"
    unfolding free_lists_ok_def by (simp add: BUDDY_MAX_ORDER_def)
  have "buddy_get_order tiny_pmm 4 = 2" "\<forall>q\<in>{0, 1, 2, 3}. buddy_get_order tiny_pmm q = 0"
    by code_simp+
  then have ord: "buddy_get_order tiny_pmm q = j" if "(q, j) \<in> {(4, 2)} \<union> ?A" for q j
    using that by auto
  have "\<forall>q\<in>{0, 1, 2, 3}. buddy_is_allocated tiny_pmm q" "\<forall>q\<in>{4, 5, 6, 7}. \<not> buddy_is_allocated tiny_pmm q"
    by code_simp+
  moreover have "fst ` ?A = {0, 1, 2, 3}"
    by auto
  moreover have "q \<in> {0, 1, 2, 3} \<or> q \<in> {4, 5, 6, 7}" if "q < total_pages tiny_pmm" for q
    using that by (auto simp: tiny_pmm_def)
  ultimately have alloc: "buddy_is_allocated tiny_pmm q \<longleftrightarrow> q \<in> fst ` ?A" if "q < total_pages tiny_pmm" for q
    using that by (metis (full_types))
  have "total_pages tiny_pmm \<le> 2 ^ 20" "{..<8} \<subseteq> {..<total_pages tiny_pmm}" "used_pages tiny_pmm = of_nat (block_sum ?A)"
    by (simp_all add: tiny_pmm_def block_sum_def)
  from pmm_invI [OF this(1,2) tile _ _ lists ord alloc this(3)]
  show ?thesis
    unfolding pmm_own_def by (auto simp: tiny_pmm_def)
qed

lemma tiny_alloc: "fst (pmm_alloc_page tiny_pmm) = 0x4000"
  by code_simp

lemma tiny_alloc_more:
  "fst (pmm_alloc_page (snd (pmm_alloc_page tiny_pmm))) = 0x5000"
  "fst (pmm_alloc_page (snd (pmm_alloc_page (snd (pmm_alloc_page tiny_pmm))))) = 0x6000"
  by code_simp+

lemma tiny_in_use: "in_use tiny_paging 0x1000" "in_use tiny_paging 0x2000" "in_use tiny_paging 0x3000"
  by code_simp+

lemma tiny_table: "mem tiny_paging 0x1000 i = (if i = 1 then 0x2007 else 0)" "mem tiny_paging 0x2000 i = (if i = 0 then 0x3007 else 0)"
  by (simp_all add: tiny_paging_def)

lemma tiny_align: "paging_align_down 0x2007 = 0x2000" "paging_align_down 0x3007 = 0x3000" "entry_present 0x2007" "entry_present 0x3007"
  by code_simp+

lemma tiny_ok: "paging_ok tiny_paging"
proof -
  have "entry_present (mem tiny_paging 0x1000 i) \<longleftrightarrow> i = 1" for i
    using tiny_align by (simp add: tiny_table)
  then have "dir_ok tiny_paging 0x1000"
    using tiny_in_use tiny_align unfolding dir_ok_def table_of_def by (auto simp: tiny_table)
  moreover have "current_page_directory tiny_paging = 0x1000" "pmm_of tiny_paging = tiny_pmm"
    by (simp_all add: tiny_paging_def)
  ultimately show ?thesis
    using tiny_own by (simp add: paging_ok_def)
qed

subsection \<open>Properties\<close>

text \<open>C28. Mapping and lookup: a successful \<open>paging_map_page\<close> makes every address of the page translate to the given
  frame, leaves the translation of every other address alone and keeps the tables well formed, also when it
  has to allocate a table; a failed one changes nothing. \<open>paging_unmap_page\<close> takes exactly that page away again.\<close>

theorem paging_map_page_correct:
  assumes "paging_ok s" and "bit fl 0" and "paging_map_page s v p fl = (b, t)"
  shows "paging_ok t \<and> (\<not> b \<longrightarrow> t = s) \<and>
    (b \<longrightarrow> (\<forall>w. paging_is_mapped t w = (paging_align_down w = paging_align_down v \<or> paging_is_mapped s w) \<and>
      paging_get_physical_address t w =
        (if paging_align_down w = paging_align_down v then paging_align_down p OR paging_get_page_offset w
         else paging_get_physical_address s w) \<and>
      paging_get_physical_address (paging_unmap_page t v) w =
        (if paging_align_down w = paging_align_down v then 0 else paging_get_physical_address s w)))"
proof -
  note m = map_page_ok [OF assms(1,3)]
  note u = unmap_page_ok [OF conjunct1 [OF m], of v]
  show ?thesis
    using m u assms(2) by (auto simp: is_mapped_translate physical_address_translate)
qed

theorem paging_map_page_correct_witness:
  "\<exists>t. paging_map_page tiny_paging 0x40000000 0x5000 3 = (True, t) \<and> paging_get_physical_address t 0x40000123 = 0x5123"
proof -
  obtain b t where r: "paging_map_page tiny_paging 0x40000000 0x5000 3 = (b, t)"
    by fastforce
  have "b"
    using map_page_succeeds [where s = tiny_paging] r tiny_alloc by (simp add: tiny_paging_def) (metis fst_conv)
  have "bit (3 :: u32) 0" "paging_align_down 0x40000123 = paging_align_down 0x40000000"
    and addr: "paging_align_down 0x5000 OR paging_get_page_offset 0x40000123 = 0x5123"
    by code_simp+
  then have "paging_get_physical_address t 0x40000123 = paging_align_down 0x5000 OR paging_get_page_offset 0x40000123"
    using paging_map_page_correct [OF tiny_ok _ r] \<open>b\<close> by presburger
  then show ?thesis
    using r \<open>b\<close> unfolding addr by simp
qed



end
