(* ===== verification/Fork.thy ===== *)
theory Fork
  imports Paging
begin

section \<open>Copies of an address space\<close>

text \<open>
  What \<open>paging_clone_directory\<close> gives a child process and what a copy-on-write fault does: the
  child sees the contents of its parent, its stack is a copy, the other pages are shared read-only, and a
  write fault moves one process to a private copy without changing what any other process sees.
\<close>

declare upt_rec_numeral [simp del]

definition page_at :: "paging \<Rightarrow> u32 \<Rightarrow> u32 \<Rightarrow> frame option" where
  "page_at s pd v = map_option (mem s) (translate s pd v)"

definition cowed :: "u32 \<Rightarrow> u32" where
  "cowed e = set_flag 9 True (set_flag 1 False e)"

lemma cowed_simps [simp]:
  "entry_present (cowed e) = entry_present e" "paging_align_down (cowed e) = paging_align_down e"
  "\<not> entry_rw (cowed e)" "entry_cow (cowed e)" "entry_user (cowed e) = entry_user e"
  by (simp_all add: cowed_def)

text \<open>The frames in use stay in use, and only those of \<open>X\<close> may change.\<close>

definition keeps :: "paging \<Rightarrow> paging \<Rightarrow> u32 set \<Rightarrow> bool" where
  "keeps s t X \<longleftrightarrow> pmm_own (pmm_of t) \<and> (\<forall>x. in_use s x \<longrightarrow> in_use t x \<and> (x \<notin> X \<longrightarrow> mem t x = mem s x))"

lemma keepsD: "keeps s t X \<Longrightarrow> in_use s x \<Longrightarrow> in_use t x" "keeps s t X \<Longrightarrow> in_use s x \<Longrightarrow> x \<notin> X \<Longrightarrow> mem t x = mem s x"
  "keeps s t X \<Longrightarrow> pmm_own (pmm_of t)"
  by (simp_all add: keeps_def)

lemma keeps_refl: "pmm_own (pmm_of s) \<Longrightarrow> keeps s s X"
  by (simp add: keeps_def)

lemma keeps_trans: "keeps s t X \<Longrightarrow> keeps t u Y \<Longrightarrow> keeps s u (X \<union> Y)"
  by (simp add: keeps_def)

lemma keeps_fresh: "keeps s t X \<Longrightarrow> (\<And>x. in_use s x \<Longrightarrow> x \<in> X \<Longrightarrow> x \<in> Y) \<Longrightarrow> keeps s t Y"
  by (auto simp: keeps_def)

lemma keeps_set_word: "pmm_own (pmm_of s) \<Longrightarrow> keeps s (set_word s a i w) {a}"
  by (simp add: keeps_def in_use_def)

lemma alloc_keeps:
  assumes "pmm_own (pmm_of s)" and "alloc_frame s = (a, t)" and "a \<noteq> 0"
  shows "keeps s t {}" "\<not> in_use s a" "in_use t a" "mem t = mem s" "paging_align_down a = a"
proof -
  from alloc_frame_cases [OF assms(1,2)] have "keeps s t {} \<and> \<not> in_use s a \<and> in_use t a \<and> mem t = mem s \<and> paging_align_down a = a"
  proof cases
    case (2 q)
    then show ?thesis
      by (auto simp: keeps_def in_use_def)
  qed (use assms(3) in simp)
  then show "keeps s t {}" "\<not> in_use s a" "in_use t a" "mem t = mem s" "paging_align_down a = a"
    by blast+
qed

subsection \<open>One entry\<close>

text \<open>\<open>child_entry s t T b e i\<close>: entry \<open>i\<close> of the table \<open>T\<close> in \<open>t\<close> is the child's copy of the entry \<open>e\<close> of its parent in
  \<open>s\<close>, \<open>b\<close> telling whether it belongs to the stack. \<open>copied s t S T b i\<close> adds what becomes of the entry in the
  parent's table \<open>S\<close>.\<close>

definition child_entry :: "paging \<Rightarrow> paging \<Rightarrow> u32 \<Rightarrow> bool \<Rightarrow> u32 \<Rightarrow> nat \<Rightarrow> bool" where
  "child_entry s t T b e i \<longleftrightarrow>
     (if b then
        entry_present (mem t T i) \<and> entry_rw (mem t T i) \<and> entry_user (mem t T i) \<and> \<not> entry_cow (mem t T i) \<and>
        \<not> in_use s (paging_align_down (mem t T i)) \<and> in_use t (paging_align_down (mem t T i)) \<and>
        mem t (paging_align_down (mem t T i)) = (if entry_present e then mem s (paging_align_down e) else (\<lambda>k. 0))
      else mem t T i = (if entry_present e then cowed e else 0))"

definition copied :: "paging \<Rightarrow> paging \<Rightarrow> u32 \<Rightarrow> u32 \<Rightarrow> bool \<Rightarrow> nat \<Rightarrow> bool" where
  "copied s t S T b i \<longleftrightarrow> child_entry s t T b (mem s S i) i \<and>
     mem t S i = (if \<not> b \<and> entry_present (mem s S i) then cowed (mem s S i) else mem s S i)"

lemmas copied_defs = copied_def child_entry_def

definition entry_ok :: "paging \<Rightarrow> u32 \<Rightarrow> u32 \<Rightarrow> nat \<Rightarrow> bool" where
  "entry_ok s S T i \<longleftrightarrow> mem s T i = 0 \<and> (entry_present (mem s S i) \<longrightarrow>
     in_use s (paging_align_down (mem s S i)) \<and> paging_align_down (mem s S i) \<noteq> S \<and> paging_align_down (mem s S i) \<noteq> T)"

lemma clone_stack_entry_ok:
  assumes own: "pmm_own (pmm_of s)" and use: "in_use s S" "in_use s T" "S \<noteq> T" and ok: "entry_ok s S T i"
    and res: "clone_stack_entry s S T i = Some t"
  shows "keeps s t {T} \<and> copied s t S T True i \<and> (\<forall>j. j \<noteq> i \<longrightarrow> mem t T j = mem s T j) \<and> mem t S = mem s S"
proof -
  obtain n u where al: "alloc_frame s = (n, u)"
    by fastforce
  have "n \<noteq> 0"
    using res al by (auto simp: clone_stack_entry_def)
  note al = alloc_keeps [OF own al this] al this
  define w where "w = (if entry_present (mem s S i) then copy_page u n (paging_align_down (mem s S i)) else clear_page u n)"
  define e where "e = set_frame (drop_bit 12 n) (set_flag 2 True (set_flag 1 True (set_flag 0 True (mem w T i))))"
  have t: "t = set_word w T i e"
    using res al(7) unfolding clone_stack_entry_def al(6) prod.case Let_def frame_addr al(4) w_def [symmetric] e_def [symmetric]
    by simp
  have nST: "n \<noteq> S" "n \<noteq> T"
    using al(2) use by auto
  have w: "mem w x = mem s x" if "x \<noteq> n" for x
    using al(4) that by (simp add: w_def)
  have wn: "mem w n = (if entry_present (mem s S i) then mem s (paging_align_down (mem s S i)) else (\<lambda>k. 0))"
    using al(4) by (simp add: w_def)
  have pm: "pmm_of t = pmm_of u"
    by (simp add: t w_def)
  have "in_use t x" if "in_use s x \<or> x = n" for x
    using that keepsD(1) [OF al(1)] al(3) by (auto simp: in_use_def pm)
  moreover have "mem t x = mem s x" if "x \<noteq> T" "x \<noteq> n" for x
    using that w by (simp add: t)
  ultimately have "keeps s t {T}"
    using keepsD(3) [OF al(1)] al(2) unfolding keeps_def pm by blast
  moreover have "entry_present e" "entry_rw e" "entry_user e" "paging_align_down e = n" "\<not> entry_cow e"
    using al(5) ok w [of T] nST by (simp_all add: e_def entry_ok_def entry_cow_def bit_set_frame)
  ultimately show ?thesis
    using al(2,3) nST use(3) w wn pm by (auto simp: copied_defs t mem_set_word in_use_def)
qed

lemma clone_cow_entry_ok:
  assumes own: "pmm_own (pmm_of s)" and use: "in_use s S" "in_use s T" "S \<noteq> T" and pr: "entry_present (mem s S i)"
    and res: "clone_cow_entry s S T i = Some t"
  shows "keeps s t {S, T} \<and> copied s t S T False i \<and> (\<forall>j. j \<noteq> i \<longrightarrow> mem t T j = mem s T j \<and> mem t S j = mem s S j)"
proof -
  obtain c p where inc: "pmm_inc_refcount (pmm_of s) (paging_align_down (mem s S i)) = Some (c, p)" "c \<noteq> 0"
    using res by (auto simp: clone_cow_entry_def frame_addr Let_def split: option.splits if_splits)
  have t: "t = set_word (set_word (set_word (s\<lparr>pmm_of := p\<rparr>) T i (mem s S i)) S i (cowed (mem s S i))) T i (cowed (mem s S i))"
    using res inc use(3) by (simp add: clone_cow_entry_def frame_addr Let_def cowed_def mem_set_word)
  show ?thesis
    using pmm_inc_own [OF own inc(1)] use(3) pr by (auto simp: t keeps_def in_use_def copied_defs mem_set_word)
qed

subsection \<open>One table\<close>

definition stack_entry :: "nat \<Rightarrow> u32 \<Rightarrow> u32 \<Rightarrow> nat \<Rightarrow> bool" where
  "stack_entry k base sz i \<longleftrightarrow> is_stack_page base sz (of_nat k * (1024 * PAGE_SIZE) + of_nat i * PAGE_SIZE)"

lemma clone_entry_ok:
  assumes own: "pmm_own (pmm_of s)" and use: "in_use s S" "in_use s T" "S \<noteq> T" and ok: "entry_ok s S T i"
    and res: "clone_entry s S T k base sz i = Some t"
  shows "keeps s t {S, T} \<and> copied s t S T (stack_entry k base sz i) i \<and>
    (\<forall>j. j \<noteq> i \<longrightarrow> mem t T j = mem s T j \<and> mem t S j = mem s S j)"
proof (cases "stack_entry k base sz i")
  case True
  then have "clone_stack_entry s S T i = Some t"
    using res by (simp add: clone_entry_def stack_entry_def Let_def)
  from clone_stack_entry_ok [OF own use ok this] show ?thesis
    using True keeps_fresh [of s t "{T}" "{S, T}"] by simp
next
  case False
  show ?thesis
  proof (cases "entry_present (mem s S i)")
    case True
    then have "clone_cow_entry s S T i = Some t"
      using res False by (simp add: clone_entry_def stack_entry_def Let_def)
    from clone_cow_entry_ok [OF own use True this] show ?thesis
      using False by simp
  next
    case absent: False
    then have "t = s"
      using res False by (simp add: clone_entry_def stack_entry_def Let_def)
    then show ?thesis
      using absent False ok own by (simp add: copied_defs entry_ok_def keeps_refl)
  qed
qed

lemma copied_after:
  assumes "copied s u S T b i" and "keeps u t {S, T}" and "mem t S i = mem u S i" and "mem t T i = mem u T i"
    and "in_use s S" and "in_use s T"
  shows "copied s t S T b i"
proof (cases b)
  case True
  then have n: "\<not> in_use s (paging_align_down (mem u T i))" "in_use u (paging_align_down (mem u T i))"
    using assms(1) by (simp_all add: copied_defs)
  then have "paging_align_down (mem u T i) \<notin> {S, T}"
    using assms(5,6) by auto
  then show ?thesis
    using assms(1,3,4) True n keepsD(1,2) [OF assms(2)] by (simp add: copied_defs)
qed (use assms(1,3,4) in \<open>simp add: copied_defs\<close>)

lemma copied_before:
  assumes "copied u t S T b i" and "keeps s u {S, T}" and "mem u S i = mem s S i" and ok: "entry_ok s S T i"
  shows "copied s t S T b i"
proof -
  have "mem u (paging_align_down (mem s S i)) = mem s (paging_align_down (mem s S i))" if "entry_present (mem s S i)"
    using that ok keepsD(2) [OF assms(2)] by (simp add: entry_ok_def)
  then show ?thesis
    using assms(1,3) keepsD(1) [OF assms(2)] by (auto simp: copied_defs split: if_splits)
qed

lemma clone_entries_ok:
  assumes "pmm_own (pmm_of s)" and "in_use s S" and "in_use s T" and "S \<noteq> T" and "\<And>j. j \<in> set js \<Longrightarrow> entry_ok s S T j"
    and "distinct js" and "clone_entries s S T k base sz js = Some t"
  shows "keeps s t {S, T} \<and> (\<forall>j\<in>set js. copied s t S T (stack_entry k base sz j) j) \<and>
    (\<forall>j. j \<notin> set js \<longrightarrow> mem t T j = mem s T j \<and> mem t S j = mem s S j)"
  using assms
proof (induction js arbitrary: s)
  case Nil
  then show ?case
    by (simp add: keeps_refl)
next
  case (Cons i js)
  obtain u where u: "clone_entry s S T k base sz i = Some u" and rest: "clone_entries u S T k base sz js = Some t"
    using Cons.prems(7) by (auto split: option.splits)
  note one = clone_entry_ok [OF Cons.prems(1-4) _ u]
  have k: "keeps s u {S, T}" and c: "copied s u S T (stack_entry k base sz i) i"
    and same: "\<And>j. j \<noteq> i \<Longrightarrow> mem u T j = mem s T j \<and> mem u S j = mem s S j"
    using one Cons.prems(5) [of i] by simp_all
  have ok: "entry_ok u S T j" if "j \<in> set js" for j
  proof -
    have "j \<noteq> i"
      using that Cons.prems(6) by auto
    then show ?thesis
      using that Cons.prems(5) [of j] same [of j] keepsD(1) [OF k] by (simp add: entry_ok_def)
  qed
  note ih = Cons.IH [OF keepsD(3) [OF k] keepsD(1) [OF k Cons.prems(2)] keepsD(1) [OF k Cons.prems(3)] Cons.prems(4) ok _ rest]
  have ih1: "keeps u t {S, T}" and ih2: "\<And>j. j \<in> set js \<Longrightarrow> copied u t S T (stack_entry k base sz j) j"
    and ih3: "\<And>j. j \<notin> set js \<Longrightarrow> mem t T j = mem u T j \<and> mem t S j = mem u S j"
    using ih Cons.prems(6) by simp_all
  have "copied s t S T (stack_entry k base sz j) j" if "j \<in> set (i # js)" for j
  proof (cases "j = i")
    case True
    then show ?thesis
      using copied_after [OF c ih1 _ _ Cons.prems(2,3)] ih3 [of i] Cons.prems(6) by simp
  next
    case False
    then have "j \<in> set js" using that by simp
    then show ?thesis
      using copied_before [OF ih2 k] same [OF False] Cons.prems(5) that by simp
  qed
  moreover have "keeps s t {S, T}"
    using keeps_trans [OF k ih1] by simp
  ultimately show ?case
    using ih3 same by simp
qed

lemma clone_table_ok:
  assumes own: "pmm_own (pmm_of s)" and use: "in_use s S"
    and frames: "\<And>j. j < 1024 \<Longrightarrow> entry_present (mem s S j) \<Longrightarrow>
      in_use s (paging_align_down (mem s S j)) \<and> paging_align_down (mem s S j) \<noteq> S"
    and res: "paging_clone_page_table s S k base sz = Some (T, t)"
  shows "keeps s t {S} \<and> \<not> in_use s T \<and> in_use t T \<and> paging_align_down T = T \<and>
    (\<forall>j<1024. copied s t S T (stack_entry k base sz j) j)"
proof -
  obtain u where al: "alloc_frame s = (T, u)" and T: "T \<noteq> 0"
    and ce: "clone_entries (clear_page u T) S T k base sz [0..<1024] = Some t"
    using res by (auto simp: paging_clone_page_table_def Let_def split: prod.splits if_splits option.splits)
  note al = alloc_keeps [OF own al T]
  define w where "w = clear_page u T"
  have ST: "S \<noteq> T"
    using al(2) use by auto
  have memw: "mem w x = (if x = T then (\<lambda>i. 0) else mem s x)" for x
    using al(4) by (simp add: w_def)
  have usew: "in_use w x = in_use u x" for x
    by (simp add: w_def in_use_def)
  have kw: "keeps s w {T}"
    using al by (auto simp: keeps_def memw usew) (simp add: w_def)
  have "entry_ok w S T j" if "j \<in> set [0..<1024]" for j
    using frames [of j] that ST al(2) keepsD(1) [OF kw] by (auto simp: entry_ok_def memw)
  from clone_entries_ok [OF keepsD(3) [OF kw] keepsD(1) [OF kw use] _ ST this distinct_upt ce [folded w_def]]
  have k: "keeps w t {S, T}" and c: "\<And>j. j < 1024 \<Longrightarrow> copied w t S T (stack_entry k base sz j) j"
    using al(3) by (simp_all add: usew)
  have "copied s t S T (stack_entry k base sz j) j" if "j < 1024" for j
  proof -
    have "mem w (paging_align_down (mem s S j)) = mem s (paging_align_down (mem s S j))" if "entry_present (mem s S j)"
      using frames [OF \<open>j < 1024\<close> that] al(2) by (auto simp: memw)
    then show ?thesis
      using c [OF that] ST keepsD(1) [OF kw] by (auto simp: copied_defs memw split: if_splits)
  qed
  moreover have "keeps s t {S}"
    by (rule keeps_fresh [OF keeps_trans [OF kw k]]) (use al(2) in auto)
  ultimately show ?thesis
    using al keepsD(1) [OF k, of T] usew by simp
qed

lemma stack_entries_ok:
  assumes "pmm_own (pmm_of s)" and "in_use s T" and "\<And>j. j \<in> set js \<Longrightarrow> mem s T j = 0" and "distinct js" and "sz > 0"
    and "stack_entries s T k base sz js = (True, t)"
  shows "keeps s t {T} \<and> (\<forall>j\<in>set js. child_entry s t T (stack_entry k base sz j) 0 j) \<and>
    (\<forall>j. j \<notin> set js \<longrightarrow> mem t T j = mem s T j)"
  using assms
proof (induction js arbitrary: s)
  case Nil
  then show ?case
    by (simp add: keeps_refl)
next
  case (Cons i js)
  have se: "stack_entry k base sz i \<longleftrightarrow>
      of_nat k * 1024 * PAGE_SIZE + of_nat i * PAGE_SIZE \<ge> base \<and> of_nat k * 1024 * PAGE_SIZE + of_nat i * PAGE_SIZE < base + sz"
    using Cons.prems(5) by (simp add: stack_entry_def is_stack_page_def mult.assoc)
  show ?case
  proof (cases "stack_entry k base sz i")
    case False
    then have "stack_entries s T k base sz js = (True, t)"
      using Cons.prems(6) se by (auto simp: Let_def)
    then show ?thesis
      using Cons.IH [OF Cons.prems(1,2)] Cons.prems(3-5) False by (simp add: child_entry_def)
  next
    case True
    obtain n u where al: "alloc_frame s = (n, u)"
      by fastforce
    have n: "n \<noteq> 0"
      using Cons.prems(6) True al unfolding se by (auto simp: Let_def)
    define e where "e = set_frame (drop_bit 12 n) (set_flag 2 True (set_flag 1 True (set_flag 0 True (mem (clear_page u n) T i))))"
    define w where "w = set_word (clear_page u n) T i e"
    have rest: "stack_entries w T k base sz js = (True, t)"
      using Cons.prems(6) True al n unfolding se by (simp add: Let_def w_def e_def)
    note al = alloc_keeps [OF Cons.prems(1) al n]
    have nT: "n \<noteq> T"
      using al(2) Cons.prems(2) by auto
    have memw: "mem w x j = (if x = T \<and> j = i then e else if x = n then 0 else mem s x j)" for x j
      using al(4) nT by (simp add: w_def mem_set_word)
    have usew: "in_use w x = in_use u x" for x
      by (simp add: w_def in_use_def)
    have e: "entry_present e" "entry_rw e" "entry_user e" "\<not> entry_cow e" "paging_align_down e = n"
      using al(4,5) nT Cons.prems(3) [of i] by (simp_all add: e_def entry_cow_def bit_set_frame)
    have kw: "keeps s w {T}"
      using al(1,2) keepsD(3) [OF al(1)] by (auto simp: keeps_def usew fun_eq_iff memw) (simp add: w_def)
    have "mem w T j = 0" if "j \<in> set js" for j
      using that Cons.prems(3) [of j] Cons.prems(4) nT by (auto simp: memw)
    from Cons.IH [OF keepsD(3) [OF kw] keepsD(1) [OF kw Cons.prems(2)] this _ Cons.prems(5) rest]
    have ih: "keeps w t {T}" "\<And>j. j \<in> set js \<Longrightarrow> child_entry w t T (stack_entry k base sz j) 0 j"
      "\<And>j. j \<notin> set js \<Longrightarrow> mem t T j = mem w T j"
      using Cons.prems(4) by simp_all
    have "child_entry s t T True 0 i"
      using ih(3) [of i] Cons.prems(4) e nT al(2,3) keepsD(1,2) [OF ih(1), of n] by (simp add: child_entry_def memw usew fun_eq_iff)
    moreover have "child_entry s t T (stack_entry k base sz j) 0 j" if "j \<in> set js" for j
      using ih(2) [OF that] keepsD(1) [OF kw] by (auto simp: child_entry_def)
    ultimately show ?thesis
      using True ih(3) keeps_trans [OF kw ih(1)] nT by (auto simp: memw)
  qed
qed

lemma stack_table_ok:
  assumes own: "pmm_own (pmm_of s)" and "sz > 0" and res: "paging_create_stack_page_table s k base sz = (Some T, t)"
  shows "keeps s t {} \<and> \<not> in_use s T \<and> in_use t T \<and> paging_align_down T = T \<and>
    (\<forall>j<1024. child_entry s t T (stack_entry k base sz j) 0 j)"
proof -
  obtain u where al: "alloc_frame s = (T, u)" and T: "T \<noteq> 0"
    and ce: "stack_entries (clear_page u T) T k base sz [0..<1024] = (True, t)"
    using res by (auto simp: paging_create_stack_page_table_def Let_def split: prod.splits if_splits bool.splits)
  note al = alloc_keeps [OF own al T]
  define w where "w = clear_page u T"
  have memw: "mem w x = (if x = T then (\<lambda>i. 0) else mem s x)" for x
    using al(4) by (simp add: w_def)
  have usew: "in_use w x = in_use u x" for x
    by (simp add: w_def in_use_def)
  have kw: "keeps s w {T}"
    using al by (auto simp: keeps_def memw usew) (simp add: w_def)
  from stack_entries_ok [OF keepsD(3) [OF kw] _ _ distinct_upt assms(2) ce [folded w_def]]
  have k: "keeps w t {T}" and c: "\<And>j. j < 1024 \<Longrightarrow> child_entry w t T (stack_entry k base sz j) 0 j"
    using al(3) by (simp_all add: usew memw)
  have "child_entry s t T (stack_entry k base sz j) 0 j" if "j < 1024" for j
    using c [OF that] keepsD(1) [OF kw] by (auto simp: child_entry_def)
  moreover have "keeps s t {}"
    by (rule keeps_fresh [OF keeps_trans [OF kw k]]) (use al(2) in auto)
  ultimately show ?thesis
    using al keepsD(1) [OF k, of T] usew by simp
qed

subsection \<open>The user part of a directory\<close>

definition contains_stack :: "nat \<Rightarrow> u32 \<Rightarrow> u32 \<Rightarrow> bool" where
  "contains_stack k base sz \<longleftrightarrow> sz > 0 \<and> base \<ge> of_nat k * (1024 * PAGE_SIZE) \<and>
     base < of_nat k * (1024 * PAGE_SIZE) + 1024 * PAGE_SIZE"

definition cloned_pde :: "paging \<Rightarrow> paging \<Rightarrow> u32 \<Rightarrow> u32 \<Rightarrow> u32 \<Rightarrow> u32 \<Rightarrow> nat \<Rightarrow> bool" where
  "cloned_pde s t D d base sz k \<longleftrightarrow>
     (if entry_present (mem s D k) then
        entry_present (mem t d k) \<and> \<not> in_use s (table_of t d k) \<and> in_use t (table_of t d k) \<and>
        (\<forall>j<1024. copied s t (table_of s D k) (table_of t d k) (stack_entry k base sz j) j)
      else if contains_stack k base sz then
        entry_present (mem t d k) \<and> \<not> in_use s (table_of t d k) \<and> in_use t (table_of t d k) \<and>
        (\<forall>j<1024. child_entry s t (table_of t d k) (stack_entry k base sz j) 0 j)
      else mem t d k = 0)"

text \<open>What the copy of the entries \<open>K\<close> of a directory relies on: the tables and the data frames are in use and
  no data frame is also a table or a directory.\<close>

definition source_ok :: "paging \<Rightarrow> u32 \<Rightarrow> u32 \<Rightarrow> nat set \<Rightarrow> bool" where
  "source_ok s D d K \<longleftrightarrow> in_use s D \<and> in_use s d \<and> D \<noteq> d \<and> (\<forall>k\<in>K. mem s d k = 0) \<and>
     (\<forall>k\<in>K. entry_present (mem s D k) \<longrightarrow>
        in_use s (table_of s D k) \<and> table_of s D k \<noteq> D \<and> table_of s D k \<noteq> d \<and>
        (\<forall>l\<in>K. entry_present (mem s D l) \<longrightarrow> l \<noteq> k \<longrightarrow> table_of s D l \<noteq> table_of s D k) \<and>
        (\<forall>j<1024. entry_present (mem s (table_of s D k) j) \<longrightarrow>
           (let f = paging_align_down (mem s (table_of s D k) j) in in_use s f \<and> f \<noteq> D \<and> f \<noteq> d \<and>
              (\<forall>l\<in>K. entry_present (mem s D l) \<longrightarrow> f \<noteq> table_of s D l))))"

lemma source_okD:
  assumes "source_ok s D d K" and "k \<in> K" and "entry_present (mem s D k)"
  shows "in_use s (table_of s D k)" "table_of s D k \<noteq> D" "table_of s D k \<noteq> d"
    "\<And>l. l \<in> K \<Longrightarrow> entry_present (mem s D l) \<Longrightarrow> l \<noteq> k \<Longrightarrow> table_of s D l \<noteq> table_of s D k"
    "\<And>j. j < 1024 \<Longrightarrow> entry_present (mem s (table_of s D k) j) \<Longrightarrow> in_use s (paging_align_down (mem s (table_of s D k) j))"
    "\<And>j. j < 1024 \<Longrightarrow> entry_present (mem s (table_of s D k) j) \<Longrightarrow> paging_align_down (mem s (table_of s D k) j) \<noteq> D"
    "\<And>j. j < 1024 \<Longrightarrow> entry_present (mem s (table_of s D k) j) \<Longrightarrow> paging_align_down (mem s (table_of s D k) j) \<noteq> d"
    "\<And>j l. j < 1024 \<Longrightarrow> entry_present (mem s (table_of s D k) j) \<Longrightarrow> l \<in> K \<Longrightarrow> entry_present (mem s D l) \<Longrightarrow>
       paging_align_down (mem s (table_of s D k) j) \<noteq> table_of s D l"
  using assms unfolding source_ok_def Let_def by blast+

lemma source_ok_dirs: "source_ok s D d K \<Longrightarrow> in_use s D \<and> in_use s d \<and> D \<noteq> d \<and> (\<forall>k\<in>K. mem s d k = 0)"
  unfolding source_ok_def by blast

text \<open>The frames one step writes: the parent's table and the child's directory.\<close>

definition written :: "paging \<Rightarrow> u32 \<Rightarrow> u32 \<Rightarrow> nat \<Rightarrow> u32 set" where
  "written s D d k = insert d (if entry_present (mem s D k) then {table_of s D k} else {})"

lemma clone_user_entry_ok:
  assumes own: "pmm_own (pmm_of s)" and src: "source_ok s D d K" and k: "k \<in> K"
    and res: "clone_user_entry s D d base sz k = Some t"
  shows "keeps s t (written s D d k) \<and> cloned_pde s t D d base sz k \<and> (\<forall>l. l \<noteq> k \<longrightarrow> mem t d l = mem s d l)"
proof -
  note dirs = source_ok_dirs [OF src]
  have fd: "T \<noteq> d" if "\<not> in_use s T" for T
    using that dirs by auto
  show ?thesis
  proof (cases "entry_present (mem s D k)")
    case True
    note S = source_okD [OF src k True]
    let ?S = "table_of s D k"
    obtain T u where cl: "paging_clone_page_table s ?S k base sz = Some (T, u)"
      and t: "t = set_word u d k (set_frame (drop_bit 12 T) (mem u D k))"
      using res True by (auto simp: clone_user_entry_def paging_get_page_table_from_pde_def table_of_def frame_addr Let_def
          split: option.splits)
    have fr: "in_use s (paging_align_down (mem s ?S j)) \<and> paging_align_down (mem s ?S j) \<noteq> ?S"
      if "j < 1024" "entry_present (mem s ?S j)" for j
      using S(5) [OF that] S(8) [OF that k True] by blast
    from clone_table_ok [OF own S(1) fr cl]
    have ku: "keeps s u {?S}" and T: "\<not> in_use s T" "in_use u T" "paging_align_down T = T"
      and cp: "\<And>j. j < 1024 \<Longrightarrow> copied s u ?S T (stack_entry k base sz j) j"
      by blast+
    have D: "mem u D = mem s D"
      using keepsD(2) [OF ku, of D] dirs S(2) by auto
    have d: "mem u d = mem s d"
      using keepsD(2) [OF ku, of d] dirs S(3) by auto
    have usd: "in_use u d"
      using keepsD(1) [OF ku] dirs by blast
    have tab: "entry_present (mem t d k)" "table_of t d k = T"
      using True T(3) by (simp_all add: t table_of_def mem_set_word D)
    have kt: "keeps u t {d}"
      using keeps_set_word [OF keepsD(3) [OF ku]] by (simp add: t)
    have "copied s t ?S T (stack_entry k base sz j) j" if "j < 1024" for j
    proof -
      note c = cp [OF that]
      have "mem t ?S = mem u ?S" "mem t T = mem u T"
        using S(3) fd [OF T(1)] by (simp_all add: t)
      moreover have "mem t x = mem u x" if "\<not> in_use s x" for x
        using fd [OF that] by (simp add: t)
      ultimately show ?thesis
        using c by (auto simp: copied_defs in_use_def t split: if_splits)
    qed
    then have "cloned_pde s t D d base sz k"
      using True T tab by (simp add: cloned_pde_def) (simp add: t in_use_def)
    moreover have "keeps s t (written s D d k)"
      using keeps_trans [OF ku kt] True by (simp add: written_def insert_commute)
    ultimately show ?thesis
      using d by (simp add: t mem_set_word)
  next
    case False
    show ?thesis
    proof (cases "contains_stack k base sz")
      case True
      obtain T u where cl: "paging_create_stack_page_table s k base sz = (Some T, u)"
        and t: "t = set_word u d k (set_frame (drop_bit 12 T) (set_flag 2 True (set_flag 1 True (set_flag 0 True (mem u d k)))))"
        using res True False
        by (auto simp: clone_user_entry_def paging_get_page_table_from_pde_def contains_stack_def Let_def split: option.splits prod.splits)
      have "sz > 0"
        using True by (simp add: contains_stack_def)
      from stack_table_ok [OF own this cl]
      have ku: "keeps s u {}" and T: "\<not> in_use s T" "in_use u T" "paging_align_down T = T"
        and cp: "\<And>j. j < 1024 \<Longrightarrow> child_entry s u T (stack_entry k base sz j) 0 j"
        by blast+
      have d: "mem u d = mem s d"
        using keepsD(2) [OF ku, of d] dirs by auto
      have tab: "entry_present (mem t d k)" "table_of t d k = T"
        using True T(3) by (simp_all add: t table_of_def mem_set_word)
      have kt: "keeps u t {d}"
        using keeps_set_word [OF keepsD(3) [OF ku]] by (simp add: t)
      have "child_entry s t T (stack_entry k base sz j) 0 j" if "j < 1024" for j
      proof -
        note c = cp [OF that]
        have "mem t T = mem u T"
          using fd [OF T(1)] by (simp add: t)
        moreover have "mem t x = mem u x" if "\<not> in_use s x" for x
          using fd [OF that] by (simp add: t)
        ultimately show ?thesis
          using c by (auto simp: child_entry_def in_use_def t split: if_splits)
      qed
      then have "cloned_pde s t D d base sz k"
        using True False T tab by (simp add: cloned_pde_def) (simp add: t in_use_def)
      moreover have "keeps s t (written s D d k)"
        using keeps_trans [OF ku kt] False by (simp add: written_def)
      ultimately show ?thesis
        using d by (simp add: t mem_set_word)
    next
      case no: False
      then have "t = s"
        using res False
        by (auto simp: clone_user_entry_def paging_get_page_table_from_pde_def contains_stack_def Let_def split: if_splits)
      then show ?thesis
        using no False dirs k own by (simp add: cloned_pde_def keeps_refl)
    qed
  qed
qed

lemma child_later:
  assumes "child_entry s u T b e i" and k: "keeps u t X" and X: "\<And>x. x \<in> X \<Longrightarrow> in_use s x" and T: "\<not> in_use s T" "in_use u T"
  shows "child_entry s t T b e i"
proof -
  have "mem t T = mem u T"
    using keepsD(2) [OF k T(2)] X T(1) by blast
  moreover have "mem t x = mem u x \<and> in_use t x" if "\<not> in_use s x" "in_use u x" for x
    using keepsD(1,2) [OF k that(2)] X that(1) by blast
  ultimately show ?thesis
    using assms(1) by (simp add: child_entry_def split: if_splits)
qed

lemma child_earlier:
  assumes "child_entry u t T b e i" and k: "keeps s u X"
    and e: "entry_present e \<Longrightarrow> paging_align_down e \<notin> X \<and> in_use s (paging_align_down e)"
  shows "child_entry s t T b e i"
proof -
  have "mem u (paging_align_down e) = mem s (paging_align_down e)" if "entry_present e"
    using keepsD(2) [OF k] e [OF that] by blast
  then show ?thesis
    using assms(1) keepsD(1) [OF k] by (auto simp: child_entry_def split: if_splits)
qed

lemma written_in_use:
  assumes "source_ok s D d K" and "k \<in> K" and "x \<in> written s D d k"
  shows "in_use s x" and "x \<noteq> D"
  using assms source_okD(1,2) [OF assms(1,2)] source_ok_dirs [OF assms(1)] by (auto simp: written_def split: if_splits)

lemma source_step:
  assumes src: "source_ok s D d (insert k K)" and new: "k \<notin> K" and keep: "keeps s u (written s D d k)"
    and dir: "\<And>l. l \<noteq> k \<Longrightarrow> mem u d l = mem s d l"
  shows "source_ok u D d K" "mem u D = mem s D"
    "\<And>l. l \<in> K \<Longrightarrow> entry_present (mem s D l) \<Longrightarrow> mem u (table_of s D l) = mem s (table_of s D l)"
proof -
  note dirs = source_ok_dirs [OF src]
  show D: "mem u D = mem s D"
    using keepsD(2) [OF keep, of D] dirs written_in_use(2) [OF src] by blast
  then have tab: "table_of u D l = table_of s D l" for l
    by (simp add: table_of_def)
  show S: "mem u (table_of s D l) = mem s (table_of s D l)" if l: "l \<in> K" "entry_present (mem s D l)" for l
  proof (rule keepsD(2) [OF keep])
    have l': "l \<in> insert k K" "l \<noteq> k"
      using l new by auto
    show "in_use s (table_of s D l)"
      by (rule source_okD(1) [OF src l'(1) l(2)])
    show "table_of s D l \<notin> written s D d k"
      using source_okD(3) [OF src l'(1) l(2)] source_okD(4) [OF src insertI1 _ l'(1) l(2) l'(2)] by (auto simp: written_def)
  qed
  have use: "in_use u x" if "in_use s x" for x
    using keepsD(1) [OF keep that] .
  have "in_use u (table_of s D l) \<and> table_of s D l \<noteq> D \<and> table_of s D l \<noteq> d \<and>
      (\<forall>m\<in>K. entry_present (mem s D m) \<longrightarrow> m \<noteq> l \<longrightarrow> table_of s D m \<noteq> table_of s D l) \<and>
      (\<forall>j<1024. entry_present (mem s (table_of s D l) j) \<longrightarrow>
         (let f = paging_align_down (mem s (table_of s D l) j) in in_use u f \<and> f \<noteq> D \<and> f \<noteq> d \<and>
            (\<forall>m\<in>K. entry_present (mem s D m) \<longrightarrow> f \<noteq> table_of s D m)))"
    if l: "l \<in> K" "entry_present (mem s D l)" for l
  proof -
    have l': "l \<in> insert k K"
      using l by simp
    note sd = source_okD [OF src l' l(2)]
    have "in_use u (paging_align_down (mem s (table_of s D l) j)) \<and> paging_align_down (mem s (table_of s D l) j) \<noteq> D \<and>
        paging_align_down (mem s (table_of s D l) j) \<noteq> d \<and>
        (\<forall>m\<in>K. entry_present (mem s D m) \<longrightarrow> paging_align_down (mem s (table_of s D l) j) \<noteq> table_of s D m)"
      if "j < 1024" "entry_present (mem s (table_of s D l) j)" for j
      using use [OF sd(5) [OF that]] sd(6) [OF that] sd(7) [OF that] sd(8) [OF that] by blast
    moreover have "\<forall>m\<in>K. entry_present (mem s D m) \<longrightarrow> m \<noteq> l \<longrightarrow> table_of s D m \<noteq> table_of s D l"
      using sd(4) by blast
    ultimately show ?thesis
      unfolding Let_def using use [OF sd(1)] sd(2,3) by blast
  qed
  moreover have "in_use u D" "in_use u d" "D \<noteq> d"
    using dirs use by blast+
  moreover have "mem u d l = 0" if "l \<in> K" for l
    using dirs dir [of l] new that by (metis insertI2)
  ultimately show "source_ok u D d K"
    unfolding source_ok_def D tab using S by simp
qed

lemma cloned_later:
  assumes c: "cloned_pde s u D d base sz k" and k: "keeps u t X" and X: "\<And>x. x \<in> X \<Longrightarrow> in_use s x"
    and d: "mem t d k = mem u d k" and S: "entry_present (mem s D k) \<Longrightarrow> mem t (table_of s D k) = mem u (table_of s D k)"
  shows "cloned_pde s t D d base sz k"
proof -
  have tab: "table_of t d k = table_of u d k"
    using d by (simp add: table_of_def)
  have use: "in_use t x" if "in_use u x" for x
    using keepsD(1) [OF k that] .
  show ?thesis
  proof (cases "entry_present (mem s D k)")
    case True
    then have T: "\<not> in_use s (table_of u d k)" "in_use u (table_of u d k)"
      using c by (simp_all add: cloned_pde_def)
    have "copied s t (table_of s D k) (table_of u d k) (stack_entry k base sz j) j" if "j < 1024" for j
    proof -
      have "copied s u (table_of s D k) (table_of u d k) (stack_entry k base sz j) j"
        using c True that by (simp add: cloned_pde_def)
      then show ?thesis
        using child_later [OF _ k X T] S [OF True] by (auto simp: copied_def)
    qed
    then show ?thesis
      using True c T use d by (simp add: cloned_pde_def tab)
  next
    case False
    have "child_entry s t (table_of u d k) (stack_entry k base sz j) 0 j"
      if "contains_stack k base sz" "j < 1024" for j
    proof (rule child_later [OF _ k X])
      show "child_entry s u (table_of u d k) (stack_entry k base sz j) 0 j" "\<not> in_use s (table_of u d k)" "in_use u (table_of u d k)"
        using c False that by (simp_all add: cloned_pde_def)
    qed
    then show ?thesis
      using False c use d by (simp add: cloned_pde_def tab)
  qed
qed

lemma cloned_earlier:
  assumes c: "cloned_pde u t D d base sz k" and keep: "keeps s u X" and D: "mem u D = mem s D"
    and S: "entry_present (mem s D k) \<Longrightarrow> mem u (table_of s D k) = mem s (table_of s D k)"
    and f: "\<And>j. j < 1024 \<Longrightarrow> entry_present (mem s D k) \<Longrightarrow> entry_present (mem s (table_of s D k) j) \<Longrightarrow>
      paging_align_down (mem s (table_of s D k) j) \<notin> X \<and> in_use s (paging_align_down (mem s (table_of s D k) j))"
  shows "cloned_pde s t D d base sz k"
proof -
  have tab: "table_of u D k = table_of s D k"
    using D by (simp add: table_of_def)
  have use: "\<not> in_use s x" if "\<not> in_use u x" for x
    using keepsD(1) [OF keep] that by blast
  have "copied s t (table_of s D k) T b j" if "copied u t (table_of s D k) T b j" "j < 1024" "entry_present (mem s D k)" for T b j
    using that child_earlier [OF _ keep f [OF that(2,3)]] S [OF that(3)] by (auto simp: copied_def)
  moreover have "child_entry s t T b 0 j" if "child_entry u t T b 0 j" for T b j
    using child_earlier [OF that keep] by simp
  ultimately show ?thesis
    using c use by (auto simp: cloned_pde_def D tab split: if_splits)
qed

lemma clone_user_entries_ok:
  assumes "pmm_own (pmm_of s)" and "source_ok s D d (set ks)" and "distinct ks"
    and "clone_user_entries s D d base sz ks = Some t"
  shows "keeps s t (\<Union>k\<in>set ks. written s D d k) \<and> (\<forall>k\<in>set ks. cloned_pde s t D d base sz k) \<and>
    (\<forall>l. l \<notin> set ks \<longrightarrow> mem t d l = mem s d l)"
  using assms
proof (induction ks arbitrary: s)
  case Nil
  then show ?case
    by (simp add: keeps_refl)
next
  case (Cons k ks)
  obtain u where u: "clone_user_entry s D d base sz k = Some u" and rest: "clone_user_entries u D d base sz ks = Some t"
    using Cons.prems(4) by (auto split: option.splits)
  have kn: "k \<notin> set ks" and dk: "distinct ks"
    using Cons.prems(3) by auto
  have src: "source_ok s D d (insert k (set ks))"
    using Cons.prems(2) by simp
  have ku: "keeps s u (written s D d k)" and cu: "cloned_pde s u D d base sz k"
    and du: "\<And>l. l \<noteq> k \<Longrightarrow> mem u d l = mem s d l"
    using clone_user_entry_ok [OF Cons.prems(1) src insertI1 u] by blast+
  have st: "source_ok u D d (set ks)" "mem u D = mem s D"
    by (rule source_step [OF src kn ku], erule du)+
  have st3: "mem u (table_of s D l) = mem s (table_of s D l)" if "l \<in> set ks" "entry_present (mem s D l)" for l
    by (rule source_step(3) [OF src kn ku du that])
  have ih: "keeps u t (\<Union>k\<in>set ks. written u D d k)" "\<And>l. l \<in> set ks \<Longrightarrow> cloned_pde u t D d base sz l"
    "\<And>l. l \<notin> set ks \<Longrightarrow> mem t d l = mem u d l"
    using Cons.IH [OF keepsD(3) [OF ku] st(1) dk rest] by blast+
  have wr: "written u D d l = written s D d l" for l
    by (simp add: written_def st(2) table_of_def)
  let ?X = "\<Union>k\<in>set ks. written s D d k"
  have kt: "keeps u t ?X"
    using ih(1) by (simp only: wr)
  have X: "in_use s x" if "x \<in> ?X" for x
    using that written_in_use(1) [OF src] by blast
  have "cloned_pde s t D d base sz l" if "l \<in> set (k # ks)" for l
  proof (cases "l = k")
    case True
    have "mem t (table_of s D k) = mem u (table_of s D k)" if pk: "entry_present (mem s D k)"
    proof (rule keepsD(2) [OF kt])
      show "in_use u (table_of s D k)"
        using keepsD(1) [OF ku source_okD(1) [OF src insertI1 pk]] .
      show "table_of s D k \<notin> ?X"
        using source_okD(3) [OF src insertI1 pk] source_okD(4) [OF src _ _ insertI1 pk] kn
        by (auto simp: written_def split: if_splits)
    qed
    then show ?thesis
      using cloned_later [OF cu kt X ih(3) [OF kn]] True by blast
  next
    case False
    then have l: "l \<in> set ks" "l \<in> insert k (set ks)"
      using that by auto
    have "paging_align_down (mem s (table_of s D l) j) \<notin> written s D d k \<and> in_use s (paging_align_down (mem s (table_of s D l) j))"
      if "j < 1024" "entry_present (mem s D l)" "entry_present (mem s (table_of s D l) j)" for j
      using source_okD(5,7) [OF src l(2) that(2) that(1,3)] source_okD(8) [OF src l(2) that(2) that(1,3) insertI1]
      by (auto simp: written_def)
    with cloned_earlier [OF ih(2) [OF l(1)] ku st(2) st3 [OF l(1)]] show ?thesis
      by blast
  qed
  moreover have "keeps s t (\<Union>k\<in>set (k # ks). written s D d k)"
    using keeps_trans [OF ku kt] by simp
  ultimately show ?case
    using ih(3) du by simp
qed

subsection \<open>A whole address space\<close>

definition user_addr :: "u32 \<Rightarrow> bool" where
  "user_addr v \<longleftrightarrow> VMM_USER_START \<le> v \<and> v < VMM_USER_END"

definition shared_ro :: "paging \<Rightarrow> u32 \<Rightarrow> u32 \<Rightarrow> bool" where
  "shared_ro s pd v \<longleftrightarrow> (case leaf s pd v of None \<Rightarrow> False | Some e \<Rightarrow> \<not> entry_rw e \<and> entry_cow e)"

definition private_rw :: "paging \<Rightarrow> u32 \<Rightarrow> u32 \<Rightarrow> bool" where
  "private_rw s pd v \<longleftrightarrow> (case leaf s pd v of None \<Rightarrow> False | Some e \<Rightarrow> entry_rw e \<and> entry_user e \<and> \<not> entry_cow e)"

text \<open>The address space of a process: a directory whose user pages are frames in use other than its tables.\<close>

definition user_ok :: "paging \<Rightarrow> u32 \<Rightarrow> bool" where
  "user_ok s D \<longleftrightarrow> dir_ok s D \<and>
     (\<forall>k\<in>{1..<256}. \<forall>j<1024. entry_present (mem s D k) \<longrightarrow> entry_present (mem s (table_of s D k) j) \<longrightarrow>
        (let f = paging_align_down (mem s (table_of s D k) j) in
         in_use s f \<and> f \<noteq> D \<and> (\<forall>l<1024. entry_present (mem s D l) \<longrightarrow> f \<noteq> table_of s D l)))"

lemma user_okD:
  assumes "user_ok s D" and "k \<in> {1..<256}" and "j < 1024" and "entry_present (mem s D k)"
    and "entry_present (mem s (table_of s D k) j)"
  shows "in_use s (paging_align_down (mem s (table_of s D k) j))" "paging_align_down (mem s (table_of s D k) j) \<noteq> D"
    "\<And>l. l < 1024 \<Longrightarrow> entry_present (mem s D l) \<Longrightarrow> paging_align_down (mem s (table_of s D k) j) \<noteq> table_of s D l"
  using assms unfolding user_ok_def Let_def by blast+

lemma pt_index_div: "paging_get_pt_index v = unat v div 4096 mod 1024"
proof -
  have "drop_bit 12 v AND 0x3FF = take_bit 10 (drop_bit 12 v)"
    by (simp add: take_bit_eq_mask mask_eq_exp_minus_1)
  then show ?thesis
    by (simp add: paging_get_pt_index_def take_bit_eq_mod drop_bit_eq_div unat_div_distrib)
qed

lemma user_addr_index: "user_addr v \<longleftrightarrow> paging_get_pd_index v \<in> {1..<256}"
  unfolding user_addr_def pd_index_div VMM_USER_START_def VMM_USER_END_def
  by (simp add: word_le_nat_alt word_less_nat_alt) linarith

lemma user_pd_range: "[paging_get_pd_index VMM_USER_START..<paging_get_pd_index VMM_USER_END] = [1..<256]"
  by (simp add: pd_index_div VMM_USER_START_def VMM_USER_END_def)

lemma kernel_pd_ranges:
  "[paging_get_pd_index PHYS_MAP_BASE..<paging_get_pd_index 0xFFFFFFFF + 1] = [768..<1024]"
  "[paging_get_pd_index VMM_KERNEL_HEAP..<paging_get_pd_index VMM_KERNEL_END] = [256..<768]"
  by (simp_all add: pd_index_div PHYS_MAP_BASE_def VMM_KERNEL_HEAP_def VMM_KERNEL_END_def)

lemma stack_entry_page: "stack_entry (paging_get_pd_index v) base sz (paging_get_pt_index v) = is_stack_page base sz (paging_align_down v)"
proof -
  have "pmm_addr_to_page v = paging_get_pd_index v * 1024 + paging_get_pt_index v"
    unfolding pd_index_div pt_index_div using div_mult2_eq [of "unat v" 4096 1024]
    by (simp add: pmm_addr_to_page_def PMM_PAGE_SIZE_def unat_div_distrib)
  then have "paging_align_down v = of_nat (paging_get_pd_index v) * (1024 * PAGE_SIZE) + of_nat (paging_get_pt_index v) * PAGE_SIZE"
    by (simp add: align_down_pmm pmm_page_to_addr_def PAGE_SIZE_def PMM_PAGE_SIZE_def distrib_right)
  then show ?thesis
    by (simp add: stack_entry_def)
qed

lemma copy_present_ok:
  assumes "D \<noteq> d"
  shows "pmm_of (copy_present_entries s d D ks) = pmm_of s \<and>
    (\<forall>x. x \<noteq> d \<longrightarrow> mem (copy_present_entries s d D ks) x = mem s x) \<and>
    (\<forall>i. mem (copy_present_entries s d D ks) d i =
      (if i \<in> set ks \<and> entry_present (mem s D i) then mem s D i else mem s d i))"
  using assms by (induction ks arbitrary: s) (auto simp: mem_set_word)

lemma clone_start:
  assumes own: "pmm_own (pmm_of s)" and res: "paging_clone_directory s D True base sz = Some (d, t)"
    and use: "in_use s D"
  obtains w where "clone_user_entries w D d base sz [1..<256] = Some t" and "keeps s w {}" and "\<not> in_use s d" and "in_use w d"
    and "\<And>i. i < 1024 \<Longrightarrow> mem w d i = (if i = 0 \<or> 256 \<le> i \<and> entry_present (mem s D i) then mem s D i else 0)"
proof -
  obtain a u where al: "alloc_frame s = (a, u)"
    by fastforce
  define v where "v = set_word (clear_page u d) d 0 (mem (clear_page u d) D 0)"
  define w where "w = copy_present_entries (copy_present_entries v d D [768..<1024]) d D [256..<768]"
  have "D \<noteq> 0"
    using res by (auto simp: paging_clone_directory_def)
  have "a \<noteq> 0"
    using res \<open>D \<noteq> 0\<close> by (auto simp: paging_clone_directory_def paging_create_directory_def al)
  then have r: "(case clone_user_entries (copy_present_entries (copy_present_entries (set_word (clear_page u a) a 0 (mem (clear_page u a) D 0))
        a D [768..<1024]) a D [256..<768]) D a base sz [1..<256] of None \<Rightarrow> None | Some s \<Rightarrow> Some (a, s)) = Some (d, t)"
    using res \<open>D \<noteq> 0\<close> unfolding paging_clone_directory_def paging_create_directory_def al Let_def user_pd_range kernel_pd_ranges
    by simp
  then have "a = d"
    by (simp split: option.splits)
  have cl: "clone_user_entries w D d base sz [1..<256] = Some t"
    using r unfolding \<open>a = d\<close> v_def [symmetric] w_def [symmetric] by (auto split: option.splits)
  have d: "d \<noteq> 0" and al: "alloc_frame s = (d, u)"
    using \<open>a \<noteq> 0\<close> \<open>a = d\<close> al by simp_all
  note a = alloc_keeps [OF own al d]
  have Dd: "D \<noteq> d"
    using a(2) use by auto
  have v: "mem v x = mem s x" if "x \<noteq> d" for x
    using a(4) that by (simp add: v_def)
  have vd: "mem v d i = (if i = 0 then mem s D 0 else 0)" for i
    using a(4) Dd by (simp add: v_def mem_set_word)
  note c1 = copy_present_ok [OF Dd, of v "[768..<1024]"]
  note c2 = copy_present_ok [OF Dd, of "copy_present_entries v d D [768..<1024]" "[256..<768]"]
  have w: "mem w x = mem s x" if "x \<noteq> d" for x
    using c1 c2 v [OF that] that by (simp add: w_def)
  have wd: "mem w d i = (if i = 0 \<or> 256 \<le> i \<and> entry_present (mem s D i) then mem s D i else 0)" if "i < 1024" for i
    using c1 c2 v [OF Dd] vd that Dd by (auto simp: w_def)
  have pm: "pmm_of w = pmm_of u"
    using c1 c2 by (simp add: w_def v_def)
  have "mem w x = mem s x" if "in_use s x" for x
    using that a(2) by (intro w) auto
  then have "keeps s w {}"
    using a(1) by (simp add: keeps_def in_use_def pm)
  then show thesis
    using that [OF cl _ a(2) _ wd] a(3) pm by (simp add: in_use_def)
qed

lemma kernel_table_kept:
  assumes "user_ok s D" and "i < 1024" and "i \<notin> {1..<256}" and "entry_present (mem s D i)" and "\<not> in_use s d"
  shows "table_of s D i \<notin> (\<Union>k\<in>{1..<256}. written s D d k)"
proof -
  have dir: "dir_ok s D"
    using assms(1) by (simp add: user_ok_def)
  have "table_of s D i \<noteq> d"
    using dir_okD(2) [OF dir assms(2,4)] assms(5) by auto
  moreover have "table_of s D i \<noteq> table_of s D k" if "k \<in> {1..<256}" "entry_present (mem s D k)" for k
    using dir_okD(3) [OF dir assms(2) _ assms(4) that(2)] that(1) assms(3) by auto
  ultimately show ?thesis
    by (auto simp: written_def split: if_splits)
qed

lemma user_source_ok:
  assumes ok: "user_ok s D" and w: "keeps s w {}" and d: "\<not> in_use s d" "in_use w d" and wd: "\<And>k. k \<in> {1..<256} \<Longrightarrow> mem w d k = 0"
  shows "source_ok w D d {1..<256}"
proof -
  have dir: "dir_ok s D"
    using ok by (simp add: user_ok_def)
  note use = dir_okD(1) [OF dir]
  have m: "mem w x = mem s x" if "in_use s x" for x
    using keepsD(2) [OF w that] by simp
  have tab: "table_of w D k = table_of s D k" for k
    using m [OF use] by (simp add: table_of_def)
  have nd: "x \<noteq> d" if "in_use s x" for x
    using that d(1) by auto
  have "in_use w (table_of s D k) \<and> table_of s D k \<noteq> D \<and> table_of s D k \<noteq> d \<and>
      (\<forall>l\<in>{1..<256}. entry_present (mem s D l) \<longrightarrow> l \<noteq> k \<longrightarrow> table_of s D l \<noteq> table_of s D k) \<and>
      (\<forall>j<1024. entry_present (mem w (table_of s D k) j) \<longrightarrow>
         (let f = paging_align_down (mem w (table_of s D k) j) in in_use w f \<and> f \<noteq> D \<and> f \<noteq> d \<and>
            (\<forall>l\<in>{1..<256}. entry_present (mem s D l) \<longrightarrow> f \<noteq> table_of s D l)))"
    if k: "k \<in> {1..<256}" "entry_present (mem s D k)" for k
  proof -
    have k': "k < 1024"
      using k(1) by simp
    note T = dir_okD(2) [OF dir k' k(2)]
    have mT: "mem w (table_of s D k) = mem s (table_of s D k)"
      using m T by blast
    have "\<forall>l\<in>{1..<256}. entry_present (mem s D l) \<longrightarrow> l \<noteq> k \<longrightarrow> table_of s D l \<noteq> table_of s D k"
      using dir_okD(3) [OF dir _ k' _ k(2)] by auto
    moreover have "in_use w f \<and> f \<noteq> D \<and> f \<noteq> d \<and> (\<forall>l\<in>{1..<256}. entry_present (mem s D l) \<longrightarrow> f \<noteq> table_of s D l)"
      if "j < 1024" "entry_present (mem s (table_of s D k) j)" "f = paging_align_down (mem s (table_of s D k) j)" for j f
      using user_okD [OF ok k(1) that(1) k(2) that(2)] nd keepsD(1) [OF w] unfolding that(3) by auto
    ultimately show ?thesis
      unfolding mT Let_def using T nd keepsD(1) [OF w] by blast
  qed
  then show ?thesis
    unfolding source_ok_def m [OF use] tab using d use nd keepsD(1) [OF w] wd by auto
qed

lemma clone_directory_ok:
  assumes own: "pmm_own (pmm_of s)" and ok: "user_ok s D" and res: "paging_clone_directory s D True base sz = Some (d, t)"
  shows "\<not> in_use s d" "in_use t d" "keeps s t (\<Union>k\<in>{1..<256}. written s D d k)"
    "\<And>k. k \<in> {1..<256} \<Longrightarrow> cloned_pde s t D d base sz k"
    "\<And>i. i < 1024 \<Longrightarrow> i \<notin> {1..<256} \<Longrightarrow> mem t d i = (if i = 0 \<or> entry_present (mem s D i) then mem s D i else 0)"
proof -
  have dir: "dir_ok s D"
    using ok by (simp add: user_ok_def)
  note use = dir_okD(1) [OF dir]
  obtain w where w: "clone_user_entries w D d base sz [1..<256] = Some t" "keeps s w {}" "\<not> in_use s d" "in_use w d"
    "\<And>i. i < 1024 \<Longrightarrow> mem w d i = (if i = 0 \<or> 256 \<le> i \<and> entry_present (mem s D i) then mem s D i else 0)"
    using clone_start [OF own res use] by blast
  have src: "source_ok w D d {1..<256}"
    by (rule user_source_ok [OF ok w(2-4)]) (use w(5) in auto)
  have m: "mem w x = mem s x" if "in_use s x" for x
    using keepsD(2) [OF w(2) that] by simp
  have wr: "written w D d k = written s D d k" for k
    using m [OF use] by (simp add: written_def table_of_def)
  have c: "keeps w t (\<Union>k\<in>{1..<256}. written s D d k)" "\<And>k. k \<in> {1..<256} \<Longrightarrow> cloned_pde w t D d base sz k"
    "\<And>l. l \<notin> {1..<256} \<Longrightarrow> mem t d l = mem w d l"
    using clone_user_entries_ok [OF keepsD(3) [OF w(2)] _ distinct_upt w(1)] src by (simp_all add: wr)
  show "\<not> in_use s d" "in_use t d"
    using w(3) keepsD(1) [OF c(1) w(4)] by blast+
  show "keeps s t (\<Union>k\<in>{1..<256}. written s D d k)"
    using keeps_trans [OF w(2) c(1)] by simp
  show "mem t d i = (if i = 0 \<or> entry_present (mem s D i) then mem s D i else 0)" if "i < 1024" "i \<notin> {1..<256}" for i
    using c(3) [OF that(2)] w(5) [OF that(1)] that(2) by auto
  show "cloned_pde s t D d base sz k" if k: "k \<in> {1..<256}" for k
  proof (rule cloned_earlier [OF c(2) [OF k] w(2) m [OF use]])
    show "mem w (table_of s D k) = mem s (table_of s D k)" if "entry_present (mem s D k)"
      using m dir_okD(2) [OF dir _ that] k by simp
    show "paging_align_down (mem s (table_of s D k) j) \<notin> {} \<and> in_use s (paging_align_down (mem s (table_of s D k) j))"
      if "j < 1024" "entry_present (mem s D k)" "entry_present (mem s (table_of s D k) j)" for j
      using user_okD(1) [OF ok k that] by simp
  qed
qed

subsection \<open>What the two processes see\<close>

lemma leaf_present: "entry_present (mem s pd (paging_get_pd_index v)) \<Longrightarrow>
  leaf s pd v = Some (mem s (table_of s pd (paging_get_pd_index v)) (paging_get_pt_index v))"
  by (simp add: leaf_def)

lemma leaf_absent: "\<not> entry_present (mem s pd (paging_get_pd_index v)) \<Longrightarrow> leaf s pd v = None"
  by (simp add: leaf_def)

lemma translate_SomeD:
  "translate s pd v = Some f \<Longrightarrow> entry_present (mem s pd (paging_get_pd_index v)) \<and>
    entry_present (mem s (table_of s pd (paging_get_pd_index v)) (paging_get_pt_index v)) \<and>
    f = paging_align_down (mem s (table_of s pd (paging_get_pd_index v)) (paging_get_pt_index v))"
  by (auto simp: translate_def leaf_def split: if_splits)

lemma clone_parent_dir:
  assumes own: "pmm_own (pmm_of s)" and ok: "user_ok s D" and res: "paging_clone_directory s D True base sz = Some (d, t)"
  shows "mem t D = mem s D"
proof -
  note cd = clone_directory_ok [OF own ok res]
  have dir: "dir_ok s D"
    using ok by (simp add: user_ok_def)
  show ?thesis
  proof (rule keepsD(2) [OF cd(3) dir_okD(1) [OF dir]])
    have "d \<noteq> D"
      using cd(1) dir_okD(1) [OF dir] by auto
    moreover have "D \<noteq> table_of s D k" if "k \<in> {1..<256}" "entry_present (mem s D k)" for k
      using dir_okD(2) [OF dir _ that(2)] that(1) by auto
    ultimately show "D \<notin> (\<Union>k\<in>{1..<256}. written s D d k)"
      by (auto simp: written_def split: if_splits)
  qed
qed

lemma clone_keeps_parent:
  assumes own: "pmm_own (pmm_of s)" and ok: "user_ok s D" and res: "paging_clone_directory s D True base sz = Some (d, t)"
  shows "translate t D v = translate s D v" and "user_addr v \<Longrightarrow> page_at t D v = page_at s D v"
proof -
  note cd = clone_directory_ok [OF own ok res]
  let ?X = "\<Union>k\<in>{1..<256}. written s D d k" and ?i = "paging_get_pd_index v" and ?j = "paging_get_pt_index v"
  have dir: "dir_ok s D"
    using ok by (simp add: user_ok_def)
  have D: "mem t D = mem s D"
    by (rule clone_parent_dir [OF own ok res])
  then have tab: "table_of t D i = table_of s D i" for i
    by (simp add: table_of_def)
  show tr: "translate t D v = translate s D v"
  proof (cases "entry_present (mem s D ?i)")
    case True
    show ?thesis
    proof (cases "?i \<in> {1..<256}")
      case user: True
      have "copied s t (table_of s D ?i) (table_of t d ?i) (stack_entry ?i base sz ?j) ?j"
        using cd(4) [OF user] True pt_index_less [of v] by (simp add: cloned_pde_def)
      then show ?thesis
        using True D by (simp add: translate_def leaf_def tab copied_def)
    next
      case False
      have "mem t (table_of s D ?i) = mem s (table_of s D ?i)"
        using keepsD(2) [OF cd(3)] dir_okD(2) [OF dir pd_index_less True]
          kernel_table_kept [OF ok pd_index_less False True cd(1)] by blast
      then show ?thesis
        using True D by (simp add: translate_def leaf_def tab)
    qed
  next
    case False
    then show ?thesis
      by (simp add: translate_def leaf_absent D)
  qed
  show "page_at t D v = page_at s D v" if "user_addr v"
  proof (cases "translate s D v")
    case (Some f)
    note f = translate_SomeD [OF Some]
    have i: "?i \<in> {1..<256}"
      using that user_addr_index by blast
    note fo = user_okD [OF ok i pt_index_less]
    have "in_use s f" "f \<noteq> table_of s D k" if "k \<in> {1..<256}" "entry_present (mem s D k)" for k
      using fo(1,3) f that by auto
    then have "f \<notin> ?X"
      using fo(1) f cd(1) by (auto simp: written_def split: if_splits)
    then have "mem t f = mem s f"
      using keepsD(2) [OF cd(3)] fo(1) f by blast
    then show ?thesis
      using tr Some by (simp add: page_at_def)
  qed (simp add: page_at_def tr)
qed

lemma clone_child_kernel:
  assumes own: "pmm_own (pmm_of s)" and ok: "user_ok s D" and res: "paging_clone_directory s D True base sz = Some (d, t)"
    and "\<not> user_addr v"
  shows "translate t d v = translate s D v"
proof -
  note cd = clone_directory_ok [OF own ok res]
  let ?i = "paging_get_pd_index v"
  have i: "?i \<notin> {1..<256}"
    using assms(4) user_addr_index by blast
  have dir: "dir_ok s D"
    using ok by (simp add: user_ok_def)
  note md = cd(5) [OF pd_index_less i]
  show ?thesis
  proof (cases "entry_present (mem s D ?i)")
    case True
    have "mem t (table_of s D ?i) = mem s (table_of s D ?i)"
      using keepsD(2) [OF cd(3)] dir_okD(2) [OF dir pd_index_less True]
        kernel_table_kept [OF ok pd_index_less i True cd(1)] by blast
    then show ?thesis
      using True md by (simp add: translate_def leaf_def table_of_def)
  next
    case False
    then show ?thesis
      using md by (simp add: translate_def leaf_absent split: if_splits)
  qed
qed

lemma clone_child_user:
  assumes own: "pmm_own (pmm_of s)" and ok: "user_ok s D" and res: "paging_clone_directory s D True base sz = Some (d, t)"
    and v: "user_addr v" "\<not> is_stack_page base sz (paging_align_down v)"
  shows "translate t d v = translate s D v" and "translate s D v \<noteq> None \<Longrightarrow> shared_ro t D v \<and> shared_ro t d v"
proof -
  note cd = clone_directory_ok [OF own ok res]
  let ?i = "paging_get_pd_index v" and ?j = "paging_get_pt_index v"
  have i: "?i \<in> {1..<256}" and j: "?j < 1024"
    using v(1) user_addr_index pt_index_less by blast+
  have ns: "\<not> stack_entry ?i base sz ?j"
    using v(2) by (simp add: stack_entry_page)
  note c = cd(4) [OF i]
  have D: "mem t D ?i = mem s D ?i"
    using clone_parent_dir [OF own ok res] by simp
  have "translate t d v = translate s D v \<and> (translate s D v \<noteq> None \<longrightarrow> shared_ro t D v \<and> shared_ro t d v)"
  proof (cases "entry_present (mem s D ?i)")
    case True
    then have p: "entry_present (mem t d ?i)" and cp: "copied s t (table_of s D ?i) (table_of t d ?i) False ?j"
      using c j ns by (auto simp: cloned_pde_def)
    then show ?thesis
      using True D by (auto simp: translate_def leaf_def shared_ro_def copied_defs table_of_def)
  next
    case False
    have "leaf t d v = None \<or> leaf t d v = Some 0"
    proof (cases "contains_stack ?i base sz")
      case True
      then show ?thesis
        using False c j ns by (auto simp: cloned_pde_def leaf_def child_entry_def)
    next
      case no: False
      then show ?thesis
        using False c by (simp add: cloned_pde_def leaf_def)
    qed
    then show ?thesis
      using False by (auto simp: translate_def leaf_absent)
  qed
  then show "translate t d v = translate s D v" "translate s D v \<noteq> None \<Longrightarrow> shared_ro t D v \<and> shared_ro t d v"
    by blast+
qed

lemma clone_child_stack:
  assumes own: "pmm_own (pmm_of s)" and ok: "user_ok s D" and res: "paging_clone_directory s D True base sz = Some (d, t)"
    and v: "user_addr v" "is_stack_page base sz (paging_align_down v)"
    and tab: "entry_present (mem s D (paging_get_pd_index v)) \<or> contains_stack (paging_get_pd_index v) base sz"
  shows "private_rw t d v \<and> (\<exists>f. translate t d v = Some f \<and> \<not> in_use s f \<and> in_use t f \<and>
    mem t f = (case page_at s D v of None \<Rightarrow> (\<lambda>k. 0) | Some c \<Rightarrow> c))"
proof -
  note cd = clone_directory_ok [OF own ok res]
  let ?i = "paging_get_pd_index v" and ?j = "paging_get_pt_index v"
  have i: "?i \<in> {1..<256}" and j: "?j < 1024"
    using v(1) user_addr_index pt_index_less by blast+
  have st: "stack_entry ?i base sz ?j"
    using v(2) by (simp add: stack_entry_page)
  note c = cd(4) [OF i]
  show ?thesis
  proof (cases "entry_present (mem s D ?i)")
    case True
    then have p: "entry_present (mem t d ?i)" and cp: "copied s t (table_of s D ?i) (table_of t d ?i) True ?j"
      using c j st by (auto simp: cloned_pde_def)
    then show ?thesis
      using True by (auto simp: translate_def leaf_def private_rw_def copied_defs page_at_def)
  next
    case False
    then have p: "entry_present (mem t d ?i)" and cp: "child_entry s t (table_of t d ?i) True 0 ?j"
      using c j st tab by (auto simp: cloned_pde_def)
    then show ?thesis
      using False by (auto simp: translate_def leaf_def private_rw_def child_entry_def page_at_def)
  qed
qed

subsection \<open>Write faults\<close>

lemma dec_refcount_Some:
  assumes "used_frame p f" and "refcount_map p (pmm_addr_to_page f) \<noteq> 0"
  shows "\<exists>c q. pmm_dec_refcount p f = Some (c, q)"
  using assms by (auto simp: pmm_dec_refcount_def buddy_dec_refcount_def used_frame_def pmm_is_aligned_iff Let_def)

lemma drop_reference_mem: "drop_reference s f = Some t \<Longrightarrow> mem t = mem s \<and> current_page_directory t = current_page_directory s"
  by (auto simp: drop_reference_def Let_def split: option.splits if_splits)

lemma drop_reference_Some: "pmm_dec_refcount (pmm_of s) f \<noteq> None \<Longrightarrow> \<exists>t. drop_reference s f = Some t"
  by (auto simp: drop_reference_def Let_def split: option.splits if_splits)

lemma cow_fault_step:
  assumes own: "pmm_own (pmm_of s)" and D: "D = current_page_directory s" and use: "in_use s D" "T \<noteq> D"
    and pde: "entry_present (mem s D (paging_get_pd_index v))" and T: "T = table_of s D (paging_get_pd_index v)" "in_use s T"
    and e: "e = mem s T (paging_get_pt_index v)" "entry_present e" "entry_cow e"
    and f: "f = paging_align_down e" "in_use s f" "refcount_map (pmm_of s) (pmm_addr_to_page f) \<noteq> 0"
    and avail: "fst (pmm_alloc_page (pmm_of s)) \<noteq> 0"
  shows "\<exists>n t. paging_handle_page_fault_cow s v = Some (True, t) \<and> \<not> in_use s n \<and> current_page_directory t = D \<and>
    mem t n = mem s f \<and> mem t T (paging_get_pt_index v) = set_flag 9 False (set_flag 1 True (set_frame (drop_bit 12 n) e)) \<and>
    paging_align_down n = n \<and> (\<forall>j. j \<noteq> paging_get_pt_index v \<longrightarrow> mem t T j = mem s T j) \<and>
    (\<forall>x. in_use s x \<longrightarrow> x \<noteq> T \<longrightarrow> mem t x = mem s x)"
proof -
  obtain n u where al: "alloc_frame s = (n, u)"
    by fastforce
  have n: "n \<noteq> 0"
    using al avail by (auto simp: alloc_frame_def split: prod.splits)
  note a = alloc_keeps [OF own al n]
  have nT: "n \<noteq> T" "n \<noteq> f"
    using a(2) T(2) f(2) by auto
  define w where "w = set_word (copy_page u n f) T (paging_get_pt_index v) (set_flag 9 False (set_flag 1 True (set_frame (drop_bit 12 n) e)))"
  have "refcount_map (pmm_of u) (pmm_addr_to_page f) \<noteq> 0"
    using alloc_frame_cases [OF own al] f(3) by cases (use n in auto)
  then have "pmm_dec_refcount (pmm_of w) f \<noteq> None"
    using dec_refcount_Some [of "pmm_of u" f] keepsD(1) [OF a(1) f(2)] by (auto simp: w_def in_use_def)
  then obtain x where x: "drop_reference w f = Some x"
    using drop_reference_Some by blast
  define t where "t = x\<lparr>pages_saved_by_cow := pages_saved_by_cow x + 1\<rparr>"
  have idx: "unat (drop_bit 22 (paging_align_down v)) = paging_get_pd_index v"
    "unat (drop_bit 12 (paging_align_down v) AND 0x3FF) = paging_get_pt_index v"
    using index_align_down [of v] by (simp_all add: paging_get_pd_index_def paging_get_pt_index_def)
  have "paging_handle_page_fault_cow s v = Some (True, t)"
    unfolding paging_handle_page_fault_cow_def idx Let_def D [symmetric] frame_addr T(1) [unfolded table_of_def, symmetric]
      e(1) [symmetric] al prod.case
    using pde e n x [unfolded w_def] a(4) nT f(1) by (simp add: t_def)
  moreover have memt: "mem t = mem w"
    using drop_reference_mem [OF x] by (simp add: t_def)
  moreover have "current_page_directory t = D"
    using drop_reference_mem [OF x] alloc_frame_same [OF al] D by (simp add: t_def w_def)
  moreover have "mem w n = mem s f" "\<forall>j. j \<noteq> paging_get_pt_index v \<longrightarrow> mem w T j = mem s T j"
    "mem w T (paging_get_pt_index v) = set_flag 9 False (set_flag 1 True (set_frame (drop_bit 12 n) e))"
    using nT a(4) by (simp_all add: w_def mem_set_word)
  moreover have "mem w y = mem s y" if "in_use s y" "y \<noteq> T" for y
    using that a(2,4) by (auto simp: w_def)
  ultimately show ?thesis
    using a(2,5) by auto
qed

subsection \<open>Examples\<close>

lemma clone_entries_skip:
  "(\<And>j. j \<in> set js \<Longrightarrow> \<not> entry_present (mem s S j)) \<Longrightarrow> clone_entries s S T k base 0 js = Some s"
  by (induction js) (auto simp: clone_entry_def is_stack_page_def)

lemma clone_user_skip:
  "(\<And>k. k \<in> set ks \<Longrightarrow> \<not> entry_present (mem s D k)) \<Longrightarrow> clone_user_entries s D d base 0 ks = Some s"
  by (induction ks) (auto simp: clone_user_entry_def paging_get_page_table_from_pde_def Let_def)

lemma tiny_user_ok: "user_ok tiny_paging 0x1000"
proof -
  have p: "entry_present (mem tiny_paging 0x1000 i) \<longleftrightarrow> i = 1" "entry_present (mem tiny_paging 0x2000 i) \<longleftrightarrow> i = 0" for i
    using tiny_align by (simp_all add: tiny_table)
  have t: "table_of tiny_paging 0x1000 1 = 0x2000"
    using tiny_align by (simp add: table_of_def tiny_table)
  have "dir_ok tiny_paging 0x1000"
    using tiny_ok by (simp add: paging_ok_def tiny_paging_def)
  then show ?thesis
    unfolding user_ok_def Let_def using p t tiny_in_use tiny_align by (auto simp: tiny_table)
qed

lemma tiny_refcount: "\<exists>p. pmm_inc_refcount (snd (pmm_alloc_page (snd (pmm_alloc_page tiny_pmm)))) 0x3000 = Some (2, p)"
proof -
  have "map_option fst (pmm_inc_refcount (snd (pmm_alloc_page (snd (pmm_alloc_page tiny_pmm)))) 0x3000) = Some 2"
    by code_simp
  then show ?thesis
    by (auto simp: map_option_eq_Some)
qed

lemma tiny_clone: "\<exists>d t. paging_clone_directory tiny_paging 0x1000 True 0 0 = Some (d, t)"
proof -
  let ?D = "0x1000 :: u32"
  obtain q where q: "pmm_alloc_page tiny_pmm = (0x4000, q)"
    using tiny_alloc by (metis prod.collapse)
  obtain r where r: "pmm_alloc_page q = (0x5000, r)"
    using tiny_alloc_more(1) q by (metis prod.collapse snd_conv)
  obtain p where p: "pmm_inc_refcount r 0x3000 = Some (2, p)"
    using tiny_refcount q r by auto
  define v where "v = set_word (clear_page (tiny_paging\<lparr>pmm_of := q\<rparr>) 0x4000) 0x4000 0 0"
  define w where "w = copy_present_entries (copy_present_entries v 0x4000 ?D [768..<1024]) 0x4000 ?D [256..<768]"
  have pm: "pmm_of v = q" "mem v ?D = mem tiny_paging ?D" "mem v 0x2000 = mem tiny_paging 0x2000"
    by (simp_all add: v_def)
  have w: "pmm_of w = q" "mem w ?D = mem tiny_paging ?D" "mem w 0x2000 = mem tiny_paging 0x2000"
    using copy_present_ok [of ?D "0x4000" v "[768..<1024]"] pm
      copy_present_ok [of ?D "0x4000" "copy_present_entries v 0x4000 ?D [768..<1024]" "[256..<768]"] by (simp_all add: w_def)
  define x where "x = clear_page (w\<lparr>pmm_of := r\<rparr>) 0x5000"
  have x: "pmm_of x = r" "mem x ?D = mem tiny_paging ?D" "mem x 0x2000 = mem tiny_paging 0x2000"
    using w by (simp_all add: x_def)
  obtain y where y: "clone_cow_entry x 0x2000 0x5000 0 = Some y" and y2: "mem y 0x2000 = (mem x 0x2000)(0 := cowed 0x3007)"
    and yD: "mem y ?D = mem x ?D"
  proof -
    have "clone_cow_entry x 0x2000 0x5000 0 = Some (set_word (set_word (set_word (x\<lparr>pmm_of := p\<rparr>) 0x5000 0 0x3007) 0x2000 0 (cowed 0x3007))
        0x5000 0 (cowed 0x3007))"
      using p x tiny_align by (simp add: clone_cow_entry_def frame_addr tiny_table Let_def cowed_def mem_set_word)
    then show thesis
      using that by (simp add: set_word_def)
  qed
  have "clone_entries x 0x2000 0x5000 1 0 0 (0 # [1..<1024]) = Some y"
    using y x tiny_align clone_entries_skip [of "[1..<1024]" y "0x2000" "0x5000" 1 0]
    by (simp add: clone_entry_def is_stack_page_def tiny_table y2)
  then have "paging_clone_page_table w 0x2000 1 0 0 = Some (0x5000, y)"
    using w r upt_conv_Cons [of 0 1024] by (simp add: paging_clone_page_table_def alloc_frame_def x_def Let_def)
  then have "clone_user_entry w ?D 0x4000 0 0 1 = Some (set_word y 0x4000 1 (set_frame 5 0x2007))"
    using w x yD tiny_align by (simp add: clone_user_entry_def paging_get_page_table_from_pde_def frame_addr tiny_table Let_def)
  moreover have "clone_user_entries (set_word y 0x4000 1 (set_frame 5 0x2007)) ?D 0x4000 0 0 [2..<256] =
      Some (set_word y 0x4000 1 (set_frame 5 0x2007))"
    by (rule clone_user_skip) (simp add: yD x tiny_table)
  ultimately have "clone_user_entries w ?D 0x4000 0 0 (1 # [2..<256]) = Some (set_word y 0x4000 1 (set_frame 5 0x2007))"
    by simp
  then have "clone_user_entries w ?D 0x4000 0 0 [1..<256] = Some (set_word y 0x4000 1 (set_frame 5 0x2007))"
    using upt_conv_Cons [of 1 256] by (simp add: numeral_2_eq_2)
  moreover have "pmm_of tiny_paging = tiny_pmm" "mem tiny_paging ?D 0 = 0"
    by (simp_all add: tiny_paging_def)
  ultimately show ?thesis
    using q unfolding paging_clone_directory_def paging_create_directory_def alloc_frame_def user_pd_range kernel_pd_ranges
    by (simp add: v_def [symmetric] w_def [symmetric] Let_def)
qed

definition tiny_cow :: paging where
  "tiny_cow = set_word tiny_paging 0x2000 0 0x3205"

lemma tiny_cow_table: "mem tiny_cow 0x1000 i = (if i = 1 then 0x2007 else 0)" "mem tiny_cow 0x2000 i = (if i = 0 then 0x3205 else 0)"
  by (simp_all add: tiny_cow_def tiny_table mem_set_word)

lemma tiny_cow_entry: "entry_present 0x3205" "entry_cow 0x3205" "paging_align_down 0x3205 = 0x3000"
  by code_simp+

lemma tiny_cow_ok: "user_ok tiny_cow 0x1000" "pmm_own (pmm_of tiny_cow)" "current_page_directory tiny_cow = 0x1000"
proof -
  have p: "entry_present (mem tiny_cow 0x1000 i) \<longleftrightarrow> i = 1" "entry_present (mem tiny_cow 0x2000 i) \<longleftrightarrow> i = 0" for i
    using tiny_align tiny_cow_entry by (simp_all add: tiny_cow_table)
  have t: "table_of tiny_cow 0x1000 1 = 0x2000"
    using tiny_align by (simp add: table_of_def tiny_cow_table)
  have use: "in_use tiny_cow x = in_use tiny_paging x" for x
    by (simp add: in_use_def tiny_cow_def)
  show "user_ok tiny_cow 0x1000"
    unfolding user_ok_def dir_ok_def Let_def using p t tiny_in_use tiny_cow_entry use by (auto simp: tiny_cow_table)
  show "pmm_own (pmm_of tiny_cow)" "current_page_directory tiny_cow = 0x1000"
    using tiny_own by (simp_all add: tiny_cow_def tiny_paging_def)
qed

subsection \<open>Properties\<close>

text \<open>C26. Copying an address space (\<open>fork\<close>): when \<open>paging_clone_directory\<close> returns, the child's directory is new,
  the parent still maps and sees exactly what it did, the child maps the kernel's addresses as the parent
  does and sees the parent's contents at every user page outside the stack, and these pages are read-only and marked
  copy-on-write on both sides. A stack page of the child is writable and lies in a frame that was free before, with the
  contents of the parent's page, or zeros where the parent had none. (A stack that leaves the 4 MiB area in which it
  begins is only covered where the parent already has a table.)\<close>

theorem paging_clone_directory_correct:
  assumes "pmm_own (pmm_of s)" and "user_ok s D" and "paging_clone_directory s D True base sz = Some (d, t)"
  shows "\<not> in_use s d \<and> in_use t d \<and>
    (\<forall>v. translate t D v = translate s D v) \<and>
    (\<forall>v. user_addr v \<longrightarrow> page_at t D v = page_at s D v) \<and>
    (\<forall>v. \<not> user_addr v \<longrightarrow> translate t d v = translate s D v) \<and>
    (\<forall>v. user_addr v \<longrightarrow> \<not> is_stack_page base sz (paging_align_down v) \<longrightarrow>
      translate t d v = translate s D v \<and> page_at t d v = page_at s D v \<and>
      (translate s D v \<noteq> None \<longrightarrow> shared_ro t D v \<and> shared_ro t d v)) \<and>
    (\<forall>v. user_addr v \<longrightarrow> is_stack_page base sz (paging_align_down v) \<longrightarrow>
      entry_present (mem s D (paging_get_pd_index v)) \<or> contains_stack (paging_get_pd_index v) base sz \<longrightarrow>
      private_rw t d v \<and> (\<exists>f. translate t d v = Some f \<and> \<not> in_use s f \<and> in_use t f \<and>
        mem t f = (case page_at s D v of None \<Rightarrow> (\<lambda>k. 0) | Some c \<Rightarrow> c)))"
proof -
  have "page_at t d v = page_at s D v" if "user_addr v" "\<not> is_stack_page base sz (paging_align_down v)" for v
  proof -
    have "page_at t d v = page_at t D v"
      using clone_child_user(1) [OF assms that] clone_keeps_parent(1) [OF assms, of v] by (simp add: page_at_def)
    then show ?thesis
      using clone_keeps_parent(2) [OF assms that(1)] by simp
  qed
  then show ?thesis
    using clone_directory_ok(1,2) [OF assms] clone_keeps_parent [OF assms] clone_child_kernel [OF assms] clone_child_user [OF assms]
      clone_child_stack [OF assms] by blast
qed

theorem paging_clone_directory_correct_witness:
  "\<exists>d t. paging_clone_directory tiny_paging 0x1000 True 0 0 = Some (d, t) \<and> translate t d 0x400000 = Some 0x3000 \<and>
    shared_ro t d 0x400000 \<and> shared_ro t 0x1000 0x400000"
proof -
  obtain d t where c: "paging_clone_directory tiny_paging 0x1000 True 0 0 = Some (d, t)"
    using tiny_clone by blast
  have own: "pmm_own (pmm_of tiny_paging)"
    using tiny_own by (simp add: tiny_paging_def)
  have v: "user_addr 0x400000" "\<not> is_stack_page 0 0 (paging_align_down 0x400000)"
    "paging_get_pd_index 0x400000 = 1" "paging_get_pt_index 0x400000 = 0"
    by code_simp+
  have "translate tiny_paging 0x1000 0x400000 = Some 0x3000"
    using tiny_align by (simp add: translate_def leaf_def table_of_def tiny_table v)
  then show ?thesis
    using paging_clone_directory_correct [OF own tiny_user_ok c] v(1,2) c by simp
qed



end
