(* ===== verification/Vmm.thy ===== *)
theory Vmm
  imports Paging Dll
begin

section \<open>The virtual memory manager\<close>

text \<open>
  \<open>kernel/kernel/memory/vmm.c\<close>: the kernel's virtual address space as a sorted doubly linked list of
  regions, free or in use, whose pages are mapped through \<open>Paging\<close> to frames of the physical
  memory manager.

  A region structure lives in the bootstrap pool or in the dedicated page, so a pointer is \<open>RNull\<close>,
  \<open>Boot i\<close> or \<open>Dyn i\<close>. The loops that follow \<open>next\<close> pointers are partial functions: \<open>None\<close> means that the
  list is cyclic and the loop does not end. The spin lock makes each call atomic and is left out, as is
  the debug output.
\<close>

subsection \<open>Regions\<close>

datatype rptr = RNull | Boot nat | Dyn nat

record vmm_region =
  r_start :: u32
  r_end :: u32
  r_flags :: u32
  is_free :: bool
  r_next :: rptr
  r_prev :: rptr

record vmm =
  pg :: paging
  region :: "rptr \<Rightarrow> vmm_region"
  region_list :: rptr
  bootstrap_pool_index :: nat
  use_dynamic_allocation :: bool
  vmm_region_page_phys :: u32
  vmm_region_page_index :: nat
  vmm_region_free_list :: rptr
  total_regions_created :: u32
  total_regions_destroyed :: u32
  bootstrap_regions_created :: u32
  dynamic_regions_created :: u32

definition VMM_BOOTSTRAP_POOL_SIZE :: nat where "VMM_BOOTSTRAP_POOL_SIZE = 32"

text \<open>A region structure takes 24 bytes.\<close>

definition VMM_REGIONS_PER_PAGE :: nat where "VMM_REGIONS_PER_PAGE = 4096 div 24"

definition VMM_PRESENT :: u32 where "VMM_PRESENT = 1"

definition VMM_WRITE :: u32 where "VMM_WRITE = 2"

definition VMM_USER :: u32 where "VMM_USER = 4"

definition VMM_KERNEL :: u32 where "VMM_KERNEL = 0"

definition is_kernel_address :: "u32 \<Rightarrow> bool" where
  "is_kernel_address addr \<longleftrightarrow>
     (addr \<ge> VMM_KERNEL_START \<and> addr < VMM_USER_START) \<or> (addr \<ge> VMM_KERNEL_HEAP \<and> addr < VMM_KERNEL_END)"

definition put_next :: "rptr \<Rightarrow> rptr \<Rightarrow> vmm \<Rightarrow> vmm" where
  "put_next p q s = s\<lparr>region := (region s)(p := (region s p)\<lparr>r_next := q\<rparr>)\<rparr>"

definition put_prev :: "rptr \<Rightarrow> rptr \<Rightarrow> vmm \<Rightarrow> vmm" where
  "put_prev p q s = s\<lparr>region := (region s)(p := (region s p)\<lparr>r_prev := q\<rparr>)\<rparr>"

definition put_end :: "rptr \<Rightarrow> u32 \<Rightarrow> vmm \<Rightarrow> vmm" where
  "put_end p v s = s\<lparr>region := (region s)(p := (region s p)\<lparr>r_end := v\<rparr>)\<rparr>"

definition put_free :: "rptr \<Rightarrow> bool \<Rightarrow> vmm \<Rightarrow> vmm" where
  "put_free p b s = s\<lparr>region := (region s)(p := (region s p)\<lparr>is_free := b\<rparr>)\<rparr>"

definition put_flags :: "rptr \<Rightarrow> u32 \<Rightarrow> vmm \<Rightarrow> vmm" where
  "put_flags p v s = s\<lparr>region := (region s)(p := (region s p)\<lparr>r_flags := v\<rparr>)\<rparr>"

subsection \<open>Region structures\<close>

definition new_region :: "vmm \<Rightarrow> rptr \<times> vmm" where
  "new_region s =
     (if use_dynamic_allocation s then
        if vmm_region_free_list s \<noteq> RNull then
          let p = vmm_region_free_list s in
          (p, s\<lparr>vmm_region_free_list := r_next (region s p), dynamic_regions_created := dynamic_regions_created s + 1\<rparr>)
        else if vmm_region_page_index s \<ge> VMM_REGIONS_PER_PAGE then (RNull, s)
        else (Dyn (vmm_region_page_index s),
              s\<lparr>vmm_region_page_index := vmm_region_page_index s + 1, dynamic_regions_created := dynamic_regions_created s + 1\<rparr>)
      else if bootstrap_pool_index s \<ge> VMM_BOOTSTRAP_POOL_SIZE then (RNull, s)
      else (Boot (bootstrap_pool_index s),
            s\<lparr>bootstrap_pool_index := bootstrap_pool_index s + 1, bootstrap_regions_created := bootstrap_regions_created s + 1\<rparr>))"

definition vmm_create_region :: "vmm \<Rightarrow> u32 \<Rightarrow> u32 \<Rightarrow> u32 \<Rightarrow> bool \<Rightarrow> rptr \<times> vmm" where
  "vmm_create_region s start stop flags free =
     (case new_region s of (p, s) \<Rightarrow>
        if p = RNull then (RNull, s)
        else
          (p, s\<lparr>total_regions_created := total_regions_created s + 1,
                region := (region s)(p := \<lparr>r_start = start, r_end = stop, r_flags = flags, is_free = free,
                                          r_next = RNull, r_prev = RNull\<rparr>)\<rparr>))"

definition vmm_destroy_region :: "vmm \<Rightarrow> rptr \<Rightarrow> vmm" where
  "vmm_destroy_region s p =
     (case p of
        RNull \<Rightarrow> s
      | Boot i \<Rightarrow>
          if i < VMM_BOOTSTRAP_POOL_SIZE then s\<lparr>total_regions_destroyed := total_regions_destroyed s + 1\<rparr> else s
      | Dyn i \<Rightarrow>
          if use_dynamic_allocation s \<and> i < VMM_REGIONS_PER_PAGE then
            let s = put_prev p RNull (put_next p (vmm_region_free_list s) s) in
            s\<lparr>vmm_region_free_list := p, total_regions_destroyed := total_regions_destroyed s + 1\<rparr>
          else s)"

subsection \<open>The region list\<close>

text \<open>The search for the insertion point: the first region that does not start below, and its predecessor.\<close>

partial_function (option) insert_point :: "vmm \<Rightarrow> rptr \<Rightarrow> rptr \<Rightarrow> u32 \<Rightarrow> (rptr \<times> rptr) option" where
  "insert_point s current prev start =
     (if current \<noteq> RNull \<and> r_start (region s current) < start
      then insert_point s (r_next (region s current)) current start
      else Some (current, prev))"

definition vmm_insert_region :: "vmm \<Rightarrow> rptr \<Rightarrow> vmm option" where
  "vmm_insert_region s p =
     (if p = RNull then Some s
      else if region_list s = RNull then Some (s\<lparr>region_list := p\<rparr>)
      else do {
        (current, prev) \<leftarrow> insert_point s (region_list s) RNull (r_start (region s p));
        if prev = RNull then
          let s = put_next p (region_list s) s; s = put_prev (region_list s) p s in
          Some (s\<lparr>region_list := p\<rparr>)
        else
          let s = put_prev p prev s; s = put_next p current s; s = put_next prev p s in
          Some (if current \<noteq> RNull then put_prev current p s else s)
      })"

definition vmm_remove_region :: "vmm \<Rightarrow> rptr \<Rightarrow> vmm" where
  "vmm_remove_region s p =
     (if p = RNull then s
      else
        let s = (if r_prev (region s p) \<noteq> RNull then put_next (r_prev (region s p)) (r_next (region s p)) s
                 else s\<lparr>region_list := r_next (region s p)\<rparr>);
            s = (if r_next (region s p) \<noteq> RNull then put_prev (r_next (region s p)) (r_prev (region s p)) s else s) in
        vmm_destroy_region s p)"

partial_function (option) find_region_from :: "vmm \<Rightarrow> rptr \<Rightarrow> u32 \<Rightarrow> rptr option" where
  "find_region_from s p virt =
     (if p = RNull then Some RNull
      else if r_start (region s p) \<le> virt \<and> r_end (region s p) > virt then Some p
      else find_region_from s (r_next (region s p)) virt)"

definition vmm_find_region :: "vmm \<Rightarrow> u32 \<Rightarrow> rptr option" where
  "vmm_find_region s virt = find_region_from s (region_list s) virt"

partial_function (option) merge_from :: "vmm \<Rightarrow> rptr \<Rightarrow> vmm option" where
  "merge_from s p =
     (if p = RNull then Some s
      else if r_next (region s p) = RNull then Some s
      else
        let n = r_next (region s p) in
        if is_free (region s p) \<and> is_free (region s n) \<and> r_end (region s p) = r_start (region s n)
        then merge_from (vmm_remove_region (put_end p (r_end (region s n)) s) n) p
        else merge_from s n)"

definition vmm_merge_free_regions :: "vmm \<Rightarrow> vmm option" where
  "vmm_merge_free_regions s = merge_from s (region_list s)"

definition vmm_split_region :: "vmm \<Rightarrow> rptr \<Rightarrow> u32 \<Rightarrow> rptr \<times> vmm" where
  "vmm_split_region s p split_point =
     (if p = RNull \<or> split_point \<le> r_start (region s p) \<or> split_point \<ge> r_end (region s p) then (RNull, s)
      else case vmm_create_region s split_point (r_end (region s p)) (r_flags (region s p)) (is_free (region s p)) of
        (q, s) \<Rightarrow>
          if q = RNull then (RNull, s)
          else
            let s = put_end p split_point s;
                s = put_next q (r_next (region s p)) s;
                s = put_prev q p s;
                s = put_next p q s;
                s = (if r_next (region s q) \<noteq> RNull then put_prev (r_next (region s q)) q s else s) in
            (p, s))"

subsection \<open>Mapping\<close>

fun unmap_pages :: "paging \<Rightarrow> u32 \<Rightarrow> nat \<Rightarrow> paging" where
  "unmap_pages g v 0 = g"
| "unmap_pages g v (Suc n) =
     (let phys = paging_get_physical_address g v;
          g = (if phys \<noteq> 0 then free_frame g phys else g) in
      unmap_pages (paging_unmap_page g v) (v + PAGE_SIZE) n)"

definition vmm_unmap_region :: "vmm \<Rightarrow> u32 \<Rightarrow> u32 \<Rightarrow> bool \<times> vmm" where
  "vmm_unmap_region s virt pages =
     (if virt = 0 \<or> pages = 0 then (False, s)
      else if \<not> paging_is_aligned virt then (False, s)
      else (True, s\<lparr>pg := unmap_pages (pg s) virt (unat pages)\<rparr>))"

fun unmap_only :: "paging \<Rightarrow> u32 \<Rightarrow> nat \<Rightarrow> paging" where
  "unmap_only g v 0 = g"
| "unmap_only g v (Suc n) = unmap_only (paging_unmap_page g v) (v + PAGE_SIZE) n"

fun map_pages :: "paging \<Rightarrow> u32 \<Rightarrow> u32 \<Rightarrow> u32 \<Rightarrow> nat \<Rightarrow> nat \<Rightarrow> bool \<times> paging" where
  "map_pages g virt phys flags i 0 = (True, g)"
| "map_pages g virt phys flags i (Suc n) =
     (case paging_map_page g (virt + of_nat i * PAGE_SIZE) (phys + of_nat i * PAGE_SIZE) flags of
        (False, g) \<Rightarrow> (False, unmap_only g virt i)
      | (True, g) \<Rightarrow> map_pages g virt phys flags (i + 1) n)"

definition vmm_map_region :: "vmm \<Rightarrow> u32 \<Rightarrow> u32 \<Rightarrow> u32 \<Rightarrow> u32 \<Rightarrow> bool \<times> vmm" where
  "vmm_map_region s virt phys pages flags =
     (if virt = 0 \<or> pages = 0 then (False, s)
      else if \<not> paging_is_aligned virt \<or> \<not> paging_is_aligned phys then (False, s)
      else case map_pages (pg s) virt phys flags 0 (unat pages) of (b, g) \<Rightarrow> (b, s\<lparr>pg := g\<rparr>))"

subsection \<open>Allocation\<close>

text \<open>The scan of the list stops at the first free region that is large enough and of the requested kind.\<close>

definition suitable :: "vmm_region \<Rightarrow> u32 \<Rightarrow> u32 \<Rightarrow> bool" where
  "suitable r sz flags \<longleftrightarrow> is_free r \<and> r_end r - r_start r \<ge> sz \<and>
     (\<not> (flags AND VMM_USER \<noteq> 0)) = is_kernel_address (r_start r)"

partial_function (option) scan :: "vmm \<Rightarrow> rptr \<Rightarrow> u32 \<Rightarrow> u32 \<Rightarrow> rptr option" where
  "scan s p sz flags =
     (if p = RNull then Some RNull
      else if suitable (region s p) sz flags then Some p
      else scan s (r_next (region s p)) sz flags)"

text \<open>The region at the found place: the whole region or its front part. \<open>False\<close> when the region cannot be split.\<close>

definition take_region :: "vmm \<Rightarrow> rptr \<Rightarrow> u32 \<Rightarrow> u32 \<Rightarrow> bool \<times> vmm" where
  "take_region s p sz flags =
     (let alloc_start = r_start (region s p); alloc_end = alloc_start + sz in
      if r_end (region s p) - r_start (region s p) = sz
      then (True, put_flags p (flags OR VMM_PRESENT) (put_free p False s))
      else case vmm_split_region s p alloc_end of (allocated, s) \<Rightarrow>
        if allocated \<noteq> RNull
        then (True, put_flags allocated (flags OR VMM_PRESENT) (put_free allocated False s))
        else (False, s))"

text \<open>The loop that backs the region with frames; when a frame or a table is missing, what was mapped so far is
  unmapped again and the number of pages already done is reported.\<close>

fun back_pages :: "paging \<Rightarrow> u32 \<Rightarrow> u32 \<Rightarrow> nat \<Rightarrow> nat \<Rightarrow> (nat \<times> paging) + paging" where
  "back_pages g alloc_start flags i 0 = Inr g"
| "back_pages g alloc_start flags i (Suc n) =
     (case alloc_frame g of (phys, g) \<Rightarrow>
        if phys = 0 then Inl (i, g)
        else
          let page_flags = 3 OR (if flags AND VMM_USER \<noteq> 0 then 4 else 0) in
          case paging_map_page g (alloc_start + of_nat i * PAGE_SIZE) phys page_flags of
            (False, g) \<Rightarrow> Inl (i, free_frame g phys)
          | (True, g) \<Rightarrow> back_pages g alloc_start flags (i + 1) n)"

definition give_back :: "vmm \<Rightarrow> u32 \<Rightarrow> nat \<Rightarrow> vmm option" where
  "give_back s alloc_start i =
     do {
       let s = snd (vmm_unmap_region s alloc_start (of_nat i));
       r \<leftarrow> vmm_find_region s alloc_start;
       if r \<noteq> RNull then vmm_merge_free_regions (put_free r True s) else Some s
     }"

definition vmm_alloc :: "vmm \<Rightarrow> u32 \<Rightarrow> u32 \<Rightarrow> (u32 \<times> vmm) option" where
  "vmm_alloc s pages flags =
     (if pages = 0 then Some (0, s)
      else do {
        let sz = pages * PAGE_SIZE;
        p \<leftarrow> scan s (region_list s) sz flags;
        if p = RNull then Some (0, s)
        else
          let alloc_start = r_start (region s p) in
          case take_region s p sz flags of
            (False, s) \<Rightarrow> Some (0, s)
          | (True, s) \<Rightarrow>
              (case back_pages (pg s) alloc_start flags 0 (unat pages) of
                 Inl (i, g) \<Rightarrow> do { s \<leftarrow> give_back (s\<lparr>pg := g\<rparr>) alloc_start i; Some (0, s) }
               | Inr g \<Rightarrow> Some (alloc_start, s\<lparr>pg := g\<rparr>))
      })"

definition vmm_free :: "vmm \<Rightarrow> u32 \<Rightarrow> u32 \<Rightarrow> (bool \<times> vmm) option" where
  "vmm_free s virt pages =
     (if virt = 0 \<or> pages = 0 then Some (False, s)
      else if \<not> paging_is_aligned virt then Some (False, s)
      else do {
        p \<leftarrow> vmm_find_region s virt;
        if p = RNull then Some (False, s)
        else if is_free (region s p) then Some (False, s)
        else
          let sz = pages * PAGE_SIZE in
          if r_end (region s p) - r_start (region s p) \<noteq> sz then Some (False, s)
          else do {
            let s = snd (vmm_unmap_region s virt pages);
            s \<leftarrow> vmm_merge_free_regions (put_free p True s);
            Some (True, s)
          }
      })"

definition vmm_kernel_alloc :: "vmm \<Rightarrow> u32 \<Rightarrow> (u32 \<times> vmm) option" where
  "vmm_kernel_alloc s sz =
     (if sz = 0 then Some (0, s)
      else
        let aligned_size = paging_align_up sz; pages = aligned_size div PAGE_SIZE in
        vmm_alloc s pages (VMM_KERNEL OR VMM_WRITE))"

definition vmm_kernel_free :: "vmm \<Rightarrow> u32 \<Rightarrow> u32 \<Rightarrow> vmm option" where
  "vmm_kernel_free s ptr sz =
     (if ptr = 0 \<or> sz = 0 then Some s
      else
        let aligned_size = paging_align_up sz; pages = aligned_size div PAGE_SIZE in
        do { (_, s) \<leftarrow> vmm_free s ptr pages; Some s })"

subsection \<open>Queries\<close>

partial_function (option) range_free_from :: "vmm \<Rightarrow> rptr \<Rightarrow> u32 \<Rightarrow> u32 \<Rightarrow> bool option" where
  "range_free_from s p virt stop =
     (if p = RNull then Some False
      else if is_free (region s p) \<and> r_start (region s p) \<le> virt \<and> r_end (region s p) \<ge> stop then Some True
      else range_free_from s (r_next (region s p)) virt stop)"

definition vmm_is_range_free :: "vmm \<Rightarrow> u32 \<Rightarrow> u32 \<Rightarrow> bool option" where
  "vmm_is_range_free s virt pages =
     (let sz = pages * PAGE_SIZE; stop = virt + sz in range_free_from s (region_list s) virt stop)"

partial_function (option) free_region_from :: "vmm \<Rightarrow> rptr \<Rightarrow> u32 \<Rightarrow> u32 option" where
  "free_region_from s p sz =
     (if p = RNull then Some 0
      else if is_free (region s p) \<and> r_end (region s p) - r_start (region s p) \<ge> sz then Some (r_start (region s p))
      else free_region_from s (r_next (region s p)) sz)"

definition vmm_find_free_region :: "vmm \<Rightarrow> u32 \<Rightarrow> u32 option" where
  "vmm_find_free_region s pages = free_region_from s (region_list s) (pages * PAGE_SIZE)"

record vmm_stats =
  total_virtual_space :: u32
  used_virtual_space :: u32
  free_virtual_space :: u32
  num_regions :: u32
  num_free_regions :: u32
  num_used_regions :: u32
  kernel_heap_start :: u32
  kernel_heap_current :: u32

definition count_region :: "vmm_region \<Rightarrow> vmm_stats \<Rightarrow> vmm_stats" where
  "count_region r st =
     (let region_size = r_end r - r_start r;
          st = st\<lparr>total_virtual_space := total_virtual_space st + region_size, num_regions := num_regions st + 1\<rparr> in
      if is_free r
      then st\<lparr>free_virtual_space := free_virtual_space st + region_size, num_free_regions := num_free_regions st + 1\<rparr>
      else st\<lparr>used_virtual_space := used_virtual_space st + region_size, num_used_regions := num_used_regions st + 1\<rparr>)"

partial_function (option) stats_from :: "vmm \<Rightarrow> rptr \<Rightarrow> vmm_stats \<Rightarrow> vmm_stats option" where
  "stats_from s p st =
     (if p = RNull then Some st else stats_from s (r_next (region s p)) (count_region (region s p) st))"

definition vmm_get_stats :: "vmm \<Rightarrow> vmm_stats option" where
  "vmm_get_stats s =
     stats_from s (region_list s)
       \<lparr>total_virtual_space = 0, used_virtual_space = 0, free_virtual_space = 0, num_regions = 0, num_free_regions = 0,
        num_used_regions = 0, kernel_heap_start = VMM_KERNEL_HEAP, kernel_heap_current = 0\<rparr>"

subsection \<open>Start-up\<close>

definition vmm_enable_dynamic_allocation :: "vmm \<Rightarrow> vmm" where
  "vmm_enable_dynamic_allocation s =
     (if use_dynamic_allocation s then s
      else case alloc_frame (pg s) of (phys, g) \<Rightarrow>
        let s = s\<lparr>pg := g, vmm_region_page_phys := phys\<rparr> in
        if phys = 0 then s else s\<lparr>vmm_region_page_index := 0, use_dynamic_allocation := True\<rparr>)"

definition vmm_init :: "vmm \<Rightarrow> vmm option" where
  "vmm_init s =
     (case vmm_create_region s VMM_KERNEL_START VMM_USER_START (VMM_KERNEL OR VMM_WRITE OR VMM_PRESENT) False of (p, s) \<Rightarrow>
        if p = RNull then Some s
        else do {
          s \<leftarrow> vmm_insert_region s p;
          case vmm_create_region s VMM_USER_START VMM_USER_END (VMM_USER OR VMM_WRITE) True of (q, s) \<Rightarrow>
            if q = RNull then Some s
            else do {
              s \<leftarrow> vmm_insert_region s q;
              case vmm_create_region s VMM_KERNEL_HEAP VMM_KERNEL_END (VMM_KERNEL OR VMM_WRITE) True of (r, s) \<Rightarrow>
                if r = RNull then Some s else vmm_insert_region s r
            }
        })"

declare insert_point.simps [code] find_region_from.simps [code] merge_from.simps [code] scan.simps [code]
  range_free_from.simps [code] free_region_from.simps [code] stats_from.simps [code]

subsection \<open>The list of areas\<close>

text \<open>What a region list stands for: the list of its areas, each with its bounds, its flags and whether it is free.\<close>

type_synonym area = "u32 \<times> u32 \<times> u32 \<times> bool"

definition area_of :: "vmm_region \<Rightarrow> area" where
  "area_of r = (r_start r, r_end r, r_flags r, is_free r)"

definition areas :: "vmm \<Rightarrow> rptr list \<Rightarrow> area list" where
  "areas s ps = map (\<lambda>p. area_of (region s p)) ps"

lemma areas_simps [simp]:
  "areas s [] = []" "areas s (p # ps) = area_of (region s p) # areas s ps" "areas s (ps @ qs) = areas s ps @ areas s qs"
  by (simp_all add: areas_def)

fun spaced :: "area list \<Rightarrow> bool" where
  "spaced [] \<longleftrightarrow> True"
| "spaced [(a, b, _)] \<longleftrightarrow> a < b"
| "spaced ((a, b, _) # (c, y) # xs) \<longleftrightarrow> a < b \<and> b \<le> c \<and> spaced ((c, y) # xs)"

text \<open>Merging adjacent free areas, as a function on lists.\<close>

fun merge_areas :: "area list \<Rightarrow> area list" where
  "merge_areas ((a, b, fl, f) # (c, d, fl', f') # xs) =
     (if f \<and> f' \<and> b = c then merge_areas ((a, d, fl, f) # xs)
      else (a, b, fl, f) # merge_areas ((c, d, fl', f') # xs))"
| "merge_areas xs = xs"

definition used_areas :: "area list \<Rightarrow> area list" where
  "used_areas xs = filter (\<lambda>(a, b, fl, f). \<not> f) xs"

lemma used_merge: "used_areas (merge_areas xs) = used_areas xs"
  by (induction xs rule: merge_areas.induct) (auto simp: used_areas_def)

lemma spaced_Cons: "spaced ((a, b, x) # xs) \<longleftrightarrow> a < b \<and> (case xs of [] \<Rightarrow> True | (c, _) # _ \<Rightarrow> b \<le> c) \<and> spaced xs"
  by (cases xs) auto

lemma merge_head: "\<exists>b' x' ys. merge_areas ((a, b, x) # xs) = (a, b', x') # ys"
proof (induction xs arbitrary: b x)
  case (Cons y xs)
  obtain c d fl f where y: "y = (c, d, fl, f)" by (cases y)
  obtain fl' f' where x: "x = (fl', f')" by (cases x)
  show ?case
    using Cons [of d x] by (cases "f' \<and> f \<and> b = c") (auto simp: y x)
qed simp

lemma spaced_merge: "spaced xs \<Longrightarrow> spaced (merge_areas xs)"
proof (induction xs rule: merge_areas.induct)
  case (1 a b fl f c d fl' f' xs)
  show ?case
  proof (cases "f \<and> f' \<and> b = c")
    case True
    have "spaced ((a, d, fl, f) # xs)"
      using 1(3) True by (auto simp: spaced_Cons split: list.splits)
    then show ?thesis
      using 1(1) [OF True] True by simp
  next
    case False
    obtain b' x' ys where m: "merge_areas ((c, d, fl', f') # xs) = (c, b', x') # ys"
      using merge_head by blast
    show ?thesis
      using 1(2) [OF False] 1(3) False m by (auto simp: spaced_Cons)
  qed
qed simp_all

lemma spaced_append:
  "spaced (xs @ (a, b, x) # ys) \<Longrightarrow>
    a < b \<and> (\<forall>(c, d, z)\<in>set xs. c < d \<and> d \<le> a) \<and> (\<forall>(c, d, z)\<in>set ys. c < d \<and> b \<le> c)"
proof (induction xs)
  case Nil
  then show ?case
  proof (induction ys arbitrary: a b x)
    case (Cons y ys)
    obtain c d z where y: "y = (c, d, z)" by (cases y)
    have s: "spaced ((c, d, z) # ys)" "a < b" "b \<le> c"
      using Cons.prems by (simp_all add: y spaced_Cons)
    have "c < d \<and> (\<forall>(e, f, w)\<in>set ys. e < f \<and> d \<le> e)"
      using Cons.IH [of c d z] s(1) by simp
    then show ?case
      using s y by fastforce
  qed simp
next
  case (Cons y xs)
  obtain c d z where y: "y = (c, d, z)" by (cases y)
  have ih: "a < b \<and> (\<forall>(c, d, z)\<in>set xs. c < d \<and> d \<le> a) \<and> (\<forall>(c, d, z)\<in>set ys. c < d \<and> b \<le> c)"
    using Cons by (simp add: y spaced_Cons)
  have "c < d \<and> d \<le> a"
  proof (cases xs)
    case Nil
    then show ?thesis
      using Cons.prems by (simp add: y)
  next
    case (Cons w ws)
    obtain e f u where w: "w = (e, f, u)" by (cases w)
    have "c < d" "d \<le> e"
      using \<open>spaced ((y # xs) @ (a, b, x) # ys)\<close> by (simp_all add: y Cons w)
    moreover have "e < f" "f \<le> a"
      using ih Cons w by auto
    ultimately show ?thesis
      by auto
  qed
  then show ?case
    using ih y by simp
qed

subsection \<open>The region list as a doubly linked list\<close>

abbreviation rnext :: "vmm \<Rightarrow> rptr \<Rightarrow> rptr" where "rnext s \<equiv> \<lambda>p. r_next (region s p)"
abbreviation rprev :: "vmm \<Rightarrow> rptr \<Rightarrow> rptr" where "rprev s \<equiv> \<lambda>p. r_prev (region s p)"

definition rlist :: "vmm \<Rightarrow> rptr list \<Rightarrow> bool" where
  "rlist s ps \<longleftrightarrow> dll (rnext s) (rprev s) RNull RNull (region_list s) ps \<and> distinct ps"

fun chain :: "vmm \<Rightarrow> rptr \<Rightarrow> rptr list \<Rightarrow> bool" where
  "chain s h [] \<longleftrightarrow> h = RNull"
| "chain s h (x # xs) \<longleftrightarrow> h = x \<and> x \<noteq> RNull \<and> chain s (r_next (region s x)) xs"

text \<open>The structures handed out so far (\<open>P\<close>) are all below the pool indices and none of them is on the free list.\<close>

definition taken :: "vmm \<Rightarrow> rptr \<Rightarrow> bool" where
  "taken s p \<longleftrightarrow> (case p of RNull \<Rightarrow> False | Boot i \<Rightarrow> i < bootstrap_pool_index s | Dyn i \<Rightarrow> i < vmm_region_page_index s)"

definition pool_ok :: "vmm \<Rightarrow> rptr set \<Rightarrow> bool" where
  "pool_ok s P \<longleftrightarrow>
     (\<forall>p\<in>P. taken s p) \<and> bootstrap_pool_index s \<le> VMM_BOOTSTRAP_POOL_SIZE \<and>
     vmm_region_page_index s \<le> VMM_REGIONS_PER_PAGE \<and>
     (use_dynamic_allocation s \<or> vmm_region_page_index s = 0) \<and>
     (\<exists>fs. chain s (vmm_region_free_list s) fs \<and> distinct fs \<and> (\<forall>p\<in>set fs. p \<notin> P \<and> (\<exists>i. p = Dyn i \<and> taken s p)))"

lemma chain_cong: "(\<And>p. p \<in> set fs \<Longrightarrow> r_next (region t p) = r_next (region s p)) \<Longrightarrow> chain t h fs = chain s h fs"
  by (induction fs arbitrary: h) auto

lemma taken_cong:
  "bootstrap_pool_index t = bootstrap_pool_index s \<Longrightarrow> vmm_region_page_index t = vmm_region_page_index s \<Longrightarrow>
    taken t p = taken s p"
  by (simp add: taken_def split: rptr.splits)

lemma pool_ok_frame:
  assumes "pool_ok s P" and "\<And>p. p \<notin> P \<Longrightarrow> r_next (region t p) = r_next (region s p)"
    and "bootstrap_pool_index t = bootstrap_pool_index s" "vmm_region_page_index t = vmm_region_page_index s"
    and "use_dynamic_allocation t = use_dynamic_allocation s" "vmm_region_free_list t = vmm_region_free_list s"
  shows "pool_ok t P"
proof -
  obtain fs where fs: "chain s (vmm_region_free_list s) fs" "distinct fs"
      "\<forall>p\<in>set fs. p \<notin> P \<and> (\<exists>i. p = Dyn i \<and> taken s p)"
    using assms(1) by (auto simp: pool_ok_def)
  have "chain t (vmm_region_free_list s) fs"
    using fs assms(2) chain_cong [of fs t s] by simp
  then show ?thesis
    using assms fs by (auto simp: pool_ok_def taken_cong [OF assms(3,4)])
qed

lemma create_region_ok:
  assumes "pool_ok s P" and "vmm_create_region s a b fl fr = (q, t)"
  shows "q = RNull \<and> t = s \<or>
         q \<noteq> RNull \<and> q \<notin> P \<and> pg t = pg s \<and> region_list t = region_list s \<and>
         region t = (region s)(q := \<lparr>r_start = a, r_end = b, r_flags = fl, is_free = fr, r_next = RNull, r_prev = RNull\<rparr>) \<and>
         pool_ok t (insert q P)"
proof (cases "q = RNull")
  case True
  then show ?thesis
    using assms(2) by (auto simp: vmm_create_region_def new_region_def Let_def split: if_splits)
next
  case False
  let ?r = "\<lparr>r_start = a, r_end = b, r_flags = fl, is_free = fr, r_next = RNull, r_prev = RNull\<rparr>"
  obtain fs where fs: "chain s (vmm_region_free_list s) fs" "distinct fs"
      "\<forall>p\<in>set fs. p \<notin> P \<and> (\<exists>i. p = Dyn i \<and> taken s p)"
    using assms(1) by (auto simp: pool_ok_def)
  have P: "\<forall>p\<in>P. taken s p" "bootstrap_pool_index s \<le> VMM_BOOTSTRAP_POOL_SIZE"
      "vmm_region_page_index s \<le> VMM_REGIONS_PER_PAGE" "use_dynamic_allocation s \<or> vmm_region_page_index s = 0"
    using assms(1) by (auto simp: pool_ok_def)
  have basic: "pg t = pg s" "region_list t = region_list s" "region t = (region s)(q := ?r)"
    using assms(2) False by (auto simp: vmm_create_region_def new_region_def Let_def split: if_splits)
  consider (list) f fs' where "use_dynamic_allocation s" "fs = f # fs'" | (page) "use_dynamic_allocation s" "fs = []" | (boot) "\<not> use_dynamic_allocation s"
    by (cases fs) auto
  then have "q \<notin> P \<and> pool_ok t (insert q P)"
  proof cases
    case list
    then have q: "q = f" "q \<in> set fs" and t: "vmm_region_free_list t = r_next (region s f)"
        "bootstrap_pool_index t = bootstrap_pool_index s" "vmm_region_page_index t = vmm_region_page_index s"
        "use_dynamic_allocation t"
      using assms(2) fs(1) by (auto simp: vmm_create_region_def new_region_def Let_def split: if_splits)
    have "r_next (region t p) = r_next (region s p)" if "p \<in> set fs'" for p
      using that fs(2) list(2) q(1) by (auto simp: basic)
    then have "chain t (r_next (region s f)) fs'"
      using fs(1) list(2) chain_cong [of fs' t s] by simp
    then show ?thesis
      using fs q t P list by (auto simp: pool_ok_def taken_cong [OF t(2,3)] intro!: exI [of _ fs'])
  next
    case page
    then have q: "q = Dyn (vmm_region_page_index s)" and t: "vmm_region_free_list t = vmm_region_free_list s"
        "bootstrap_pool_index t = bootstrap_pool_index s" "vmm_region_page_index t = Suc (vmm_region_page_index s)"
        "use_dynamic_allocation t" "vmm_region_page_index s < VMM_REGIONS_PER_PAGE"
      using assms(2) fs(1) False by (auto simp: vmm_create_region_def new_region_def Let_def split: if_splits)
    have "taken s p \<Longrightarrow> taken t p" for p
      using t by (auto simp: taken_def split: rptr.splits)
    moreover have "taken t q" "\<not> taken s q"
      by (simp_all add: taken_def q t)
    ultimately show ?thesis
      using fs page(2) t P by (auto simp: pool_ok_def intro!: exI [of _ "[]"])
  next
    case boot
    then have q: "q = Boot (bootstrap_pool_index s)" and t: "vmm_region_free_list t = vmm_region_free_list s"
        "bootstrap_pool_index t = Suc (bootstrap_pool_index s)" "vmm_region_page_index t = vmm_region_page_index s"
        "\<not> use_dynamic_allocation t" "bootstrap_pool_index s < VMM_BOOTSTRAP_POOL_SIZE"
      using assms(2) False by (auto simp: vmm_create_region_def new_region_def Let_def split: if_splits)
    have mono: "taken s p \<Longrightarrow> taken t p" for p
      using t by (auto simp: taken_def split: rptr.splits)
    have tq: "taken t q" "\<not> taken s q"
      by (simp_all add: taken_def q t)
    have "r_next (region t p) = r_next (region s p)" if "p \<in> set fs" for p
      using that fs(3) tq by (auto simp: basic)
    then have "chain t (vmm_region_free_list s) fs"
      using fs(1) chain_cong [of fs t s] by simp
    then show ?thesis
      using fs t P mono tq boot by (auto simp: pool_ok_def intro!: exI [of _ fs])
  qed
  then show ?thesis
    using basic False by simp
qed

lemma dll_next_split: "dll nx pv nl a h (xs @ p # ys) \<Longrightarrow> nx p = nl \<or> nx p \<in> set ys"
proof (induction xs arbitrary: a h)
  case Nil
  then show ?case
    by (cases ys) auto
qed auto

lemma dll_next_Cons: "dll nx pv nl a h (xs @ p # n # ys) \<Longrightarrow> nx p = n"
  by (induction xs arbitrary: a h) auto

lemma dll_insert_after:
  assumes "dll nx pv nl a h (xs @ p # ys)" and "distinct (xs @ p # ys)" and "q \<notin> set (xs @ p # ys)" and "q \<noteq> nl"
    and "\<And>x. x \<in> set (xs @ p # ys) \<Longrightarrow> nx' x = (if x = p then q else nx x)" and "nx' q = nx p"
    and "\<And>x. x \<in> set (xs @ p # ys) \<Longrightarrow> pv' x = (if x = nx p then q else pv x)" and "pv' q = p"
  shows "dll nx' pv' nl a h (xs @ p # q # ys)"
  using assms
proof (induction xs arbitrary: a h)
  case Nil
  have p: "h = p" "p \<noteq> nl" "pv p = a" "dll nx pv nl p (nx p) ys"
    using Nil.prems(1) by simp_all
  have "nx p \<noteq> p"
    using dll_next_split [of nx pv nl a h "[]" p ys] Nil.prems(1,2) p(2) by auto
  then have p': "nx' p = q" "pv' p = a"
    using Nil.prems(5) [of p] Nil.prems(7) [of p] p(3) by simp_all
  have "dll nx' pv' nl q (nx p) ys"
  proof (cases ys)
    case Nil
    then show ?thesis
      using p by simp
  next
    case (Cons y zs)
    have y: "nx p = y" "y \<noteq> nl" "dll nx pv nl y (nx y) zs"
      using p(4) Cons by simp_all
    have "nx' y = nx y" "pv' y = q"
      using Nil.prems(2) Nil.prems(5) [of y] Nil.prems(7) [of y] y Cons by auto
    moreover have "dll nx' pv' nl y (nx y) zs = dll nx pv nl y (nx y) zs"
    proof (rule dll_cong)
      fix x assume "x \<in> set zs"
      then show "nx' x = nx x \<and> pv' x = pv x"
        using Nil.prems(2) Nil.prems(5) [of x] Nil.prems(7) [of x] y Cons by auto
    qed
    ultimately show ?thesis
      using y Cons by simp
  qed
  then show ?case
    using p p' Nil.prems(4,6,8) by simp
next
  case (Cons x xs)
  have "nx p \<noteq> x"
    using dll_next_split [OF Cons.prems(1)] Cons.prems(2) dll_null [OF Cons.prems(1)] by auto
  moreover have "x \<noteq> p"
    using Cons.prems(2) by auto
  ultimately have x: "nx' x = nx x" "pv' x = pv x"
    using Cons.prems(5) [of x] Cons.prems(7) [of x] by simp_all
  have d: "dll nx pv nl x (nx x) (xs @ p # ys)"
    using Cons.prems(1) by simp
  have "dll nx' pv' nl x (nx x) (xs @ p # q # ys)"
    using Cons.prems(2-) by (intro Cons.IH [OF d]) simp_all
  then show ?case
    using Cons.prems(1) x by simp
qed

lemmas put_defs = put_next_def put_prev_def put_end_def put_free_def put_flags_def

lemma split_region_ok:
  assumes "rlist s (xs @ p # ys)" and "pool_ok s (set (xs @ p # ys))"
    and "r_start (region s p) < sp" "sp < r_end (region s p)"
  shows "vmm_split_region s p sp = (RNull, s) \<or>
         (\<exists>q t. vmm_split_region s p sp = (p, t) \<and> rlist t (xs @ p # q # ys) \<and> pool_ok t (set (xs @ p # q # ys)) \<and>
            pg t = pg s \<and> region_list t = region_list s \<and>
            area_of (region t p) = (r_start (region s p), sp, r_flags (region s p), is_free (region s p)) \<and>
            area_of (region t q) = (sp, r_end (region s p), r_flags (region s p), is_free (region s p)) \<and>
            (\<forall>x\<in>set (xs @ ys). area_of (region t x) = area_of (region s x)))"
proof -
  let ?r = "region s p"
  let ?P = "set (xs @ p # ys)"
  have d: "dll (rnext s) (rprev s) RNull RNull (region_list s) (xs @ p # ys)" "distinct (xs @ p # ys)"
    using assms(1) by (simp_all add: rlist_def)
  have pn: "p \<noteq> RNull" "RNull \<notin> ?P"
    using dll_null [OF d(1)] by auto
  have g: "\<not> sp \<le> r_start ?r" "\<not> r_end ?r \<le> sp"
    using assms(3,4) by simp_all
  obtain q u where c: "vmm_create_region s sp (r_end ?r) (r_flags ?r) (is_free ?r) = (q, u)"
    by fastforce
  note cr = create_region_ok [OF assms(2) c]
  show ?thesis
  proof (cases "q = RNull")
    case True
    then show ?thesis
      using cr c g pn by (simp add: vmm_split_region_def)
  next
    case False
    then have q: "q \<notin> ?P" "pg u = pg s" "region_list u = region_list s" "pool_ok u (insert q ?P)"
        "region u = (region s)(q := \<lparr>r_start = sp, r_end = r_end ?r, r_flags = r_flags ?r, is_free = is_free ?r,
                                     r_next = RNull, r_prev = RNull\<rparr>)"
      using cr by simp_all
    define n where "n = r_next ?r"
    have n: "n = RNull \<or> n \<in> set ys" "n \<noteq> p"
      using dll_next_split [OF d(1)] d(2) pn(1) by (auto simp: n_def)
    have nq: "n \<noteq> q" "p \<noteq> q"
      using n q(1) False by auto
    define t where "t = snd (vmm_split_region s p sp)"
    have res: "vmm_split_region s p sp = (p, t)"
      using c False g pn by (simp add: t_def vmm_split_region_def Let_def)
    have tr: "region t = (let f = (region u)(p := ?r\<lparr>r_end := sp, r_next := q\<rparr>,
                                             q := (region u q)\<lparr>r_next := n, r_prev := p\<rparr>)
                          in if n \<noteq> RNull then f(n := (f n)\<lparr>r_prev := q\<rparr>) else f)"
      using c False g pn nq n(2)
      by (simp add: t_def vmm_split_region_def Let_def put_defs q(5) n_def [symmetric] fun_upd_twist)
    have rest: "pg t = pg s" "region_list t = region_list s" "bootstrap_pool_index t = bootstrap_pool_index u"
        "vmm_region_page_index t = vmm_region_page_index u" "use_dynamic_allocation t = use_dynamic_allocation u"
        "vmm_region_free_list t = vmm_region_free_list u"
      using c False g pn q(2,3)
      by (simp_all add: t_def vmm_split_region_def Let_def put_defs)
    have nx: "rnext t x = (if x = p then q else rnext s x)" if "x \<in> ?P" for x
      using that q(1) nq n(2) by (auto simp: tr Let_def q(5))
    have nxq: "rnext t q = n" "rprev t q = p"
      using nq by (auto simp: tr Let_def)
    have pv: "rprev t x = (if x = rnext s p then q else rprev s x)" if "x \<in> ?P" for x
      using that q(1) nq n(2) pn(2) by (auto simp: tr Let_def q(5) n_def [symmetric])
    have "dll (rnext t) (rprev t) RNull RNull (region_list s) (xs @ p # q # ys)"
      by (rule dll_insert_after [OF d q(1) False]) (simp_all only: nx pv nxq n_def)
    moreover have "distinct (xs @ p # q # ys)"
      using d(2) q(1) by auto
    ultimately have "rlist t (xs @ p # q # ys)"
      by (simp add: rlist_def rest)
    moreover have "pool_ok t (set (xs @ p # q # ys))"
    proof -
      have "r_next (region t x) = r_next (region u x)" if "x \<notin> insert q ?P" for x
        using that n by (auto simp: tr Let_def q(5))
      then have "pool_ok t (insert q ?P)"
        by (rule pool_ok_frame [OF q(4)]) (simp_all add: rest)
      then show ?thesis
        by (simp add: insert_commute)
    qed
    moreover have "area_of (region t p) = (r_start ?r, sp, r_flags ?r, is_free ?r)"
      using nq n(2) by (auto simp: tr Let_def area_of_def)
    moreover have "area_of (region t q) = (sp, r_end ?r, r_flags ?r, is_free ?r)"
      using nq by (auto simp: tr Let_def area_of_def q(5))
    moreover have "\<forall>x\<in>set (xs @ ys). area_of (region t x) = area_of (region s x)"
      using d(2) q(1) nq by (auto simp: tr Let_def area_of_def q(5))
    ultimately show ?thesis
      using res rest(1,2) by blast
  qed
qed

text \<open>The walks over the list are the list functions.\<close>

lemma scan_ok:
  "dll (rnext s) pv RNull a h ps \<Longrightarrow>
    scan s h sz flags = Some (case find (\<lambda>p. suitable (region s p) sz flags) ps of None \<Rightarrow> RNull | Some p \<Rightarrow> p)"
proof (induction ps arbitrary: a h)
  case Nil
  then show ?case
    by (subst scan.simps) simp
next
  case (Cons p ps)
  have "scan s (rnext s p) sz flags = Some (case find (\<lambda>p. suitable (region s p) sz flags) ps of None \<Rightarrow> RNull | Some p \<Rightarrow> p)"
    using Cons.IH [of p "rnext s p"] Cons.prems by simp
  then show ?case
    using Cons.prems by (subst scan.simps) simp
qed

lemma find_region_from_ok:
  "dll (rnext s) pv RNull a h ps \<Longrightarrow>
    find_region_from s h v =
      Some (case find (\<lambda>p. r_start (region s p) \<le> v \<and> r_end (region s p) > v) ps of None \<Rightarrow> RNull | Some p \<Rightarrow> p)"
proof (induction ps arbitrary: a h)
  case Nil
  then show ?case
    by (subst find_region_from.simps) simp
next
  case (Cons p ps)
  have "find_region_from s (rnext s p) v = Some (case find (\<lambda>p. r_start (region s p) \<le> v \<and> r_end (region s p) > v) ps of None \<Rightarrow> RNull | Some p \<Rightarrow> p)"
    using Cons.IH [of p "rnext s p"] Cons.prems by simp
  then show ?case
    using Cons.prems by (subst find_region_from.simps) simp
qed

lemma remove_region_ok:
  assumes "rlist s (xs @ p # n # ys)" and "pool_ok s (set (xs @ p # n # ys))"
  shows "rlist (vmm_remove_region s n) (xs @ p # ys) \<and> pool_ok (vmm_remove_region s n) (set (xs @ p # ys)) \<and>
         pg (vmm_remove_region s n) = pg s \<and>
         (\<forall>x. area_of (region (vmm_remove_region s n) x) = area_of (region s x))"
proof -
  let ?t = "vmm_remove_region s n"
  let ?ps = "xs @ p # n # ys"
  have d: "dll (rnext s) (rprev s) RNull RNull (region_list s) ?ps" "distinct ?ps"
    using assms(1) by (simp_all add: rlist_def)
  have nl: "RNull \<notin> set ?ps"
    using dll_null [OF d(1)] .
  have "dll (rnext s) (rprev s) RNull RNull (region_list s) ((xs @ [p]) @ n # ys)" "distinct (RNull # (xs @ [p]) @ n # ys)"
    using d nl by simp_all
  note sp = dll_remove_split [OF this]
  then have pv: "rprev s n = p"
    by simp
  have nx: "rnext s n = RNull \<or> rnext s n \<in> set ys"
    using sp by (cases ys) auto
  have nn: "n \<noteq> RNull" "p \<noteq> RNull" "rnext s n \<noteq> n" "rnext s n \<noteq> p" "p \<noteq> n"
    using nl d(2) nx by auto
  define u where "u = (let u = put_next p (rnext s n) s in if rnext s n \<noteq> RNull then put_prev (rnext s n) p u else u)"
  have t: "?t = vmm_destroy_region u n"
    using nn pv by (simp add: vmm_remove_region_def u_def Let_def put_defs)
  have u: "region_list u = region_list s" "pg u = pg s" "bootstrap_pool_index u = bootstrap_pool_index s"
      "vmm_region_page_index u = vmm_region_page_index s" "use_dynamic_allocation u = use_dynamic_allocation s"
      "vmm_region_free_list u = vmm_region_free_list s"
    by (simp_all add: u_def Let_def put_defs)
  have ux: "rnext u x = (if x = p then rnext s n else rnext s x)" for x
    by (simp add: u_def Let_def put_defs)
  have up: "rprev u x = (if rnext s n \<noteq> RNull \<and> x = rnext s n then p else rprev s x)" for x
    by (simp add: u_def Let_def put_defs)
  have ua: "area_of (region u x) = area_of (region s x)" for x
    by (simp add: u_def Let_def put_defs area_of_def)
  have tx: "region ?t x = region u x" if "x \<noteq> n" for x
    using that unfolding t by (cases n) (simp_all add: vmm_destroy_region_def Let_def put_defs)
  have ta: "area_of (region ?t x) = area_of (region s x)" for x
    using ua [of x] unfolding t by (cases n) (auto simp: vmm_destroy_region_def Let_def put_defs area_of_def)
  have tl: "region_list ?t = region_list s" "pg ?t = pg s"
    using u unfolding t by (cases n; simp add: vmm_destroy_region_def Let_def put_defs)+
  have "dll (rnext ?t) (rprev ?t) RNull RNull (if rprev s n \<noteq> RNull then region_list s else rnext s n) (remove1 n ?ps)"
  proof -
    have "dll (rnext u) (rprev u) RNull RNull (if rprev s n \<noteq> RNull then region_list s else rnext s n) (remove1 n ?ps)"
      by (rule dll_remove [OF d(1) _ d(2)]) (simp_all add: ux up pv nn)
    moreover have "dll (rnext ?t) (rprev ?t) RNull RNull h (remove1 n ?ps) =
               dll (rnext u) (rprev u) RNull RNull h (remove1 n ?ps)" for h
    proof (rule dll_cong)
      fix x assume "x \<in> set (remove1 n ?ps)"
      then have "x \<noteq> n"
        using d(2) by auto
      then show "rnext ?t x = rnext u x \<and> rprev ?t x = rprev u x"
        by (simp add: tx)
    qed
    ultimately show ?thesis
      by simp
  qed
  moreover have "remove1 n ?ps = xs @ p # ys"
    using d(2) by (simp add: remove1_append)
  ultimately have r: "rlist ?t (xs @ p # ys)"
    using d(2) pv nn by (simp add: rlist_def tl)
  have pu: "pool_ok u (set ?ps)"
    by (rule pool_ok_frame [OF assms(2)]) (auto simp: ux u)
  then obtain fs where fs: "chain u (vmm_region_free_list u) fs" "distinct fs"
      "\<forall>x\<in>set fs. x \<notin> set ?ps \<and> (\<exists>i. x = Dyn i \<and> taken u x)"
    by (auto simp: pool_ok_def)
  have lim: "\<forall>x\<in>set (xs @ p # ys). taken u x" "bootstrap_pool_index u \<le> VMM_BOOTSTRAP_POOL_SIZE"
      "vmm_region_page_index u \<le> VMM_REGIONS_PER_PAGE" "use_dynamic_allocation u \<or> vmm_region_page_index u = 0"
    using pu by (simp_all add: pool_ok_def)
  have c: "chain ?t h fs = chain u h fs" for h
  proof (rule chain_cong)
    fix x assume "x \<in> set fs"
    then have "x \<noteq> n"
      using fs(3) by auto
    then show "r_next (region ?t x) = r_next (region u x)"
      by (simp add: tx)
  qed
  have "pool_ok ?t (set (xs @ p # ys))"
  proof (cases n)
    case (Boot i)
    have s: "vmm_region_free_list ?t = vmm_region_free_list u" "bootstrap_pool_index ?t = bootstrap_pool_index u"
        "vmm_region_page_index ?t = vmm_region_page_index u" "use_dynamic_allocation ?t = use_dynamic_allocation u"
      unfolding t by (simp_all add: vmm_destroy_region_def Boot)
    have tk: "taken ?t x = taken u x" for x
      by (rule taken_cong [OF s(2,3)])
    have "\<forall>x\<in>set fs. x \<notin> set (xs @ p # ys) \<and> (\<exists>i. x = Dyn i \<and> taken u x)"
      using fs(3) by simp
    then show ?thesis
      unfolding pool_ok_def s tk using lim fs(1,2) by (intro conjI exI [of _ fs]) (simp_all add: c)
  next
    case (Dyn i)
    have "taken u n"
      using pu by (auto simp: pool_ok_def)
    then have dy: "use_dynamic_allocation u" "i < VMM_REGIONS_PER_PAGE"
      using pu Dyn by (auto simp: pool_ok_def taken_def)
    have s: "vmm_region_free_list ?t = n" "bootstrap_pool_index ?t = bootstrap_pool_index u"
        "vmm_region_page_index ?t = vmm_region_page_index u" "use_dynamic_allocation ?t = use_dynamic_allocation u"
        "rnext ?t n = vmm_region_free_list u"
      using dy unfolding t by (simp_all add: vmm_destroy_region_def Dyn Let_def put_defs)
    have "chain ?t n (n # fs)"
      using fs c s nn by simp
    moreover have "distinct (n # fs)"
      using fs by auto
    moreover have tk: "taken ?t x = taken u x" for x
      by (rule taken_cong [OF s(2,3)])
    have "\<forall>x\<in>set (n # fs). x \<notin> set (xs @ p # ys) \<and> (\<exists>i. x = Dyn i \<and> taken u x)"
      using fs(3) d(2) Dyn \<open>taken u n\<close> by auto
    ultimately show ?thesis
      unfolding pool_ok_def s tk using lim by (intro conjI exI [of _ "n # fs"]) simp_all
  qed (use nn in simp)
  then show ?thesis
    using r ta tl by simp
qed

subsection \<open>Merging\<close>

text \<open>Two states with the same areas; \<open>vmm_ok\<close> is what every operation keeps of the region list.\<close>

definition vmm_ok :: "vmm \<Rightarrow> rptr list \<Rightarrow> bool" where
  "vmm_ok s ps \<longleftrightarrow> rlist s ps \<and> pool_ok s (set ps) \<and> spaced (areas s ps)"

lemma put_area_ok:
  assumes "rlist s ps" "pool_ok s (set ps)" "p \<in> set ps"
    and "t = s\<lparr>region := (region s)(p := r)\<rparr>" "r_next r = r_next (region s p)" "r_prev r = r_prev (region s p)"
  shows "rlist t ps \<and> pool_ok t (set ps)"
proof -
  have "rnext t = rnext s" "rprev t = rprev s"
    using assms(4-6) by (auto simp: fun_eq_iff)
  then have "rlist t ps"
    using assms(1,4) by (simp add: rlist_def)
  moreover have "pool_ok t (set ps)"
    using assms(3-5) by (intro pool_ok_frame [OF assms(2)]) auto
  ultimately show ?thesis
    by blast
qed

lemma merge_from_ok:
  assumes "rlist s (xs @ p # ys)" and "pool_ok s (set (xs @ p # ys))"
  shows "\<exists>t zs. merge_from s p = Some t \<and> rlist t (xs @ p # zs) \<and> pool_ok t (set (xs @ p # zs)) \<and> pg t = pg s \<and>
           areas t (xs @ p # zs) = areas s xs @ merge_areas (areas s (p # ys))"
  using assms
proof (induction "length ys" arbitrary: s xs p ys)
  case 0
  have d: "dll (rnext s) (rprev s) RNull RNull (region_list s) (xs @ [p])"
    using 0 by (simp add: rlist_def)
  have "p \<noteq> RNull" "rnext s p = RNull"
    using dll_null [OF d] dll_next_split [OF d] by auto
  then have "merge_from s p = Some s"
    by (subst merge_from.simps) simp
  then show ?case
    using 0 by (auto simp: areas_def intro!: exI [of _ "[]"])
next
  case (Suc k)
  then obtain n ys' where ys: "ys = n # ys'" "length ys' = k"
    by (cases ys) auto
  have d: "dll (rnext s) (rprev s) RNull RNull (region_list s) (xs @ p # n # ys')" "distinct (xs @ p # n # ys')"
    using Suc.prems(1) ys by (simp_all add: rlist_def)
  have nx: "rnext s p = n" and nn: "p \<noteq> RNull" "n \<noteq> RNull" "n \<noteq> p"
    using dll_next_Cons [OF d(1)] dll_null [OF d(1)] d(2) by auto
  let ?P = "region s p" and ?N = "region s n"
  show ?case
  proof (cases "is_free ?P \<and> is_free ?N \<and> r_end ?P = r_start ?N")
    case True
    define s' where "s' = put_end p (r_end ?N) s"
    have "rlist s' (xs @ p # n # ys') \<and> pool_ok s' (set (xs @ p # n # ys'))"
      using Suc.prems ys(1) by (intro put_area_ok [of s _ p _ "?P\<lparr>r_end := r_end ?N\<rparr>"]) (simp_all add: s'_def put_defs)
    then have rm: "rlist (vmm_remove_region s' n) (xs @ p # ys') \<and> pool_ok (vmm_remove_region s' n) (set (xs @ p # ys')) \<and>
       pg (vmm_remove_region s' n) = pg s' \<and> (\<forall>x. area_of (region (vmm_remove_region s' n) x) = area_of (region s' x))"
      using remove_region_ok by blast
    define u where "u = vmm_remove_region s' n"
    have u: "rlist u (xs @ p # ys')" "pool_ok u (set (xs @ p # ys'))" "pg u = pg s"
        "\<And>x. area_of (region u x) = area_of (region s' x)"
      using rm by (simp_all add: u_def s'_def put_defs)
    obtain t zs where t: "merge_from u p = Some t" "rlist t (xs @ p # zs)" "pool_ok t (set (xs @ p # zs))" "pg t = pg u"
        "areas t (xs @ p # zs) = areas u xs @ merge_areas (areas u (p # ys'))"
      using Suc.hyps(1) [OF ys(2) [symmetric] u(1,2)] by blast
    have "merge_from s p = merge_from u p"
      using nx nn True by (subst merge_from.simps) (simp add: u_def s'_def Let_def)
    moreover have "areas u xs = areas s xs" "areas u ys' = areas s ys'"
      using d(2) by (auto simp: areas_def u(4) s'_def put_defs)
    moreover have "area_of (region u p) = (r_start ?P, r_end ?N, r_flags ?P, True)"
      unfolding u(4) using True by (simp add: s'_def put_defs area_of_def)
    moreover have "area_of ?P = (r_start ?P, r_start ?N, r_flags ?P, True)"
        "area_of ?N = (r_start ?N, r_end ?N, r_flags ?N, True)"
      using True by (simp_all add: area_of_def)
    ultimately have "merge_from s p = Some t \<and>
        areas t (xs @ p # zs) = areas s xs @ merge_areas (areas s (p # ys))"
      using t ys by simp
    then show ?thesis
      using t(2-4) u(3) by metis
  next
    case False
    have "rlist s ((xs @ [p]) @ n # ys')" "pool_ok s (set ((xs @ [p]) @ n # ys'))"
      using Suc.prems ys by simp_all
    from Suc.hyps(1) [OF ys(2) [symmetric] this]
    obtain t zs where t: "merge_from s n = Some t" "rlist t (xs @ p # n # zs)" "pool_ok t (set (xs @ p # n # zs))" "pg t = pg s"
        "areas t (xs @ p # n # zs) = areas s xs @ area_of ?P # merge_areas (areas s (n # ys'))"
      by (auto simp: areas_def)
    have "merge_from s p = merge_from s n"
      using nx nn False by (subst merge_from.simps) (auto simp: Let_def)
    moreover have "merge_areas (areas s (p # ys)) = area_of ?P # merge_areas (areas s (n # ys'))"
      using False ys by (auto simp: areas_def area_of_def)
    ultimately show ?thesis
      using t by metis
  qed
qed

text \<open>Merging keeps the invariant and the used areas, and is the merging of the list of areas.\<close>

lemma merge_ok:
  assumes "vmm_ok s ps"
  shows "\<exists>t qs. vmm_merge_free_regions s = Some t \<and> vmm_ok t qs \<and> pg t = pg s \<and> areas t qs = merge_areas (areas s ps)"
proof (cases ps)
  case Nil
  then have "region_list s = RNull"
    using assms by (simp add: vmm_ok_def rlist_def)
  then have "vmm_merge_free_regions s = Some s"
    unfolding vmm_merge_free_regions_def by (subst merge_from.simps) simp
  then show ?thesis
    using assms Nil by (intro exI [of _ s] exI [of _ ps]) (simp add: areas_def)
next
  case (Cons p ys)
  then have h: "region_list s = p" "rlist s ([] @ p # ys)" "pool_ok s (set ([] @ p # ys))" "spaced (areas s ps)"
    using assms by (simp_all add: vmm_ok_def rlist_def)
  obtain t zs where t: "merge_from s p = Some t" "rlist t (p # zs)" "pool_ok t (set (p # zs))" "pg t = pg s"
      "areas t (p # zs) = merge_areas (areas s ps)"
    using merge_from_ok [OF h(2,3)] Cons by (auto simp: areas_def)
  then show ?thesis
    using spaced_merge [OF h(4)] h(1)
    by (intro exI [of _ t] exI [of _ "p # zs"]) (simp add: vmm_ok_def vmm_merge_free_regions_def)
qed

subsection \<open>Frames behind the pages\<close>

text \<open>A data frame is in use and is neither the directory nor one of its tables. The pages \<open>A\<close> are owned when they
  are mapped to data frames, no two of them to the same one.\<close>

definition data_frame :: "paging \<Rightarrow> u32 \<Rightarrow> bool" where
  "data_frame g f \<longleftrightarrow> in_use g f \<and> f \<noteq> current_page_directory g \<and>
     (\<forall>k<1024. entry_present (mem g (current_page_directory g) k) \<longrightarrow> table_of g (current_page_directory g) k \<noteq> f)"

definition page_frame :: "paging \<Rightarrow> nat \<Rightarrow> u32 option" where
  "page_frame g k = translate g (current_page_directory g) (pmm_page_to_addr k)"

definition owned :: "paging \<Rightarrow> nat set \<Rightarrow> bool" where
  "owned g A \<longleftrightarrow> (\<forall>k\<in>A. \<exists>f. page_frame g k = Some f \<and> data_frame g f) \<and> inj_on (page_frame g) A"

lemma data_frame_cong:
  "data_frame g f \<Longrightarrow> current_page_directory h = current_page_directory g \<Longrightarrow>
    mem h (current_page_directory g) = mem g (current_page_directory g) \<Longrightarrow> in_use h f \<Longrightarrow> data_frame h f"
  by (simp add: data_frame_def table_of_def)

lemma alloc_data:
  assumes "paging_ok g" and "alloc_frame g = (a, h)" and "a \<noteq> 0"
  shows "paging_ok h \<and> data_frame h a \<and> \<not> in_use g a \<and> paging_align_down a = a \<and> page_frame h = page_frame g \<and>
    current_page_directory h = current_page_directory g \<and> (\<forall>f. in_use g f \<longrightarrow> in_use h f) \<and> (\<forall>f. data_frame g f \<longrightarrow> data_frame h f)"
proof -
  have own: "pmm_own (pmm_of g)" and dir: "dir_ok g (current_page_directory g)"
    using assms(1) by (simp_all add: paging_ok_def)
  from own assms(2) show ?thesis
  proof (cases rule: alloc_frame_cases)
    case 1
    then show ?thesis
      using assms(3) by simp
  next
    case (2 q)
    have use: "in_use h x \<longleftrightarrow> in_use g x \<or> x = a" for x
      using 2(2,6) by (simp add: in_use_def)
    have "dir_ok h (current_page_directory g)"
      using use by (intro dir_ok_cong [OF dir]) (auto simp: 2(2))
    moreover have lf: "leaf h D v = leaf g D v" for D v
      by (rule leaf_cong) (simp_all add: 2(2))
    have cd: "current_page_directory h = current_page_directory g"
      by (simp add: 2(2))
    have "page_frame h k = page_frame g k" for k
      by (simp add: page_frame_def cd translate_leaf [OF lf])
    moreover have "data_frame h a"
    proof -
      have "a \<noteq> current_page_directory g"
        using dir_okD(1) [OF dir] 2(4) by blast
      moreover have "table_of g (current_page_directory g) k \<noteq> a"
        if "k < 1024" "entry_present (mem g (current_page_directory g) k)" for k
        using dir_okD(2) [OF dir that] 2(4) by blast
      ultimately show ?thesis
        by (simp add: data_frame_def use) (simp add: 2(2) table_of_def)
    qed
    moreover have "data_frame g f \<Longrightarrow> data_frame h f" for f
      using use [of f] cd by (intro data_frame_cong [of g f h]) (simp_all add: data_frame_def, simp add: 2(2))
    moreover have "pmm_own (pmm_of h)"
      using 2(3) by (simp add: 2(2))
    ultimately show ?thesis
      using 2(4,5) use cd by (simp add: paging_ok_def fun_eq_iff)
  qed
qed

lemma free_data:
  assumes "paging_ok g" and "data_frame g a"
  shows "paging_ok (free_frame g a) \<and> page_frame (free_frame g a) = page_frame g \<and>
    (\<forall>f. data_frame g f \<longrightarrow> f \<noteq> a \<longrightarrow> data_frame (free_frame g a) f)"
proof -
  let ?h = "free_frame g a" and ?D = "current_page_directory g"
  have dir: "dir_ok g ?D" and own: "pmm_own (pmm_of g)"
    using assms(1) by (simp_all add: paging_ok_def)
  have "paging_align_down a = a" "a \<noteq> 0"
    using assms(2) by (auto simp: data_frame_def in_use_def used_frame_def)
  note fr = pmm_own_free [OF own this]
  have use: "in_use g x \<Longrightarrow> x \<noteq> a \<Longrightarrow> in_use ?h x" for x
    using fr by (simp add: in_use_def free_frame_def)
  have D: "?D \<noteq> a" "\<And>k. k < 1024 \<Longrightarrow> entry_present (mem g ?D k) \<Longrightarrow> table_of g ?D k \<noteq> a"
    using assms(2) by (auto simp: data_frame_def)
  have m: "mem ?h = mem g" "table_of ?h ?D k = table_of g ?D k" for k
    by (simp_all add: free_frame_def table_of_def)
  have "dir_ok ?h ?D"
    unfolding dir_ok_def m
  proof (intro conjI allI impI)
    show "in_use ?h ?D"
      using dir_okD(1) [OF dir] use D(1) by blast
    show "in_use ?h (table_of g ?D i)" if "i < 1024" "entry_present (mem g ?D i)" for i
      using dir_okD(2) [OF dir that] D(2) [OF that] use by blast
    show "table_of g ?D i \<noteq> ?D" if "i < 1024" "entry_present (mem g ?D i)" for i
      using dir_okD(2) [OF dir that] by blast
  qed (rule dir_okD(3) [OF dir])
  moreover have lf: "leaf ?h D v = leaf g D v" for D v
    by (rule leaf_cong) (simp_all add: free_frame_def)
  have "page_frame ?h k = page_frame g k" for k
    by (simp add: page_frame_def translate_leaf [OF lf])
  moreover have "data_frame g f \<Longrightarrow> f \<noteq> a \<Longrightarrow> data_frame ?h f" for f
    using use [of f] m(1) by (intro data_frame_cong [of g f ?h]) (simp_all add: data_frame_def)
  ultimately show ?thesis
    using fr by (auto simp: paging_ok_def fun_eq_iff free_frame_def)
qed

lemma get_table_data:
  assumes "paging_ok g" and "paging_get_page_table g v True = (r, h)" and "data_frame g f"
  shows "data_frame h f"
proof (cases "entry_present (mem g (current_page_directory g) (paging_get_pd_index v))")
  case True
  then show ?thesis
    using assms(2,3) by (auto simp: paging_get_page_table_def Let_def)
next
  case False
  let ?D = "current_page_directory g" and ?i = "paging_get_pd_index v"
  have own: "pmm_own (pmm_of g)" and dir: "dir_ok g ?D"
    using assms(1) by (simp_all add: paging_ok_def)
  obtain a u where al: "alloc_frame g = (a, u)"
    by fastforce
  from own al show ?thesis
  proof (cases rule: alloc_frame_cases)
    case 1
    then show ?thesis
      using False assms(2,3) al by (simp add: paging_get_page_table_def Let_def)
  next
    case (2 q)
    have na: "?D \<noteq> a" "f \<noteq> a"
      using dir_okD(1) [OF dir] 2(4) assms(3) by (auto simp: data_frame_def)
    obtain e where h: "h = set_word (clear_page u a) ?D ?i (set_frame (drop_bit 12 a) e)"
      using False assms(2) al 2(1,2) na(1) by (auto simp: paging_get_page_table_def Let_def)
    have cd: "current_page_directory h = ?D"
      by (simp add: h 2(2))
    have m: "mem h ?D k = (if k = ?i then set_frame (drop_bit 12 a) e else mem g ?D k)" for k
      using na by (simp add: h 2(2) mem_set_word)
    have use: "in_use h f"
      using assms(3) 2(2,6) by (simp add: h in_use_def data_frame_def)
    show ?thesis
      using assms(3) use na(2) 2(5) unfolding data_frame_def cd table_of_def m by auto
  qed
qed

lemma map_page_data:
  assumes "paging_ok g" and "paging_map_page g v p fl = (b, h)" and "data_frame g f"
  shows "data_frame h f"
proof -
  let ?D = "current_page_directory g" and ?v = "paging_align_down v"
  obtain r u where gt: "paging_get_page_table g ?v True = (r, u)"
    by fastforce
  note uf = get_table_data [OF assms(1) gt assms(3)]
  from get_table_create [OF assms(1) gt] show ?thesis
  proof (elim disjE conjE)
    assume "r = None" "u = g"
    then show ?thesis
      using assms gt by (auto simp: paging_map_page_def)
  next
    assume u: "paging_ok u" "current_page_directory u = ?D" "entry_present (mem u ?D (paging_get_pd_index ?v))"
      "r = Some (table_of u ?D (paging_get_pd_index ?v))"
    have "table_of u ?D (paging_get_pd_index ?v) \<noteq> ?D"
      using u(1-3) dir_okD(2) [of u ?D, OF _ pd_index_less] by (simp add: paging_ok_def)
    moreover obtain e where "h = set_word u (table_of u ?D (paging_get_pd_index ?v)) (paging_get_pt_index ?v) e"
      using assms(2) gt u(4) by (auto simp: paging_map_page_def Let_def)
    ultimately show ?thesis
      using uf u(2) by (intro data_frame_cong [OF uf]) (auto simp: data_frame_def in_use_def)
  qed
qed

lemma unmap_page_data:
  assumes "paging_ok g" and "data_frame g f"
  shows "data_frame (paging_unmap_page g v) f"
proof -
  let ?D = "current_page_directory g" and ?v = "paging_align_down v"
  have "table_of g ?D (paging_get_pd_index ?v) \<noteq> ?D" if "entry_present (mem g ?D (paging_get_pd_index ?v))"
    using assms(1) that dir_okD(2) [of g ?D, OF _ pd_index_less] by (simp add: paging_ok_def)
  then have "mem (paging_unmap_page g v) ?D = mem g ?D"
    by (auto simp: paging_unmap_page_def get_table_lookup Let_def split: option.splits if_splits)
  then show ?thesis
    using unmap_page_ok [OF assms(1), of v] assms(2) by (intro data_frame_cong [OF assms(2)]) (auto simp: data_frame_def)
qed

lemma pa_plus: "pmm_page_to_addr v + of_nat i * PAGE_SIZE = pmm_page_to_addr (v + i)"
  by (simp add: pmm_page_to_addr_def PAGE_SIZE_def PMM_PAGE_SIZE_def algebra_simps)

lemma offset_pa: "paging_get_page_offset (pmm_page_to_addr k) = 0"
proof -
  have "bit (pmm_page_to_addr k) m \<longrightarrow> 12 \<le> m" for m
    using bit_align_down [of "pmm_page_to_addr k" m] unfolding align_pa by blast
  then show ?thesis
    unfolding paging_get_page_offset_def by (intro bit_eqI) (simp add: bit_and_iff bit_fff, meson not_le)
qed

lemma translate_page: "translate g (current_page_directory g) w = page_frame g (pmm_addr_to_page w)"
proof -
  have "leaf g D w = leaf g D (pmm_page_to_addr (pmm_addr_to_page w))" for D
    by (rule leaf_page) (metis align_down_pmm align_pa)
  then show ?thesis
    by (simp add: page_frame_def translate_def)
qed

lemma owned_mono: "owned g A \<Longrightarrow> B \<subseteq> A \<Longrightarrow> owned g B"
  unfolding owned_def by (meson inj_on_subset subset_iff)

lemma owned_frame: "owned g A \<Longrightarrow> k \<in> A \<Longrightarrow> \<exists>f. page_frame g k = Some f \<and> data_frame g f"
  by (simp add: owned_def)

lemma owned_cong:
  assumes "owned g A" and "\<And>k. k \<in> A \<Longrightarrow> page_frame h k = page_frame g k"
    and "\<And>k f. k \<in> A \<Longrightarrow> page_frame g k = Some f \<Longrightarrow> data_frame g f \<Longrightarrow> data_frame h f"
  shows "owned h A"
proof -
  have "inj_on (page_frame h) A"
    using assms(1,2) by (simp add: owned_def inj_on_def)
  then show ?thesis
    using assms unfolding owned_def by metis
qed

lemma owned_insert:
  assumes "owned g A" and "page_frame g k = Some a" and "data_frame g a" and "\<And>j. j \<in> A \<Longrightarrow> page_frame g j \<noteq> Some a"
  shows "owned g (insert k A)"
proof -
  have "k \<notin> A"
    using assms(2,4) by auto
  then have "inj_on (page_frame g) (insert k A)"
    using assms by (auto simp: owned_def)
  then show ?thesis
    using assms by (auto simp: owned_def)
qed

text \<open>One round of the loop that backs a region.\<close>

lemma back_page:
  assumes "paging_ok g" "owned g A" "k \<notin> A" "k < 2 ^ 20" "\<forall>j\<in>A. j < 2 ^ 20" and "bit fl 0"
    and "alloc_frame g = (a, u)" "a \<noteq> 0" "paging_map_page u (pmm_page_to_addr k) a fl = (b, h)"
  shows "b \<Longrightarrow> paging_ok h \<and> current_page_directory h = current_page_directory g \<and> owned h (insert k A) \<and>
           (\<forall>j<2 ^ 20. page_frame h j = (if j = k then Some a else page_frame g j)) \<and> \<not> in_use g a \<and>
           (\<forall>f. in_use g f \<longrightarrow> in_use h f)"
    and "\<not> b \<Longrightarrow> paging_ok (free_frame h a) \<and> owned (free_frame h a) A \<and> page_frame (free_frame h a) = page_frame g \<and>
           current_page_directory h = current_page_directory g"
proof -
  note al = alloc_data [OF assms(1,7,8)]
  then have u: "paging_ok u" "data_frame u a" "\<not> in_use g a" "paging_align_down a = a" "page_frame u = page_frame g"
      "current_page_directory u = current_page_directory g"
    by simp_all
  note mp = map_page_ok [OF u(1) assms(9)]
  have na: "page_frame g j \<noteq> Some a" "page_frame g j = Some f \<Longrightarrow> f \<noteq> a" if "j \<in> A" for j f
    using owned_frame [OF assms(2) that] u(3) by (auto simp: data_frame_def)
  show "paging_ok h \<and> current_page_directory h = current_page_directory g \<and> owned h (insert k A) \<and>
      (\<forall>j<2 ^ 20. page_frame h j = (if j = k then Some a else page_frame g j)) \<and> \<not> in_use g a \<and> (\<forall>f. in_use g f \<longrightarrow> in_use h f)" if b
  proof -
    have pf: "page_frame h j = (if j = k then Some a else page_frame g j)" if "j < 2 ^ 20" for j
    proof -
      have "pmm_page_to_addr j = pmm_page_to_addr k \<longleftrightarrow> j = k"
        using pa_inj [OF that assms(4)] by auto
      then show ?thesis
        using mp \<open>b\<close> assms(6) u(4-6) by (simp add: page_frame_def fun_eq_iff)
    qed
    have df: "data_frame u f \<Longrightarrow> data_frame h f" for f
      by (rule map_page_data [OF u(1) assms(9)])
    have "owned h A"
    proof (rule owned_cong [OF assms(2)])
      show "page_frame h j = page_frame g j" if "j \<in> A" for j
        using pf [of j] that assms(3,5) by auto
      show "data_frame h f" if "j \<in> A" "page_frame g j = Some f" "data_frame g f" for j f
        using df al that(3) by blast
    qed
    moreover have "page_frame h j \<noteq> Some a" if "j \<in> A" for j
      using pf [of j] that assms(3,5) na(1) [OF that] by auto
    ultimately have "owned h (insert k A)"
      using pf [OF assms(4)] df [OF u(2)] by (intro owned_insert) simp_all
    then show ?thesis
      using pf mp al u(3,6) by simp
  qed
  show "paging_ok (free_frame h a) \<and> owned (free_frame h a) A \<and> page_frame (free_frame h a) = page_frame g \<and>
      current_page_directory h = current_page_directory g" if "\<not> b"
  proof -
    have h: "h = u"
      using mp that by simp
    note fr = free_data [OF u(1,2)]
    have "owned (free_frame u a) A"
    proof (rule owned_cong [OF assms(2)])
      show "page_frame (free_frame u a) j = page_frame g j" for j
        using fr u(5) by simp
      show "data_frame (free_frame u a) f" if "j \<in> A" "page_frame g j = Some f" "data_frame g f" for j f
        using fr al na(2) that by blast
    qed
    then show ?thesis
      using fr u(5,6) by (simp add: h)
  qed
qed

lemma back_pages_ok:
  assumes "paging_ok g" "owned g A" "A \<inter> {v + i..<v + i + n} = {}" "v + i + n \<le> 2 ^ 20" "\<forall>j\<in>A. j < 2 ^ 20"
  shows "case back_pages g (pmm_page_to_addr v) flags i n of
      Inr h \<Rightarrow> paging_ok h \<and> current_page_directory h = current_page_directory g \<and> owned h (A \<union> {v + i..<v + i + n}) \<and>
        (\<forall>k<2 ^ 20. k \<notin> {v + i..<v + i + n} \<longrightarrow> page_frame h k = page_frame g k) \<and>
        (\<forall>k\<in>{v + i..<v + i + n}. \<forall>f. page_frame h k = Some f \<longrightarrow> \<not> in_use g f)
    | Inl (m, h) \<Rightarrow> i \<le> m \<and> m < i + n \<and> paging_ok h \<and> current_page_directory h = current_page_directory g \<and>
        owned h (A \<union> {v + i..<v + m}) \<and> (\<forall>k<2 ^ 20. k \<notin> {v + i..<v + m} \<longrightarrow> page_frame h k = page_frame g k)"
  using assms
proof (induction n arbitrary: g i A)
  case 0
  then show ?case
    by simp
next
  case (Suc n)
  let ?k = "v + i"
  define fl :: u32 where "fl = 3 OR (if flags AND VMM_USER \<noteq> 0 then 4 else 0)"
  have fl: "bit fl 0"
    by (simp add: fl_def bit_or_iff)
  obtain a u where al: "alloc_frame g = (a, u)"
    by fastforce
  obtain b h where mp: "paging_map_page u (pmm_page_to_addr ?k) a fl = (b, h)"
    by fastforce
  have k: "?k \<notin> A" "?k < 2 ^ 20"
    using Suc.prems(3,4) by auto
  show ?case
  proof (cases "a = 0")
    case True
    have "u = g"
      using Suc.prems(1) al True by (auto simp: paging_ok_def elim: alloc_frame_cases)
    then show ?thesis
      using Suc.prems True al by simp
  next
    case False
    note bp = back_page [OF Suc.prems(1,2) k Suc.prems(5) fl al False mp]
    show ?thesis
    proof (cases b)
      case True
      have h: "paging_ok h" "current_page_directory h = current_page_directory g" "owned h (insert ?k A)" "\<not> in_use g a"
          "\<forall>j<2 ^ 20. page_frame h j = (if j = ?k then Some a else page_frame g j)" "\<forall>f. in_use g f \<longrightarrow> in_use h f"
        using bp(1) [OF True] by blast+
      have "insert ?k A \<inter> {v + Suc i..<v + Suc i + n} = {}" "v + Suc i + n \<le> 2 ^ 20" "\<forall>j\<in>insert ?k A. j < 2 ^ 20"
        using Suc.prems(3-5) by auto
      note IH = Suc.IH [OF h(1,3) this]
      have e: "back_pages g (pmm_page_to_addr v) flags i (Suc n) = back_pages h (pmm_page_to_addr v) flags (Suc i) n"
        using al mp False True by (simp add: fl_def pa_plus)
      have s: "insert ?k A \<union> {v + Suc i..<m} = A \<union> {v + i..<m}" if "v + i < m" for m
        using that by auto
      show ?thesis
      proof (cases "back_pages h (pmm_page_to_addr v) flags (Suc i) n")
        case (Inl r)
        obtain m t where r: "r = (m, t)" by (cases r)
        have t: "Suc i \<le> m" "m < Suc i + n" "paging_ok t" "current_page_directory t = current_page_directory h"
            "owned t (insert ?k A \<union> {v + Suc i..<v + m})"
            "\<forall>k<2 ^ 20. k \<notin> {v + Suc i..<v + m} \<longrightarrow> page_frame t k = page_frame h k"
          using IH by (simp_all add: Inl r)
        have "page_frame t k = page_frame g k" if "k < 2 ^ 20" "k \<notin> {v + i..<v + m}" for k
          using t(1,6) h(5) that by auto
        then show ?thesis
          unfolding e Inl r using t h(2) s [of "v + m"] by simp
      next
        case (Inr t)
        have t: "paging_ok t" "current_page_directory t = current_page_directory h"
            "owned t (insert ?k A \<union> {v + Suc i..<v + Suc i + n})"
            "\<forall>k<2 ^ 20. k \<notin> {v + Suc i..<v + Suc i + n} \<longrightarrow> page_frame t k = page_frame h k"
            "\<forall>k\<in>{v + Suc i..<v + Suc i + n}. \<forall>f. page_frame t k = Some f \<longrightarrow> \<not> in_use h f"
          using IH by (simp_all add: Inr)
        have "page_frame t k = page_frame g k" if "k < 2 ^ 20" "k \<notin> {v + i..<v + i + Suc n}" for k
          using t(4) h(5) that by auto
        moreover have "\<not> in_use g f" if "k \<in> {v + i..<v + i + Suc n}" "page_frame t k = Some f" for k f
        proof (cases "k = ?k")
          case True
          then show ?thesis
            using t(4) h(4,5) k(2) that(2) by simp
        next
          case False
          then have "k \<in> {v + Suc i..<v + Suc i + n}"
            using that(1) by auto
          then show ?thesis
            using t(5) h(6) that(2) by blast
        qed
        ultimately show ?thesis
          unfolding e Inr using t h(2) s [of "v + Suc i + n"] by simp
      qed
    next
      case nb: False
      have "back_pages g (pmm_page_to_addr v) flags i (Suc n) = Inl (i, free_frame h a)"
        using al mp False nb by (simp add: fl_def pa_plus)
      then show ?thesis
        using bp(2) [OF nb] by simp
    qed
  qed
qed

lemma unmap_pages_ok:
  assumes "paging_ok g" "owned g A" "{v..<v + n} \<subseteq> A" "\<forall>j\<in>A. j < 2 ^ 20"
  shows "paging_ok (unmap_pages g (pmm_page_to_addr v) n) \<and>
    current_page_directory (unmap_pages g (pmm_page_to_addr v) n) = current_page_directory g \<and>
    owned (unmap_pages g (pmm_page_to_addr v) n) (A - {v..<v + n}) \<and>
    (\<forall>k<2 ^ 20. page_frame (unmap_pages g (pmm_page_to_addr v) n) k = (if k \<in> {v..<v + n} then None else page_frame g k))"
  using assms
proof (induction n arbitrary: g v A)
  case 0
  then show ?case
    by simp
next
  case (Suc n)
  have vA: "v \<in> A"
    using Suc.prems(3) by (auto simp: subset_iff)
  then have v: "v < 2 ^ 20"
    using Suc.prems(4) by blast
  obtain f where f: "page_frame g v = Some f" "data_frame g f"
    using owned_frame [OF Suc.prems(2) vA] by blast
  have ph: "paging_get_physical_address g (pmm_page_to_addr v) = f" "f \<noteq> 0"
    using f by (simp_all add: physical_address_translate page_frame_def offset_pa data_frame_def in_use_def used_frame_def)
  define u where "u = free_frame g f"
  define h where "h = paging_unmap_page u (pmm_page_to_addr v)"
  have fr: "paging_ok u" "page_frame u = page_frame g" "\<And>x. data_frame g x \<Longrightarrow> x \<noteq> f \<Longrightarrow> data_frame u x"
    using free_data [OF Suc.prems(1) f(2)] by (simp_all add: u_def)
  note um = unmap_page_ok [OF fr(1), of "pmm_page_to_addr v"]
  have h: "paging_ok h" "current_page_directory h = current_page_directory g"
    using um by (simp_all add: h_def u_def)
  have pf: "page_frame h k = (if k = v then None else page_frame g k)" if "k < 2 ^ 20" for k
  proof -
    have "translate h (current_page_directory g) (pmm_page_to_addr k) =
        (if pmm_page_to_addr k = pmm_page_to_addr v then None else translate u (current_page_directory g) (pmm_page_to_addr k))"
      using um by (simp add: h_def) (simp add: u_def)
    then show ?thesis
      using fun_cong [OF fr(2), of k] pa_inj [OF that v] h(2) by (simp add: page_frame_def) (simp add: u_def)
  qed
  have "owned h (A - {v})"
  proof (rule owned_cong [of g])
    show "owned g (A - {v})"
      using owned_mono [OF Suc.prems(2)] by auto
    show "page_frame h k = page_frame g k" if "k \<in> A - {v}" for k
      using pf [of k] that Suc.prems(4) by auto
    show "data_frame h x" if "k \<in> A - {v}" "page_frame g k = Some x" "data_frame g x" for k x
    proof -
      have "x \<noteq> f"
        using Suc.prems(2) vA that(1,2) f(1) by (auto simp: owned_def inj_on_def)
      then show ?thesis
        using unmap_page_data [OF fr(1)] fr(3) that(3) by (simp add: h_def)
    qed
  qed
  note IH = Suc.IH [OF h(1) this, of "Suc v"]
  have "{Suc v..<Suc v + n} \<subseteq> A - {v}" "\<forall>j\<in>A - {v}. j < 2 ^ 20"
    using Suc.prems(3,4) by auto
  note IH = IH [OF this]
  have e: "unmap_pages g (pmm_page_to_addr v) (Suc n) = unmap_pages h (pmm_page_to_addr (Suc v)) n"
    using ph by (simp add: h_def u_def pa_Suc)
  have "A - {v} - {Suc v..<Suc v + n} = A - {v..<v + Suc n}"
    by auto
  moreover have "page_frame (unmap_pages h (pmm_page_to_addr (Suc v)) n) k =
      (if k \<in> {v..<v + Suc n} then None else page_frame g k)" if "k < 2 ^ 20" for k
  proof -
    have "page_frame (unmap_pages h (pmm_page_to_addr (Suc v)) n) k = (if k \<in> {Suc v..<Suc v + n} then None else page_frame h k)"
      using IH that by blast
    then show ?thesis
      using pf [OF that] by auto
  qed
  ultimately show ?case
    unfolding e using IH h(2) by simp
qed

subsection \<open>The invariant of the manager\<close>

text \<open>The pages of the used areas above the kernel image are owned, and all bounds are page aligned.\<close>

fun area_pages :: "area \<Rightarrow> nat set" where
  "area_pages (a, b, fl, f) = (if f \<or> a < VMM_USER_START then {} else {pmm_addr_to_page a..<pmm_addr_to_page b})"

definition vmm_pages :: "area list \<Rightarrow> nat set" where
  "vmm_pages xs = (\<Union>x\<in>set xs. area_pages x)"

definition bounded :: "area list \<Rightarrow> bool" where
  "bounded xs \<longleftrightarrow> (\<forall>(a, b, _)\<in>set xs. a \<noteq> 0 \<and> paging_align_down a = a \<and> paging_align_down b = b)"

definition areas_ok :: "area list \<Rightarrow> bool" where
  "areas_ok xs \<longleftrightarrow> spaced xs \<and> bounded xs"

lemma bounded_simps [simp]:
  "bounded []" "bounded (xs @ ys) \<longleftrightarrow> bounded xs \<and> bounded ys"
  "bounded ((a, b, x) # xs) \<longleftrightarrow> a \<noteq> 0 \<and> paging_align_down a = a \<and> paging_align_down b = b \<and> bounded xs"
  by (simp_all add: bounded_def ball_Un)

definition vmm_inv :: "vmm \<Rightarrow> rptr list \<Rightarrow> bool" where
  "vmm_inv s ps \<longleftrightarrow> rlist s ps \<and> pool_ok s (set ps) \<and> areas_ok (areas s ps) \<and> paging_ok (pg s) \<and>
     owned (pg s) (vmm_pages (areas s ps))"

lemma page_mono: "a \<le> b \<Longrightarrow> pmm_addr_to_page a \<le> pmm_addr_to_page b"
  by (simp add: pmm_addr_to_page_def PMM_PAGE_SIZE_def unat_div word_le_nat_alt div_le_mono)

lemma vmm_pages_limit: "k \<in> vmm_pages xs \<Longrightarrow> k < 2 ^ 20"
proof -
  assume "k \<in> vmm_pages xs"
  then obtain a b fl f where "k \<in> area_pages (a, b, fl, f)"
    by (auto simp: vmm_pages_def)
  then show ?thesis
    using addr_to_page_less [of b] by (auto split: if_splits)
qed

lemma vmm_pages_append [simp]: "vmm_pages (xs @ ys) = vmm_pages xs \<union> vmm_pages ys"
  by (auto simp: vmm_pages_def)

lemma vmm_pages_Cons [simp]: "vmm_pages (x # xs) = area_pages x \<union> vmm_pages xs"
  by (auto simp: vmm_pages_def)

lemma vmm_pages_Nil [simp]: "vmm_pages [] = {}"
  by (simp add: vmm_pages_def)

lemma vmm_pages_used: "vmm_pages (used_areas xs) = vmm_pages xs"
  by (auto simp: vmm_pages_def used_areas_def)

lemma vmm_pages_disjoint:
  assumes "spaced (xs @ (a, b, x) # ys)"
  shows "vmm_pages (xs @ ys) \<inter> {pmm_addr_to_page a..<pmm_addr_to_page b} = {}"
proof -
  note sp = spaced_append [OF assms]
  have "k < pmm_addr_to_page a \<or> k \<ge> pmm_addr_to_page b" if "(c, d, fl, f) \<in> set (xs @ ys)" "k \<in> area_pages (c, d, fl, f)" for c d fl f k
  proof -
    have k: "pmm_addr_to_page c \<le> k" "k < pmm_addr_to_page d"
      using that(2) by (auto split: if_splits)
    have "d \<le> a \<or> b \<le> c"
      using sp that(1) by auto
    then show ?thesis
      using k page_mono [of d a] page_mono [of b c] by auto
  qed
  then show ?thesis
    unfolding vmm_pages_def by (fastforce simp del: area_pages.simps)
qed

text \<open>A size of \<open>p\<close> pages fits between two aligned addresses.\<close>

lemma pages_fit:
  assumes "0 < unat p" "unat p < 2 ^ 20" and "paging_align_down a = a" "paging_align_down b = b" "a < b" and "p * PAGE_SIZE \<le> b - a"
  shows "pmm_addr_to_page a + unat p \<le> pmm_addr_to_page b" "a < a + p * PAGE_SIZE" "a + p * PAGE_SIZE \<le> b"
    "pmm_addr_to_page (a + p * PAGE_SIZE) = pmm_addr_to_page a + unat p" "paging_align_down (a + p * PAGE_SIZE) = a + p * PAGE_SIZE"
    "a + p * PAGE_SIZE = b \<longleftrightarrow> b - a = p * PAGE_SIZE"
proof -
  have up: "unat (p * PAGE_SIZE) = unat p * 4096"
    using assms(2) by (simp add: unat_mult_lem [THEN iffD1] PAGE_SIZE_def)
  have uab: "unat (b - a) = unat b - unat a" "unat a < unat b"
    using assms(5) by (simp_all add: unat_sub word_less_nat_alt order_less_imp_le)
  have le: "unat a + unat p * 4096 \<le> unat b"
    using assms(6) uab up by (simp add: word_le_nat_alt)
  then have sum: "unat (a + p * PAGE_SIZE) = unat a + unat p * 4096"
    using up unat_lt_32 [of b] by (simp add: unat_plus_if')
  show "a < a + p * PAGE_SIZE" "a + p * PAGE_SIZE \<le> b"
    using sum le assms(1) by (simp_all add: word_less_nat_alt word_le_nat_alt)
  show page: "pmm_addr_to_page (a + p * PAGE_SIZE) = pmm_addr_to_page a + unat p"
    using sum by (simp add: pmm_addr_to_page_def unat_div PMM_PAGE_SIZE_def)
  show "pmm_addr_to_page a + unat p \<le> pmm_addr_to_page b"
    unfolding page [symmetric] by (rule page_mono [OF \<open>a + p * PAGE_SIZE \<le> b\<close>])
  have "a = pmm_page_to_addr (pmm_addr_to_page a)"
    using align_down_pmm [of a] assms(3) by simp
  then have "a + p * PAGE_SIZE = pmm_page_to_addr (pmm_addr_to_page a + unat p)"
    using pa_plus [of "pmm_addr_to_page a" "unat p"] by simp
  then show "paging_align_down (a + p * PAGE_SIZE) = a + p * PAGE_SIZE"
    by simp
  show "a + p * PAGE_SIZE = b \<longleftrightarrow> b - a = p * PAGE_SIZE"
    by (metis add.commute add_diff_cancel_right' diff_add_cancel)
qed

subsection \<open>Allocation and release on lists of areas\<close>

definition fits :: "u32 \<Rightarrow> u32 \<Rightarrow> area \<Rightarrow> bool" where
  "fits sz flags = (\<lambda>(a, b, fl, f). f \<and> sz \<le> b - a \<and> (flags AND VMM_USER = 0) = is_kernel_address a)"

text \<open>First fit: the front of the first fitting area is taken.\<close>

fun carve :: "u32 \<Rightarrow> u32 \<Rightarrow> area list \<Rightarrow> (u32 \<times> area list) option" where
  "carve sz flags [] = None"
| "carve sz flags ((a, b, fl, f) # xs) =
     (if fits sz flags (a, b, fl, f)
      then Some (a, (a, a + sz, flags OR VMM_PRESENT, False) # (if b - a = sz then [] else [(a + sz, b, fl, f)]) @ xs)
      else map_option (\<lambda>(r, ys). (r, (a, b, fl, f) # ys)) (carve sz flags xs))"

text \<open>Release: the area becomes free and is merged with its free neighbours.\<close>

definition release :: "u32 \<Rightarrow> area list \<Rightarrow> area list" where
  "release r xs = merge_areas (map (\<lambda>(a, b, fl, f). (a, b, fl, f \<or> a = r)) xs)"

lemma suitable_fits: "suitable r sz flags = fits sz flags (area_of r)"
  by (auto simp: suitable_def fits_def area_of_def)

lemma carve_append:
  "\<forall>x\<in>set xs. \<not> fits sz flags x \<Longrightarrow> fits sz flags (a, b, fl, f) \<Longrightarrow>
    carve sz flags (xs @ (a, b, fl, f) # ys) =
      Some (a, xs @ (a, a + sz, flags OR VMM_PRESENT, False) # (if b - a = sz then [] else [(a + sz, b, fl, f)]) @ ys)"
  by (induction xs) auto

lemma carve_None: "\<forall>x\<in>set xs. \<not> fits sz flags x \<Longrightarrow> carve sz flags xs = None"
  by (induction xs) auto

lemma spaced_starts: "spaced (xs @ (a, x) # ys) \<Longrightarrow> (c, z) \<in> set (xs @ ys) \<Longrightarrow> c \<noteq> a"
  using spaced_append [of xs a "fst x" "snd x" ys] by (cases x) fastforce

lemma release_split:
  assumes "spaced (xs @ (a, b, fl, f) # ys)"
  shows "release a (xs @ (a, b, fl, f) # ys) = merge_areas (xs @ (a, b, fl, True) # ys)"
proof -
  have "map (\<lambda>(c, b, fl, f). (c, b, fl, f \<or> c = a)) zs = zs" if "set zs \<subseteq> set (xs @ ys)" for zs
    using that spaced_starts [OF assms] by (induction zs) auto
  then show ?thesis
    by (simp add: release_def)
qed

lemma bounded_merge: "bounded xs \<Longrightarrow> bounded (merge_areas xs)"
  by (induction xs rule: merge_areas.induct) auto

lemma areas_ok_merge: "areas_ok xs \<Longrightarrow> areas_ok (merge_areas xs)"
  by (simp add: areas_ok_def spaced_merge bounded_merge)

lemma spaced_same_bounds:
  "map (\<lambda>x. (fst x, fst (snd x))) xs = map (\<lambda>x. (fst x, fst (snd x))) ys \<Longrightarrow> spaced xs = spaced ys"
proof (induction xs arbitrary: ys)
  case (Cons x xs)
  then obtain y zs where ys: "ys = y # zs" "fst x = fst y" "fst (snd x) = fst (snd y)"
      "map (\<lambda>x. (fst x, fst (snd x))) xs = map (\<lambda>x. (fst x, fst (snd x))) zs"
    by (cases ys) auto
  then show ?case
    using Cons.IH [OF ys(4)] by (cases x; cases y; cases xs; cases zs) (auto simp: spaced_Cons)
qed simp

lemma areas_ok_flags:
  "areas_ok (xs @ (a, b, x) # ys) = areas_ok (xs @ (a, b, y) # ys)"
  using spaced_same_bounds [of "xs @ (a, b, x) # ys" "xs @ (a, b, y) # ys"] by (auto simp: areas_ok_def)

lemma areas_ok_split:
  assumes "areas_ok (xs @ (a, b, x) # ys)" and "a < c" "c < b" "paging_align_down c = c"
  shows "areas_ok (xs @ (a, c, y) # (c, b, z) # ys)"
proof -
  have "spaced (xs @ (a, c, y) # (c, b, z) # ys)"
    using assms(1-3) unfolding areas_ok_def
  proof (induction xs)
    case Nil
    then show ?case by (auto simp: spaced_Cons split: list.splits)
  next
    case (Cons w ws)
    obtain d e u where w: "w = (d, e, u)" by (cases w)
    show ?case
      using Cons unfolding w by (cases ws) (auto simp: spaced_Cons)
  qed
  moreover have "c \<noteq> 0"
    using assms(2) by auto
  ultimately show ?thesis
    using assms(1,4) by (auto simp: areas_ok_def)
qed

lemma find_region_ok:
  assumes "rlist s (xs @ p # ys)" "spaced (areas s (xs @ p # ys))" "r_start (region s p) \<le> v" "v < r_end (region s p)"
  shows "vmm_find_region s v = Some p"
proof -
  have sp: "spaced (areas s xs @ (r_start (region s p), r_end (region s p), r_flags (region s p), is_free (region s p)) # areas s ys)"
    using assms(2) by (simp add: area_of_def)
  have "\<not> (r_start (region s x) \<le> v \<and> v < r_end (region s x))" if "x \<in> set xs" for x
  proof -
    have "area_of (region s x) \<in> set (areas s xs)"
      using that by (simp add: areas_def)
    then show ?thesis
      using spaced_append [OF sp] assms(3) by (fastforce simp: area_of_def)
  qed
  then have "find (\<lambda>p. r_start (region s p) \<le> v \<and> r_end (region s p) > v) (xs @ p # ys) = Some p"
    using assms(3,4) by (induction xs) auto
  then show ?thesis
    unfolding vmm_find_region_def using find_region_from_ok [of s] assms(1) by (fastforce simp: rlist_def)
qed

subsection \<open>Allocation\<close>

lemma put_areas:
  assumes "rlist s (xs @ p # ys)" "pool_ok s (set (xs @ p # ys))"
    and "t = s\<lparr>region := (region s)(p := r)\<rparr>" "r_next r = r_next (region s p)" "r_prev r = r_prev (region s p)"
  shows "rlist t (xs @ p # ys)" "pool_ok t (set (xs @ p # ys))" "areas t (xs @ p # ys) = areas s xs @ area_of r # areas s ys"
proof -
  have "distinct (xs @ p # ys)"
    using assms(1) by (simp add: rlist_def)
  then show "areas t (xs @ p # ys) = areas s xs @ area_of r # areas s ys"
    by (auto simp: assms(3) areas_def)
  show "rlist t (xs @ p # ys)" "pool_ok t (set (xs @ p # ys))"
    using put_area_ok [OF assms(1,2) _ assms(3-5)] by simp_all
qed

lemma take_region_ok:
  assumes "rlist s (xs @ p # ys)" "pool_ok s (set (xs @ p # ys))" "is_free (region s p)"
    and "r_end (region s p) - r_start (region s p) = sz \<or> r_start (region s p) < r_start (region s p) + sz \<and> r_start (region s p) + sz < r_end (region s p)"
  shows "take_region s p sz flags = (False, s) \<or>
    (\<exists>t zs. take_region s p sz flags = (True, t) \<and> rlist t (xs @ p # zs @ ys) \<and> pool_ok t (set (xs @ p # zs @ ys)) \<and> pg t = pg s \<and>
       areas t (xs @ p # zs @ ys) = areas s xs @ (r_start (region s p), r_start (region s p) + sz, flags OR VMM_PRESENT, False) #
         (if r_end (region s p) - r_start (region s p) = sz then []
          else [(r_start (region s p) + sz, r_end (region s p), r_flags (region s p), True)]) @ areas s ys)"
proof (cases "r_end (region s p) - r_start (region s p) = sz")
  case True
  define r where "r = (region s p)\<lparr>is_free := False, r_flags := flags OR VMM_PRESENT\<rparr>"
  define t where "t = s\<lparr>region := (region s)(p := r)\<rparr>"
  have tr: "take_region s p sz flags = (True, t)"
    using True by (simp add: take_region_def put_defs t_def r_def)
  have e: "r_start (region s p) + sz = r_end (region s p)"
    using True by auto
  have "r_next r = r_next (region s p)" "r_prev r = r_prev (region s p)"
    by (simp_all add: r_def)
  note pa = put_areas [OF assms(1,2) t_def this]
  have "pg t = pg s"
    by (simp add: t_def)
  moreover have "area_of r = (r_start (region s p), r_start (region s p) + sz, flags OR VMM_PRESENT, False)"
    unfolding e by (simp add: r_def area_of_def)
  ultimately show ?thesis
    using pa tr True by (intro disjI2 exI [of _ t] exI [of _ "[]"]) simp
next
  case False
  let ?m = "r_start (region s p) + sz"
  have sp: "r_start (region s p) < ?m" "?m < r_end (region s p)"
    using assms(4) False by auto
  from split_region_ok [OF assms(1,2) sp] show ?thesis
  proof (elim disjE exE conjE)
    assume "vmm_split_region s p ?m = (RNull, s)"
    then show ?thesis
      using False by (simp add: take_region_def)
  next
    fix q u
    assume u: "vmm_split_region s p ?m = (p, u)" "rlist u (xs @ p # q # ys)" "pool_ok u (set (xs @ p # q # ys))"
      "pg u = pg s" "area_of (region u p) = (r_start (region s p), ?m, r_flags (region s p), is_free (region s p))"
      "area_of (region u q) = (?m, r_end (region s p), r_flags (region s p), is_free (region s p))"
      "\<forall>x\<in>set (xs @ ys). area_of (region u x) = area_of (region s x)"
    have pn: "p \<noteq> RNull"
      using assms(1) dll_null by (fastforce simp: rlist_def)
    define r where "r = (region u p)\<lparr>is_free := False, r_flags := flags OR VMM_PRESENT\<rparr>"
    define t where "t = u\<lparr>region := (region u)(p := r)\<rparr>"
    have tr: "take_region s p sz flags = (True, t)"
      using False u(1) pn by (simp add: take_region_def put_defs t_def r_def)
    have "r_next r = r_next (region u p)" "r_prev r = r_prev (region u p)"
      by (simp_all add: r_def)
    note pa = put_areas [OF u(2,3) t_def this]
    have "areas u xs = areas s xs" "areas u ys = areas s ys"
      using u(7) by (auto simp: areas_def)
    moreover have "area_of r = (r_start (region s p), ?m, flags OR VMM_PRESENT, False)"
      using u(5) by (simp add: r_def area_of_def)
    moreover have "pg t = pg s"
      using u(4) by (simp add: t_def)
    ultimately show ?thesis
      using pa tr False u(6) assms(3) by (intro disjI2 exI [of _ t] exI [of _ "[q]"]) simp
  qed
qed

text \<open>Undoing a partial allocation.\<close>

lemma free_region_ok:
  assumes "rlist s (xs @ p # ys)" "pool_ok s (set (xs @ p # ys))" "areas_ok (areas s (xs @ p # ys))"
    and "areas s (xs @ p # ys) = as @ (a, b, fl, f) # bs" "length as = length xs"
  shows "\<exists>t qs. vmm_merge_free_regions (put_free p True s) = Some t \<and> rlist t qs \<and> pool_ok t (set qs) \<and> pg t = pg s \<and>
    areas t qs = merge_areas (as @ (a, b, fl, True) # bs) \<and> areas_ok (areas t qs)"
proof -
  define r where "r = (region s p)\<lparr>is_free := True\<rparr>"
  define u where "u = put_free p True s"
  have u: "u = s\<lparr>region := (region s)(p := r)\<rparr>"
    by (simp add: u_def put_defs r_def)
  have "r_next r = r_next (region s p)" "r_prev r = r_prev (region s p)"
    by (simp_all add: r_def)
  note pa = put_areas [OF assms(1,2) u this]
  have "length (areas s xs) = length xs"
    by (simp add: areas_def)
  then have eqs: "areas s xs = as" "area_of (region s p) = (a, b, fl, f)" "areas s ys = bs"
    using assms(4,5) by auto
  have ar: "areas u (xs @ p # ys) = as @ (a, b, fl, True) # bs"
    unfolding pa(3) using eqs by (auto simp: r_def area_of_def)
  have ok: "areas_ok (as @ (a, b, fl, True) # bs)"
    using assms(3,4) areas_ok_flags [of as a b "(fl, f)" bs "(fl, True)"] by simp
  then have "vmm_ok u (xs @ p # ys)"
    using pa(1,2) by (simp add: vmm_ok_def ar areas_ok_def del: areas_simps)
  from merge_ok [OF this] obtain t qs where t: "vmm_merge_free_regions u = Some t" "vmm_ok t qs" "pg t = pg u"
      "areas t qs = merge_areas (as @ (a, b, fl, True) # bs)"
    unfolding ar by blast
  have "pg u = pg s"
    by (simp add: u)
  then show ?thesis
    using t areas_ok_merge [OF ok] unfolding u_def [symmetric] by (auto simp: vmm_ok_def)
qed

lemma is_aligned_iff: "paging_is_aligned a \<longleftrightarrow> paging_align_down a = a"
  using pmm_is_aligned_iff [of a] by (simp add: paging_is_aligned_def pmm_is_aligned_def PAGE_SIZE_def PMM_PAGE_SIZE_def)

lemma unmap_region_ok:
  assumes "a = pmm_page_to_addr v" "a \<noteq> 0" "m < 2 ^ 20" "paging_ok (pg s)" "owned (pg s) A" "{v..<v + m} \<subseteq> A" "\<forall>j\<in>A. j < 2 ^ 20"
  shows "\<exists>g. snd (vmm_unmap_region s a (of_nat m)) = s\<lparr>pg := g\<rparr> \<and> paging_ok g \<and> owned g (A - {v..<v + m}) \<and>
    current_page_directory g = current_page_directory (pg s) \<and>
    (\<forall>k<2 ^ 20. page_frame g k = (if k \<in> {v..<v + m} then None else page_frame (pg s) k))"
proof -
  have m: "unat (of_nat m :: u32) = m"
    using assms(3) by (simp add: unat_of_nat take_bit_nat_eq_self)
  have "snd (vmm_unmap_region s a (of_nat m)) = s\<lparr>pg := unmap_pages (pg s) a m\<rparr>"
  proof (cases "m = 0")
    case False
    then have "(of_nat m :: u32) \<noteq> 0"
      using m by (metis unat_0)
    then show ?thesis
      using assms(1,2) m by (simp add: vmm_unmap_region_def is_aligned_iff)
  qed (simp add: vmm_unmap_region_def)
  then show ?thesis
    using unmap_pages_ok [OF assms(4-7)] assms(1) by auto
qed

lemma give_back_ok:
  assumes "rlist s (xs @ p # ys)" "pool_ok s (set (xs @ p # ys))" "areas_ok (areas s (xs @ p # ys))"
    and "areas s (xs @ p # ys) = as @ (a, b, fl, f) # bs" "length as = length xs"
    and "a = pmm_page_to_addr v" "m < 2 ^ 20" "paging_ok (pg s)" "owned (pg s) (A \<union> {v..<v + m})" "A \<inter> {v..<v + m} = {}"
    and "\<forall>j\<in>A \<union> {v..<v + m}. j < 2 ^ 20"
  shows "\<exists>t qs. give_back s a m = Some t \<and> rlist t qs \<and> pool_ok t (set qs) \<and>
    areas t qs = merge_areas (as @ (a, b, fl, True) # bs) \<and> areas_ok (areas t qs) \<and> paging_ok (pg t) \<and> owned (pg t) A \<and>
    (\<forall>k<2 ^ 20. k \<notin> {v..<v + m} \<longrightarrow> page_frame (pg t) k = page_frame (pg s) k)"
proof -
  have ar: "areas_ok (as @ (a, b, fl, f) # bs)"
    using assms(3,4) by simp
  then have ab: "a < b" "a \<noteq> 0"
    using spaced_append [of as a b "(fl, f)" bs] by (simp_all add: areas_ok_def)
  have "{v..<v + m} \<subseteq> A \<union> {v..<v + m}"
    by simp
  from unmap_region_ok [OF assms(6) ab(2) assms(7-9) this assms(11)] obtain g where
    g: "snd (vmm_unmap_region s a (of_nat m)) = s\<lparr>pg := g\<rparr>" "paging_ok g" "owned g ((A \<union> {v..<v + m}) - {v..<v + m})"
      "\<forall>k<2 ^ 20. page_frame g k = (if k \<in> {v..<v + m} then None else page_frame (pg s) k)"
    by blast
  define u where "u = s\<lparr>pg := g\<rparr>"
  have re: "areas u zs = areas s zs" "rlist u zs = rlist s zs" "region u = region s" for zs
    by (simp_all add: u_def areas_def rlist_def)
  have pool: "pool_ok u (set (xs @ p # ys))"
    by (rule pool_ok_frame [OF assms(2)]) (simp_all add: u_def)
  have "length (areas s xs) = length xs"
    by (simp add: areas_def)
  then have "area_of (region s p) = (a, b, fl, f)"
    using assms(4,5) by auto
  then have "r_start (region u p) \<le> a" "a < r_end (region u p)"
    using ab by (simp_all add: area_of_def re)
  then have fr: "vmm_find_region u a = Some p"
    using find_region_ok [of u xs p ys a] assms(1,3) by (simp add: re areas_ok_def del: areas_simps)
  have pn: "p \<noteq> RNull"
    using assms(1) dll_null by (fastforce simp: rlist_def)
  obtain t qs where t: "vmm_merge_free_regions (put_free p True u) = Some t" "rlist t qs" "pool_ok t (set qs)" "pg t = pg u"
      "areas t qs = merge_areas (as @ (a, b, fl, True) # bs)" "areas_ok (areas t qs)"
    using free_region_ok [of u xs p ys as a b fl f bs] assms(1,3,4,5) pool by (auto simp: re simp del: areas_simps)
  have "give_back s a m = Some t"
    using g(1) fr pn t(1) by (simp add: give_back_def u_def)
  moreover have "(A \<union> {v..<v + m}) - {v..<v + m} = A"
    using assms(10) by auto
  ultimately show ?thesis
    using t g by (intro exI [of _ t] exI [of _ qs]) (simp add: u_def)
qed

lemma back_region_ok:
  assumes t: "rlist t (xs @ p # ys)" "pool_ok t (set (xs @ p # ys))" "areas_ok (areas t (xs @ p # ys))"
      "areas t (xs @ p # ys) = as @ (a, b, fl, f) # bs" "length as = length xs" "a = pmm_page_to_addr v"
    and own: "paging_ok (pg t)" "owned (pg t) A" "A \<inter> {v..<v + n} = {}" "v + n < 2 ^ 20" "\<forall>j\<in>A. j < 2 ^ 20"
  shows "case back_pages (pg t) a flags 0 n of
      Inl (i, g) \<Rightarrow> \<exists>u qs. give_back (t\<lparr>pg := g\<rparr>) a i = Some u \<and> rlist u qs \<and> pool_ok u (set qs) \<and>
        areas u qs = merge_areas (as @ (a, b, fl, True) # bs) \<and> areas_ok (areas u qs) \<and> paging_ok (pg u) \<and> owned (pg u) A \<and>
        (\<forall>k<2 ^ 20. k \<notin> {v..<v + n} \<longrightarrow> page_frame (pg u) k = page_frame (pg t) k)
    | Inr g \<Rightarrow> paging_ok g \<and> owned g (A \<union> {v..<v + n}) \<and>
        (\<forall>k<2 ^ 20. k \<notin> {v..<v + n} \<longrightarrow> page_frame g k = page_frame (pg t) k) \<and>
        (\<forall>k\<in>{v..<v + n}. \<exists>f. page_frame g k = Some f \<and> \<not> in_use (pg t) f)"
proof -
  have "A \<inter> {v + 0..<v + 0 + n} = {}" "v + 0 + n \<le> 2 ^ 20"
    using own(3,4) by simp_all
  note bp = back_pages_ok [OF own(1,2) this own(5), where flags = flags]
  show ?thesis
  proof (cases "back_pages (pg t) a flags 0 n")
    case (Inl r)
    obtain i g where r: "r = (i, g)"
      by (cases r)
    have g: "i < n" "paging_ok g" "owned g (A \<union> {v..<v + i})"
        "\<forall>k<2 ^ 20. k \<notin> {v..<v + i} \<longrightarrow> page_frame g k = page_frame (pg t) k"
      using bp Inl t(6) by (simp_all add: r)
    define w where "w = t\<lparr>pg := g\<rparr>"
    have re: "areas w zs = areas t zs" "rlist w zs = rlist t zs" "pg w = g" for zs
      by (simp_all add: w_def areas_def rlist_def)
    have pool: "pool_ok w (set (xs @ p # ys))"
      by (rule pool_ok_frame [OF t(2)]) (simp_all add: w_def)
    have "i < 2 ^ 20" "A \<inter> {v..<v + i} = {}" "\<forall>j\<in>A \<union> {v..<v + i}. j < 2 ^ 20"
      using g(1) own(3-5) by auto
    from give_back_ok [of w xs p ys as a b fl f bs, unfolded re, OF t(1) pool t(3-6) this(1) g(2,3) this(2,3)]
    obtain u qs where u: "give_back w a i = Some u" "rlist u qs" "pool_ok u (set qs)"
      "areas u qs = merge_areas (as @ (a, b, fl, True) # bs)" "areas_ok (areas u qs)" "paging_ok (pg u)" "owned (pg u) A"
      "\<forall>k<2 ^ 20. k \<notin> {v..<v + i} \<longrightarrow> page_frame (pg u) k = page_frame g k"
      by blast
    have "page_frame (pg u) k = page_frame (pg t) k" if "k < 2 ^ 20" "k \<notin> {v..<v + n}" for k
      using u(8) g(1,4) that by auto
    then show ?thesis
      unfolding Inl r using u(1-7) by (auto simp: w_def)
  next
    case (Inr g)
    have g: "paging_ok g" "owned g (A \<union> {v..<v + n})" "\<forall>k<2 ^ 20. k \<notin> {v..<v + n} \<longrightarrow> page_frame g k = page_frame (pg t) k"
        "\<forall>k\<in>{v..<v + n}. \<forall>f. page_frame g k = Some f \<longrightarrow> \<not> in_use (pg t) f"
      using bp Inr t(6) by simp_all
    have "\<exists>f. page_frame g k = Some f \<and> \<not> in_use (pg t) f" if "k \<in> {v..<v + n}" for k
      using owned_frame [OF g(2), of k] g(4) that by blast
    then show ?thesis
      unfolding Inr using g(1-3) by simp
  qed
qed

lemma find_split: "find P xs = Some x \<Longrightarrow> \<exists>ys zs. xs = ys @ x # zs \<and> P x \<and> (\<forall>y\<in>set ys. \<not> P y)"
proof (induction xs)
  case (Cons a xs)
  show ?case
  proof (cases "P a")
    case True
    then show ?thesis
      using Cons.prems by (intro exI [of _ "[]"] exI [of _ xs]) simp
  next
    case False
    then obtain ys zs where "xs = ys @ x # zs" "P x" "\<forall>y\<in>set ys. \<not> P y"
      using Cons by auto
    then show ?thesis
      using False by (intro exI [of _ "a # ys"] exI [of _ zs]) simp
  qed
qed simp

lemma used_areas_simps [simp]:
  "used_areas [] = []" "used_areas ((a, b, fl, f) # xs) = (if f then used_areas xs else (a, b, fl, f) # used_areas xs)"
  "used_areas (xs @ ys) = used_areas xs @ used_areas ys"
  by (simp_all add: used_areas_def)

definition alloc_spec :: "vmm \<Rightarrow> area list \<Rightarrow> u32 \<Rightarrow> u32 \<Rightarrow> u32 \<Rightarrow> vmm \<Rightarrow> area list \<Rightarrow> bool" where
  "alloc_spec s xs pages flags r t ys \<longleftrightarrow>
     (if r = 0 then used_areas ys = used_areas xs \<and> (\<forall>k\<in>vmm_pages xs. page_frame (pg t) k = page_frame (pg s) k)
      else carve (pages * PAGE_SIZE) flags xs = Some (r, ys) \<and>
        (\<forall>k\<in>{pmm_addr_to_page r..<pmm_addr_to_page r + unat pages}. \<exists>f. page_frame (pg t) k = Some f \<and> \<not> in_use (pg s) f) \<and>
        (\<forall>k<2 ^ 20. k \<notin> {pmm_addr_to_page r..<pmm_addr_to_page r + unat pages} \<longrightarrow> page_frame (pg t) k = page_frame (pg s) k))"

lemma alloc_ok:
  assumes inv: "vmm_inv s ps" and n: "0 < unat pages" "unat pages < 2 ^ 20"
  shows "\<exists>r t qs. vmm_alloc s pages flags = Some (r, t) \<and> vmm_inv t qs \<and> alloc_spec s (areas s ps) pages flags r t (areas t qs)"
proof -
  let ?sz = "pages * PAGE_SIZE"
  let ?P = "\<lambda>p. suitable (region s p) ?sz flags"
  have rl: "rlist s ps" and pool: "pool_ok s (set ps)" and ao: "areas_ok (areas s ps)" and pok: "paging_ok (pg s)"
      and own: "owned (pg s) (vmm_pages (areas s ps))"
    using inv by (simp_all add: vmm_inv_def)
  have p0: "pages \<noteq> 0"
    using n(1) by auto
  have sc: "scan s (region_list s) ?sz flags = Some (case find ?P ps of None \<Rightarrow> RNull | Some p \<Rightarrow> p)"
    using rl scan_ok [of s] by (fastforce simp: rlist_def)
  have same: "vmm_inv s ps \<and> alloc_spec s (areas s ps) pages flags 0 s (areas s ps)"
    using inv by (simp add: alloc_spec_def)
  show ?thesis
  proof (cases "find ?P ps")
    case None
    then have "vmm_alloc s pages flags = Some (0, s)"
      using p0 sc by (simp add: vmm_alloc_def)
    then show ?thesis
      using same by blast
  next
    case (Some p)
    then obtain xs ys where ps: "ps = xs @ p # ys" and suit: "?P p" and first: "\<forall>x\<in>set xs. \<not> ?P x"
      using find_split [of ?P ps p] by blast
    define a where "a = r_start (region s p)"
    define b where "b = r_end (region s p)"
    define fl where "fl = r_flags (region s p)"
    define v where "v = pmm_addr_to_page a"
    have ar: "areas s ps = areas s xs @ (a, b, fl, True) # areas s ys"
      using suit by (simp add: ps area_of_def a_def b_def fl_def suitable_def)
    note ao' = ao [unfolded ar]
    have ab: "a < b" "a \<noteq> 0" "paging_align_down a = a" "paging_align_down b = b"
      using ao' spaced_append [of "areas s xs" a b "(fl, True)" "areas s ys"] by (simp_all add: areas_ok_def)
    have av: "a = pmm_page_to_addr v"
      using ab(3) by (simp add: v_def align_down_pmm)
    have sz: "?sz \<le> b - a"
      using suit by (simp add: suitable_def a_def b_def)
    note fit = pages_fit [OF n ab(3,4,1) sz]
    have pn: "p \<noteq> RNull"
      using rl dll_null by (fastforce simp: rlist_def ps)
    have free: "is_free (region s p)"
      using suit by (simp add: suitable_def)
    have shape: "r_end (region s p) - r_start (region s p) = ?sz \<or>
        r_start (region s p) < r_start (region s p) + ?sz \<and> r_start (region s p) + ?sz < r_end (region s p)"
      using fit(2,3,6) unfolding a_def b_def by (auto simp: order_less_le)
    have carve: "carve ?sz flags (areas s ps) = Some (a, areas s xs @ (a, a + ?sz, flags OR VMM_PRESENT, False) #
        (if b - a = ?sz then [] else [(a + ?sz, b, fl, True)]) @ areas s ys)" (is "_ = Some (a, ?new)")
    proof -
      have "\<forall>x\<in>set (areas s xs). \<not> fits ?sz flags x"
        using first by (auto simp: areas_def suitable_fits)
      moreover have "fits ?sz flags (a, b, fl, True)"
        using suit free by (simp add: suitable_fits area_of_def a_def b_def fl_def)
      ultimately show ?thesis
        unfolding ar by (rule carve_append)
    qed
    have new_ok: "areas_ok ?new"
    proof (cases "b - a = ?sz")
      case True
      then show ?thesis
        using ao' areas_ok_flags [of "areas s xs" a b "(fl, True)" "areas s ys"] fit(6) by simp
    next
      case False
      then have "a + ?sz < b"
        using fit(3,6) by (simp add: order_less_le)
      then show ?thesis
        using areas_ok_split [OF ao' fit(2) _ fit(5)] False by simp
    qed
    let ?A = "vmm_pages (areas s ps)"
    have disj: "?A \<inter> {v..<v + unat pages} = {}"
      using vmm_pages_disjoint [of "areas s xs" a b "(fl, True)" "areas s ys"] ao' fit(1) unfolding ar v_def areas_ok_def by auto
    have lim: "\<forall>j\<in>?A. j < 2 ^ 20" "v + unat pages < 2 ^ 20"
      using vmm_pages_limit fit(1) addr_to_page_less [of b] by (auto simp: v_def)
    from take_region_ok [OF rl [unfolded ps] pool [unfolded ps] free shape, of flags]
    show ?thesis
    proof (elim disjE exE conjE)
      assume "take_region s p ?sz flags = (False, s)"
      then have "vmm_alloc s pages flags = Some (0, s)"
        using p0 sc Some pn by (simp add: vmm_alloc_def)
      then show ?thesis
        using same by blast
    next
      fix t zs
      assume t: "take_region s p ?sz flags = (True, t)" "rlist t (xs @ p # zs @ ys)" "pool_ok t (set (xs @ p # zs @ ys))" "pg t = pg s"
        "areas t (xs @ p # zs @ ys) = areas s xs @ (r_start (region s p), r_start (region s p) + ?sz, flags OR VMM_PRESENT, False) #
         (if r_end (region s p) - r_start (region s p) = ?sz then []
          else [(r_start (region s p) + ?sz, r_end (region s p), r_flags (region s p), True)]) @ areas s ys"
      have tar: "areas t (xs @ p # zs @ ys) = ?new"
        using t(5) by (simp add: a_def b_def fl_def)
      have tok: "areas_ok (areas t (xs @ p # zs @ ys))"
        unfolding tar by (rule new_ok)
      have len: "length (areas s xs) = length xs"
        by (simp add: areas_def)
      note br = back_region_ok [OF t(2,3) tok tar len av, unfolded t(4), OF pok own disj lim(2,1), of flags]
      show ?thesis
      proof (cases "back_pages (pg s) a flags 0 (unat pages)")
        case (Inl r)
        obtain i g where r: "r = (i, g)"
          by (cases r)
        obtain u qs where u: "give_back (t\<lparr>pg := g\<rparr>) a i = Some u" "rlist u qs" "pool_ok u (set qs)"
            "areas u qs = merge_areas (areas s xs @ (a, a + ?sz, flags OR VMM_PRESENT, True) #
               (if b - a = ?sz then [] else [(a + ?sz, b, fl, True)]) @ areas s ys)"
            "areas_ok (areas u qs)" "paging_ok (pg u)" "owned (pg u) ?A"
            "\<forall>k<2 ^ 20. k \<notin> {v..<v + unat pages} \<longrightarrow> page_frame (pg u) k = page_frame (pg s) k"
          using br unfolding Inl r by auto
        have used: "used_areas (areas u qs) = used_areas (areas s ps)"
          unfolding u(4) used_merge ar by simp
        then have "vmm_pages (areas u qs) = ?A"
          by (metis vmm_pages_used)
        moreover have "\<forall>k\<in>?A. page_frame (pg u) k = page_frame (pg s) k"
          using u(8) lim(1) disj by blast
        moreover have "vmm_alloc s pages flags = Some (0, u)"
          using p0 sc Some pn t(1,4) Inl r u(1) by (simp add: vmm_alloc_def a_def)
        ultimately show ?thesis
          using u used by (intro exI [of _ 0] exI [of _ u] exI [of _ qs]) (simp add: vmm_inv_def alloc_spec_def)
      next
        case (Inr g)
        have g: "paging_ok g" "owned g (?A \<union> {v..<v + unat pages})"
            "\<forall>k<2 ^ 20. k \<notin> {v..<v + unat pages} \<longrightarrow> page_frame g k = page_frame (pg s) k"
            "\<forall>k\<in>{v..<v + unat pages}. \<exists>f. page_frame g k = Some f \<and> \<not> in_use (pg s) f"
          using br unfolding Inr by simp_all
        define u where "u = t\<lparr>pg := g\<rparr>"
        have re: "areas u qs = areas t qs" "rlist u qs = rlist t qs" "pg u = g" for qs
          by (simp_all add: u_def areas_def rlist_def)
        have pool': "pool_ok u (set (xs @ p # zs @ ys))"
          by (rule pool_ok_frame [OF t(3)]) (simp_all add: u_def)
        have "vmm_pages ?new \<subseteq> ?A \<union> {v..<v + unat pages}"
          unfolding ar by (auto simp: v_def fit(4) split: if_splits)
        then have "vmm_inv u (xs @ p # zs @ ys)"
          unfolding vmm_inv_def re tar using pool' t(2) new_ok g(1) owned_mono [OF g(2)] by blast
        moreover have "vmm_alloc s pages flags = Some (a, u)"
          using p0 sc Some pn t(1,4) Inr by (simp add: vmm_alloc_def a_def u_def)
        moreover have "alloc_spec s (areas s ps) pages flags a u (areas u (xs @ p # zs @ ys))"
          unfolding alloc_spec_def re tar using ab(2) carve g(3,4) by (simp add: v_def)
        ultimately show ?thesis
          by blast
      qed
    qed
  qed
qed

lemma free_ok:
  assumes inv: "vmm_inv s ps" and ar: "areas s ps = as @ (a, b, fl, False) # bs" and low: "VMM_USER_START \<le> a"
  shows "\<exists>t qs. vmm_free s a ((b - a) div PAGE_SIZE) = Some (True, t) \<and> vmm_inv t qs \<and> areas t qs = release a (areas s ps) \<and>
    (\<forall>k<2 ^ 20. page_frame (pg t) k = (if k \<in> {pmm_addr_to_page a..<pmm_addr_to_page b} then None else page_frame (pg s) k))"
proof -
  have rl: "rlist s ps" and pool: "pool_ok s (set ps)" and ao: "areas_ok (areas s ps)" and pok: "paging_ok (pg s)"
      and own: "owned (pg s) (vmm_pages (areas s ps))"
    using inv by (simp_all add: vmm_inv_def)
  obtain xs p ys where ps: "ps = xs @ p # ys" and eqs: "areas s xs = as" "area_of (region s p) = (a, b, fl, False)" "areas s ys = bs"
    using ar by (auto simp: areas_def map_eq_append_conv map_eq_Cons_conv)
  define v where "v = pmm_addr_to_page a"
  define m where "m = pmm_addr_to_page b - v"
  define n where "n = (b - a) div PAGE_SIZE"
  have ab: "a < b" "a \<noteq> 0" "paging_align_down a = a" "paging_align_down b = b"
    using ao spaced_append [of as a b "(fl, False)" bs] by (simp_all add: ar areas_ok_def)
  have vm: "v + m = pmm_addr_to_page b"
    using page_mono [of a b] ab(1) by (simp add: v_def m_def)
  have av: "a = pmm_page_to_addr v" and bv: "b = pmm_page_to_addr (v + m)"
    unfolding vm unfolding v_def using ab(3,4) align_down_pmm by metis+
  have lim: "v < 2 ^ 20" "v + m < 2 ^ 20"
    unfolding vm unfolding v_def by (rule addr_to_page_less)+
  have un: "unat a = v * 4096" "unat b = (v + m) * 4096" "m < 2 ^ 20"
    using unat_pa [OF lim(1)] unat_pa [OF lim(2)] lim(2) unfolding av [symmetric] bv [symmetric] by simp_all
  have "m \<noteq> 0"
    using ab(1) av bv by (cases "m = 0") simp_all
  have "unat (b - a) = m * 4096"
    using ab(1) un by (simp add: unat_sub order_less_imp_le)
  then have "unat n = m" "unat (n * PAGE_SIZE) = unat (b - a)"
    using un(3) by (simp_all add: n_def unat_div PAGE_SIZE_def unat_mult_lem [THEN iffD1])
  then have nm: "n = of_nat m" "n * PAGE_SIZE = b - a" "n \<noteq> 0"
    using \<open>m \<noteq> 0\<close> by (auto simp: word_unat_eq_iff)
  have pf: "r_start (region s p) = a" "r_end (region s p) = b" "\<not> is_free (region s p)"
    using eqs(2) by (simp_all add: area_of_def)
  have find: "vmm_find_region s a = Some p"
    using find_region_ok [of s xs p ys a] rl ao ab(1) by (simp add: ps pf areas_ok_def del: areas_simps)
  have pn: "p \<noteq> RNull"
    using rl dll_null by (fastforce simp: rlist_def ps)
  let ?A = "vmm_pages (areas s ps)"
  have sub: "{v..<v + m} \<subseteq> ?A"
    using low unfolding vm by (auto simp: ar v_def linorder_not_less)
  have "\<forall>j\<in>?A. j < 2 ^ 20"
    using vmm_pages_limit by blast
  from unmap_region_ok [OF av ab(2) un(3) pok own sub this] obtain g where
    g: "snd (vmm_unmap_region s a n) = s\<lparr>pg := g\<rparr>" "paging_ok g" "owned g (?A - {v..<v + m})"
      "\<forall>k<2 ^ 20. page_frame g k = (if k \<in> {v..<v + m} then None else page_frame (pg s) k)"
    unfolding nm(1) by blast
  define u where "u = s\<lparr>pg := g\<rparr>"
  have re: "areas u zs = areas s zs" "rlist u zs = rlist s zs" for zs
    by (simp_all add: u_def areas_def rlist_def)
  have "pool_ok u (set ps)"
    by (rule pool_ok_frame [OF pool]) (simp_all add: u_def)
  then obtain t qs where t: "vmm_merge_free_regions (put_free p True u) = Some t" "rlist t qs" "pool_ok t (set qs)" "pg t = pg u"
      "areas t qs = merge_areas (as @ (a, b, fl, True) # bs)" "areas_ok (areas t qs)"
    using free_region_ok [of u xs p ys as a b fl False bs] rl ao ar eqs(1) unfolding re ps
    by (auto simp: areas_def)
  have "vmm_free s a n = Some (True, t)"
    using ab(2,3) nm find pn pf g(1) t(1) by (simp add: vmm_free_def is_aligned_iff u_def)
  moreover have "areas t qs = release a (areas s ps)"
    unfolding t(5) ar using ao ar by (intro release_split [symmetric]) (simp add: areas_ok_def)
  moreover have "vmm_pages (areas t qs) \<subseteq> ?A - {v..<v + m}"
  proof -
    have "vmm_pages (areas t qs) = vmm_pages (as @ bs)"
      using vmm_pages_used used_merge [of "as @ (a, b, fl, True) # bs"] unfolding t(5)
      by (metis used_areas_simps(2,3))
    then show ?thesis
      using vmm_pages_disjoint [of as a b "(fl, False)" bs] ao vm unfolding ar areas_ok_def v_def by auto
  qed
  then have "vmm_inv t qs"
    using t g(2) owned_mono [OF g(3)] by (simp add: vmm_inv_def u_def)
  ultimately show ?thesis
    using g(4) t(4) vm unfolding n_def [symmetric] v_def [symmetric]
    by (intro exI [of _ t] exI [of _ qs]) (simp add: u_def)
qed

subsection \<open>Start-up\<close>

definition initial_areas :: "area list" where
  "initial_areas = [(VMM_KERNEL_START, VMM_USER_START, VMM_WRITE OR VMM_PRESENT, False),
     (VMM_USER_START, VMM_USER_END, VMM_USER OR VMM_WRITE, True), (VMM_KERNEL_HEAP, VMM_KERNEL_END, VMM_WRITE, True)]"

definition vmm_reset :: "vmm \<Rightarrow> bool" where
  "vmm_reset s \<longleftrightarrow> region_list s = RNull \<and> bootstrap_pool_index s = 0 \<and> \<not> use_dynamic_allocation s \<and>
     vmm_region_page_index s = 0 \<and> vmm_region_free_list s = RNull"

lemmas vmm_consts = VMM_KERNEL_START_def VMM_USER_START_def VMM_USER_END_def VMM_KERNEL_HEAP_def VMM_KERNEL_END_def
  VMM_KERNEL_def VMM_WRITE_def VMM_PRESENT_def VMM_USER_def

lemma init_areas_ok: "areas_ok initial_areas" "vmm_pages initial_areas = {}"
proof -
  have "paging_align_down 0x100000 = 0x100000" "paging_align_down 0x400000 = 0x400000" "paging_align_down 0x40000000 = 0x40000000"
    "paging_align_down 0xC0000000 = 0xC0000000"
    by code_simp+
  then show "areas_ok initial_areas" "vmm_pages initial_areas = {}"
    by (simp_all add: initial_areas_def areas_ok_def vmm_consts)
qed

lemma init_ok:
  assumes "vmm_reset s"
  shows "\<exists>t. vmm_init s = Some t \<and> rlist t [Boot 0, Boot 1, Boot 2] \<and> pool_ok t (set [Boot 0, Boot 1, Boot 2]) \<and>
    areas t [Boot 0, Boot 1, Boot 2] = initial_areas \<and> pg t = pg s"
proof -
  define t where "t = the (vmm_init s)"
  have i: "vmm_init s = Some t"
    using assms
    by (simp add: t_def vmm_reset_def vmm_init_def vmm_create_region_def new_region_def vmm_insert_region_def insert_point.simps
        vmm_consts put_defs Let_def VMM_BOOTSTRAP_POOL_SIZE_def)
  have t: "region_list t = Boot 0" "bootstrap_pool_index t = 3" "\<not> use_dynamic_allocation t" "vmm_region_page_index t = 0"
      "vmm_region_free_list t = RNull" "pg t = pg s"
    using assms
    by (simp_all add: t_def vmm_reset_def vmm_init_def vmm_create_region_def new_region_def vmm_insert_region_def insert_point.simps
        vmm_consts put_defs Let_def VMM_BOOTSTRAP_POOL_SIZE_def)
  have r: "region t (Boot 0) = \<lparr>r_start = VMM_KERNEL_START, r_end = VMM_USER_START, r_flags = VMM_WRITE OR VMM_PRESENT, is_free = False,
        r_next = Boot 1, r_prev = RNull\<rparr>"
      "region t (Boot 1) = \<lparr>r_start = VMM_USER_START, r_end = VMM_USER_END, r_flags = VMM_USER OR VMM_WRITE, is_free = True,
        r_next = Boot 2, r_prev = Boot 0\<rparr>"
      "region t (Boot 2) = \<lparr>r_start = VMM_KERNEL_HEAP, r_end = VMM_KERNEL_END, r_flags = VMM_WRITE, is_free = True,
        r_next = RNull, r_prev = Boot 1\<rparr>"
    using assms
    by (simp_all add: t_def vmm_reset_def vmm_init_def vmm_create_region_def new_region_def vmm_insert_region_def insert_point.simps
        vmm_consts put_defs Let_def VMM_BOOTSTRAP_POOL_SIZE_def)
  have "rlist t [Boot 0, Boot 1, Boot 2]"
    by (simp add: rlist_def t r [unfolded One_nat_def])
  moreover have "pool_ok t (set [Boot 0, Boot 1, Boot 2])"
    unfolding pool_ok_def using t by (intro conjI exI [of _ "[]"]) (simp_all add: taken_def VMM_BOOTSTRAP_POOL_SIZE_def)
  moreover have "areas t [Boot 0, Boot 1, Boot 2] = initial_areas"
    by (simp add: area_of_def r [unfolded One_nat_def] initial_areas_def)
  ultimately show ?thesis
    using i t by simp
qed

text \<open>The freshly initialised manager on the small machine.\<close>

definition reset_vmm :: "paging \<Rightarrow> vmm" where
  "reset_vmm g = \<lparr>pg = g, region = (\<lambda>_. \<lparr>r_start = 0, r_end = 0, r_flags = 0, is_free = False, r_next = RNull, r_prev = RNull\<rparr>),
     region_list = RNull, bootstrap_pool_index = 0, use_dynamic_allocation = False, vmm_region_page_phys = 0,
     vmm_region_page_index = 0, vmm_region_free_list = RNull, total_regions_created = 0, total_regions_destroyed = 0,
     bootstrap_regions_created = 0, dynamic_regions_created = 0\<rparr>"

definition tiny_vmm :: vmm where
  "tiny_vmm = the (vmm_init (reset_vmm tiny_paging))"

lemma tiny_vmm_inv:
  "vmm_inv tiny_vmm [Boot 0, Boot 1, Boot 2]" "areas tiny_vmm [Boot 0, Boot 1, Boot 2] = initial_areas" "pg tiny_vmm = tiny_paging"
proof -
  have "vmm_reset (reset_vmm tiny_paging)" "pg (reset_vmm tiny_paging) = tiny_paging"
    by (simp_all add: vmm_reset_def reset_vmm_def)
  with init_ok [of "reset_vmm tiny_paging"] show a: "areas tiny_vmm [Boot 0, Boot 1, Boot 2] = initial_areas" "pg tiny_vmm = tiny_paging"
    and "vmm_inv tiny_vmm [Boot 0, Boot 1, Boot 2]"
    using init_areas_ok tiny_ok by (auto simp: tiny_vmm_def vmm_inv_def owned_def simp del: areas_simps)
qed

lemma tiny_vmm_alloc: "fst (the (vmm_alloc tiny_vmm 1 VMM_WRITE)) = VMM_KERNEL_HEAP"
  by code_simp

definition tiny_vmm_used :: vmm where
  "tiny_vmm_used = snd (the (vmm_alloc tiny_vmm 1 VMM_WRITE))"

definition heap_areas :: "area list" where
  "heap_areas = [(VMM_KERNEL_START, VMM_USER_START, VMM_WRITE OR VMM_PRESENT, False), (VMM_USER_START, VMM_USER_END, VMM_USER OR VMM_WRITE, True),
     (VMM_KERNEL_HEAP, VMM_KERNEL_HEAP + PAGE_SIZE, VMM_WRITE OR VMM_PRESENT, False), (VMM_KERNEL_HEAP + PAGE_SIZE, VMM_KERNEL_END, VMM_WRITE, True)]"

lemma first_heap_page:
  assumes "vmm_inv s ps" "areas s ps = initial_areas" "vmm_alloc s 1 VMM_WRITE = Some (r, t)" "r \<noteq> 0"
  shows "r = VMM_KERNEL_HEAP \<and> (\<exists>qs. vmm_inv t qs \<and> areas t qs = heap_areas)"
proof -
  have "carve (1 * PAGE_SIZE) VMM_WRITE initial_areas = Some (VMM_KERNEL_HEAP, heap_areas)"
    by code_simp
  then show ?thesis
    using alloc_ok [OF assms(1), of 1 VMM_WRITE] assms(2-4) by (auto simp: alloc_spec_def)
qed

lemma tiny_vmm_used_inv: "\<exists>qs. vmm_inv tiny_vmm_used qs \<and> areas tiny_vmm_used qs = heap_areas"
proof -
  obtain r t where r: "vmm_alloc tiny_vmm 1 VMM_WRITE = Some (r, t)"
    using alloc_ok [OF tiny_vmm_inv(1), of 1 VMM_WRITE] by auto
  moreover have "r \<noteq> 0"
    using tiny_vmm_alloc r by (simp add: VMM_KERNEL_HEAP_def)
  ultimately show ?thesis
    using first_heap_page [OF tiny_vmm_inv(1,2)] by (simp add: tiny_vmm_used_def)
qed

lemma alloc_none:
  assumes "rlist s ps" "\<forall>x\<in>set (areas s ps). \<not> fits (n * PAGE_SIZE) flags x"
  shows "vmm_alloc s n flags = Some (0, s)"
proof -
  have "find (\<lambda>p. suitable (region s p) (n * PAGE_SIZE) flags) ps = None"
    using assms(2) by (auto simp: find_None_iff areas_def suitable_fits)
  moreover have "dll (rnext s) (rprev s) RNull RNull (region_list s) ps"
    using assms(1) by (simp add: rlist_def)
  ultimately show ?thesis
    using scan_ok [of s "rprev s" RNull "region_list s" ps "n * PAGE_SIZE" flags] by (simp add: vmm_alloc_def)
qed

subsection \<open>Properties\<close>



text \<open>C31. Release of virtual memory: given the start and the size of a used area above the kernel image, \<open>vmm_free\<close> succeeds,
  keeps the invariant, makes the area free and merges it with its free neighbours, takes every page of the
  area out of the page tables and changes no other page.\<close>

theorem vmm_free_correct:
  assumes "vmm_inv s ps" and "areas s ps = xs @ (a, b, fl, False) # ys" and "VMM_USER_START \<le> a"
  shows "\<exists>t qs. vmm_free s a ((b - a) div PAGE_SIZE) = Some (True, t) \<and> vmm_inv t qs \<and>
    areas t qs = merge_areas (xs @ (a, b, fl, True) # ys) \<and> used_areas (areas t qs) = used_areas (xs @ ys) \<and>
    (\<forall>k<2 ^ 20. page_frame (pg t) k = (if k \<in> {pmm_addr_to_page a..<pmm_addr_to_page b} then None else page_frame (pg s) k))"
proof -
  have "spaced (xs @ (a, b, fl, False) # ys)"
    using assms(1,2) by (simp add: vmm_inv_def areas_ok_def)
  then have "release a (areas s ps) = merge_areas (xs @ (a, b, fl, True) # ys)"
    unfolding assms(2) by (rule release_split)
  moreover have "used_areas (merge_areas (xs @ (a, b, fl, True) # ys)) = used_areas (xs @ ys)"
    unfolding used_merge by simp
  ultimately show ?thesis
    using free_ok [OF assms] by metis
qed

theorem vmm_free_correct_witness:
  "\<exists>t qs. vmm_free tiny_vmm_used VMM_KERNEL_HEAP 1 = Some (True, t) \<and> vmm_inv t qs \<and>
     used_areas (areas t qs) = [(VMM_KERNEL_START, VMM_USER_START, VMM_WRITE OR VMM_PRESENT, False)]"
proof -
  let ?xs = "[(VMM_KERNEL_START, VMM_USER_START, VMM_WRITE OR VMM_PRESENT, False), (VMM_USER_START, VMM_USER_END, VMM_USER OR VMM_WRITE, True)]"
  let ?ys = "[(VMM_KERNEL_HEAP + PAGE_SIZE, VMM_KERNEL_END, VMM_WRITE, True)]"
  obtain ps where ps: "vmm_inv tiny_vmm_used ps" "areas tiny_vmm_used ps =
      ?xs @ (VMM_KERNEL_HEAP, VMM_KERNEL_HEAP + PAGE_SIZE, VMM_WRITE OR VMM_PRESENT, False) # ?ys"
    using tiny_vmm_used_inv by (auto simp: heap_areas_def)
  have "VMM_USER_START \<le> VMM_KERNEL_HEAP" "(VMM_KERNEL_HEAP + PAGE_SIZE - VMM_KERNEL_HEAP) div PAGE_SIZE = 1"
    by code_simp+
  then show ?thesis
    using vmm_free_correct [OF ps] by auto
qed

text \<open>C32. The kernel heap can be lost: the manager starts with two adjacent free areas, the user area up to 1 GiB and the heap
  from there on. When the first heap page is allocated and freed again, the merge joins the two areas into one
  that starts at a user address, and from then on every kernel allocation returns \<open>NULL\<close>.\<close>

theorem vmm_kernel_heap_lost:
  assumes "vmm_inv s ps" and "areas s ps = initial_areas" and "vmm_alloc s 1 VMM_WRITE = Some (r, t)" and "r \<noteq> 0"
  shows "\<exists>u. vmm_free t r 1 = Some (True, u) \<and> (\<forall>n. vmm_alloc u n VMM_WRITE = Some (0, u))"
proof -
  let ?xs = "[(VMM_KERNEL_START, VMM_USER_START, VMM_WRITE OR VMM_PRESENT, False), (VMM_USER_START, VMM_USER_END, VMM_USER OR VMM_WRITE, True)]"
  let ?ys = "[(VMM_KERNEL_HEAP + PAGE_SIZE, VMM_KERNEL_END, VMM_WRITE, True)]"
  obtain qs where r: "r = VMM_KERNEL_HEAP" and qs: "vmm_inv t qs" "areas t qs =
      ?xs @ (VMM_KERNEL_HEAP, VMM_KERNEL_HEAP + PAGE_SIZE, VMM_WRITE OR VMM_PRESENT, False) # ?ys"
    using first_heap_page [OF assms] by (auto simp: heap_areas_def)
  have c: "VMM_USER_START \<le> VMM_KERNEL_HEAP" "(VMM_KERNEL_HEAP + PAGE_SIZE - VMM_KERNEL_HEAP) div PAGE_SIZE = 1"
    by code_simp+
  have rel: "release VMM_KERNEL_HEAP heap_areas =
      [(VMM_KERNEL_START, VMM_USER_START, VMM_WRITE OR VMM_PRESENT, False), (VMM_USER_START, VMM_KERNEL_END, VMM_USER OR VMM_WRITE, True)]"
    by code_simp
  obtain u zs where u: "vmm_free t VMM_KERNEL_HEAP 1 = Some (True, u)" "vmm_inv u zs" "areas u zs = release VMM_KERNEL_HEAP heap_areas"
    using free_ok [OF qs c(1)] unfolding c(2) qs(2) by (auto simp: heap_areas_def)
  have "\<not> is_kernel_address VMM_USER_START" "VMM_WRITE AND VMM_USER = 0"
    by code_simp+
  then have "\<forall>x\<in>set (areas u zs). \<not> fits (n * PAGE_SIZE) VMM_WRITE x" for n
    unfolding u(3) rel by (simp add: fits_def)
  then show ?thesis
    using u(1,2) r alloc_none by (auto simp: vmm_inv_def)
qed

theorem vmm_kernel_heap_lost_witness:
  "\<exists>u. vmm_free tiny_vmm_used VMM_KERNEL_HEAP 1 = Some (True, u) \<and> vmm_alloc u 1 VMM_WRITE = Some (0, u)"
proof -
  obtain r t where r: "vmm_alloc tiny_vmm 1 VMM_WRITE = Some (r, t)"
    using alloc_ok [OF tiny_vmm_inv(1), of 1 VMM_WRITE] by auto
  then have "t = tiny_vmm_used" "r = VMM_KERNEL_HEAP" "r \<noteq> 0"
    using tiny_vmm_alloc by (simp_all add: tiny_vmm_used_def VMM_KERNEL_HEAP_def)
  then show ?thesis
    using vmm_kernel_heap_lost [OF tiny_vmm_inv(1,2) r] by auto
qed

end
