(* ===== verification/Sched.thy ===== *)
theory Sched
  imports Prelude
begin

section \<open>The scheduler\<close>

text \<open>
  \<open>kernel/kernel/task/scheduler.c\<close> and \<open>wait.c\<close>: the task queues, the round-robin choice of the next task and the wait
  objects. Tasks are named by the address of their structure, \<open>0\<close> being \<open>NULL\<close>, and a queue is threaded
  through the \<open>prev\<close> and \<open>next\<close> fields. \<open>None\<close> is an \<open>abort\<close> or a walk along a cyclic queue.

  The switch of stacks, page directories and the task state segment at the end of a reschedule belongs
  to the hardware; the timer, which calls \<open>scheduler_tick\<close>, and the lock are left out.
\<close>

subsection \<open>Tasks and queues\<close>

datatype task_state = TASK_WAITING | TASK_RUNNING | TASK_BLOCKED | TASK_SLEEPING | TASK_ZOMBIE | TASK_DEAD

record task =
  t_pid :: u32
  t_pgid :: u32
  t_state :: task_state
  t_exit_code :: u32
  t_parent :: u32
  t_first_child :: u32
  t_prev_sibling :: u32
  t_next_sibling :: u32
  t_total_runtime :: "64 word"
  t_prev :: u32
  t_next :: u32
  t_waiting_queue :: u32
  t_children_wait_queue :: u32

record wait_obj =
  waiters :: "u32 list"
  w_capacity :: u32
  wakeup_all :: bool

text \<open>The statistics structure of the scheduler and the static variables of the three files; \<open>tasks\<close> is the array of
  all tasks, indexed by process number.\<close>

record sched =
  task :: "u32 \<Rightarrow> task"
  wait_at :: "u32 \<Rightarrow> wait_obj"
  waiting_queue :: u32
  blocked_queue :: u32
  sleeping_queue :: u32
  zombie_queue :: u32
  idle_task_pid :: u32
  scheduler_tick_count :: "8 word"
  num_tasks :: u32
  num_waiting :: u32
  num_blocked :: u32
  num_sleeping :: u32
  total_idle_time :: "64 word"
  current_task :: u32
  tasks :: "u32 list"
  tasks_present :: u32
  any_child_zombie_found :: u32

definition SCHEDULER_RESCHEDULE_COUNT :: "8 word" where "SCHEDULER_RESCHEDULE_COUNT = 1"

definition upd_task :: "u32 \<Rightarrow> (task \<Rightarrow> task) \<Rightarrow> sched \<Rightarrow> sched" where
  "upd_task t f s = s\<lparr>task := (task s)(t := f (task s t))\<rparr>"

definition task_set_next :: "u32 \<Rightarrow> u32 \<Rightarrow> sched \<Rightarrow> sched" where
  "task_set_next t v s = upd_task t (\<lambda>x. x\<lparr>t_next := v\<rparr>) s"

definition task_set_prev :: "u32 \<Rightarrow> u32 \<Rightarrow> sched \<Rightarrow> sched" where
  "task_set_prev t v s = upd_task t (\<lambda>x. x\<lparr>t_prev := v\<rparr>) s"

definition task_set_state :: "u32 \<Rightarrow> task_state \<Rightarrow> sched \<Rightarrow> sched" where
  "task_set_state t v s = upd_task t (\<lambda>x. x\<lparr>t_state := v\<rparr>) s"

definition remove_from_queue :: "sched \<Rightarrow> u32 \<Rightarrow> sched" where
  "remove_from_queue s t =
     (if t = 0 then s
      else
        let s = (if t_prev (task s t) \<noteq> 0 then task_set_next (t_prev (task s t)) (t_next (task s t)) s else s);
            s = (if t_next (task s t) \<noteq> 0 then task_set_prev (t_next (task s t)) (t_prev (task s t)) s else s);
            s = (if waiting_queue s = t then s\<lparr>waiting_queue := t_next (task s t)\<rparr> else s);
            s = (if blocked_queue s = t then s\<lparr>blocked_queue := t_next (task s t)\<rparr> else s);
            s = (if sleeping_queue s = t then s\<lparr>sleeping_queue := t_next (task s t)\<rparr> else s);
            s = (if zombie_queue s = t then s\<lparr>zombie_queue := t_next (task s t)\<rparr> else s) in
        task_set_next t 0 (task_set_prev t 0 s))"

definition queue_head :: "sched \<Rightarrow> task_state \<Rightarrow> u32 option" where
  "queue_head s st =
     (case st of
        TASK_WAITING \<Rightarrow> Some (waiting_queue s)
      | TASK_BLOCKED \<Rightarrow> Some (blocked_queue s)
      | TASK_SLEEPING \<Rightarrow> Some (sleeping_queue s)
      | TASK_ZOMBIE \<Rightarrow> Some (zombie_queue s)
      | TASK_RUNNING \<Rightarrow> None
      | TASK_DEAD \<Rightarrow> None)"

definition set_queue_head :: "task_state \<Rightarrow> u32 \<Rightarrow> sched \<Rightarrow> sched" where
  "set_queue_head st t s =
     (case st of
        TASK_WAITING \<Rightarrow> s\<lparr>waiting_queue := t\<rparr>
      | TASK_BLOCKED \<Rightarrow> s\<lparr>blocked_queue := t\<rparr>
      | TASK_SLEEPING \<Rightarrow> s\<lparr>sleeping_queue := t\<rparr>
      | TASK_ZOMBIE \<Rightarrow> s\<lparr>zombie_queue := t\<rparr>
      | _ \<Rightarrow> s)"

partial_function (option) last_task :: "sched \<Rightarrow> u32 \<Rightarrow> u32 option" where
  "last_task s t = (if t_next (task s t) \<noteq> 0 then last_task s (t_next (task s t)) else Some t)"

definition add_to_queue :: "sched \<Rightarrow> u32 \<Rightarrow> sched option" where
  "add_to_queue s t =
     (if t = 0 then Some s
      else case queue_head s (t_state (task s t)) of
        None \<Rightarrow> Some s
      | Some h \<Rightarrow>
          if h = 0 then Some (task_set_next t 0 (task_set_prev t 0 (set_queue_head (t_state (task s t)) t s)))
          else do {
            l \<leftarrow> last_task s h;
            Some (task_set_next t 0 (task_set_prev t l (task_set_next l t s)))
          })"

definition leave_stats :: "task_state \<Rightarrow> sched \<Rightarrow> sched" where
  "leave_stats st s =
     (case st of
        TASK_WAITING \<Rightarrow> if num_waiting s > 0 then s\<lparr>num_waiting := num_waiting s - 1\<rparr> else s
      | TASK_BLOCKED \<Rightarrow> if num_blocked s > 0 then s\<lparr>num_blocked := num_blocked s - 1\<rparr> else s
      | TASK_SLEEPING \<Rightarrow> if num_sleeping s > 0 then s\<lparr>num_sleeping := num_sleeping s - 1\<rparr> else s
      | _ \<Rightarrow> s)"

definition enter_stats :: "task_state \<Rightarrow> sched \<Rightarrow> sched" where
  "enter_stats st s =
     (case st of
        TASK_WAITING \<Rightarrow> s\<lparr>num_waiting := num_waiting s + 1\<rparr>
      | TASK_BLOCKED \<Rightarrow> s\<lparr>num_blocked := num_blocked s + 1\<rparr>
      | TASK_SLEEPING \<Rightarrow> s\<lparr>num_sleeping := num_sleeping s + 1\<rparr>
      | _ \<Rightarrow> s)"

definition scheduler_move_task_to_state :: "sched \<Rightarrow> u32 \<Rightarrow> task_state \<Rightarrow> sched option" where
  "scheduler_move_task_to_state s t new_state =
     (if t = 0 then Some s
      else
        let s = leave_stats (t_state (task s t)) s;
            s = remove_from_queue s t;
            s = task_set_state t new_state s;
            s = enter_stats (t_state (task s t)) s in
        add_to_queue s t)"

subsection \<open>Choosing the next task\<close>

text \<open>The scheduler's part of \<open>task_destroy\<close>: the entry of the task is cleared. What the task owns is released by the
  memory managers.\<close>

definition task_destroy :: "sched \<Rightarrow> u32 \<Rightarrow> sched" where
  "task_destroy s t =
     (if t = 0 then s
      else s\<lparr>tasks := (tasks s)[unat (t_pid (task s t)) := 0], tasks_present := tasks_present s - 1\<rparr>)"

partial_function (option) cleanup_from :: "sched \<Rightarrow> u32 \<Rightarrow> sched option" where
  "cleanup_from s zombie =
     (if zombie = 0 then Some s
      else
        let nx = t_next (task s zombie) in
        if t_state (task s zombie) = TASK_DEAD
        then
          let s = task_destroy (remove_from_queue s zombie) zombie in
          cleanup_from (s\<lparr>num_tasks := num_tasks s - 1\<rparr>) nx
        else cleanup_from s nx)"

definition cleanup_dead_tasks :: "sched \<Rightarrow> sched option" where
  "cleanup_dead_tasks s = cleanup_from s (zombie_queue s)"

definition scheduler_get_current_task :: "sched \<Rightarrow> u32" where
  "scheduler_get_current_task s = current_task s"

definition rotate_idle :: "sched \<Rightarrow> u32 \<Rightarrow> sched option" where
  "rotate_idle s first =
     do {
       l \<leftarrow> last_task s first;
       let s = task_set_prev first l (task_set_next l first s);
       let s = s\<lparr>waiting_queue := t_next (task s first)\<rparr>;
       let s = task_set_next first 0 s;
       Some (task_set_prev (waiting_queue s) 0 s)
     }"

partial_function (option) scheduler_get_next_task :: "sched \<Rightarrow> (u32 \<times> sched) option" where
  "scheduler_get_next_task s =
     (let first = waiting_queue s in
      if first = 0 then Some (0, s)
      else if t_pid (task s first) \<noteq> idle_task_pid s then
        let s = s\<lparr>waiting_queue := t_next (task s first)\<rparr>;
            s = task_set_next first 0 s in
        Some (first, s\<lparr>num_waiting := num_waiting s - 1\<rparr>)
      else if t_next (task s first) = 0 then
        let current = scheduler_get_current_task s in
        if t_state (task s current) = TASK_RUNNING \<or> t_state (task s current) = TASK_WAITING then Some (0, s)
        else
          let s = task_set_prev first 0 (task_set_next first 0 (s\<lparr>waiting_queue := 0\<rparr>)) in
          Some (first, s\<lparr>num_waiting := num_waiting s - 1\<rparr>)
      else do { s \<leftarrow> rotate_idle s first; scheduler_get_next_task s })"

definition force_idle :: "sched \<Rightarrow> u32 \<times> sched" where
  "force_idle s =
     (let next_task = waiting_queue s in
      if next_task \<noteq> 0 \<and> t_pid (task s next_task) = idle_task_pid s then
        let s = s\<lparr>waiting_queue := t_next (task s next_task)\<rparr>;
            s = (if waiting_queue s \<noteq> 0 then task_set_prev (waiting_queue s) 0 s else s);
            s = task_set_prev next_task 0 (task_set_next next_task 0 s) in
        (next_task, s\<lparr>num_waiting := num_waiting s - 1\<rparr>)
      else (next_task, s))"

definition switch_to :: "sched \<Rightarrow> u32 \<Rightarrow> u32 \<Rightarrow> sched option" where
  "switch_to s old_task next_task =
     do {
       let s = (if t_state (task s old_task) = TASK_RUNNING then task_set_state old_task TASK_WAITING s else s);
       let s = task_set_state next_task TASK_RUNNING s;
       s \<leftarrow> (if t_state (task s old_task) = TASK_WAITING
             then do { s \<leftarrow> add_to_queue s old_task; Some (s\<lparr>num_waiting := num_waiting s + 1\<rparr>) }
             else Some s);
       Some (s\<lparr>current_task := next_task\<rparr>)
     }"

definition scheduler_reschedule :: "sched \<Rightarrow> sched option" where
  "scheduler_reschedule s =
     do {
       s \<leftarrow> cleanup_dead_tasks s;
       let old_task = current_task s;
       (next_task, s) \<leftarrow> scheduler_get_next_task s;
       if t_state (task s old_task) = TASK_ZOMBIE \<or> t_state (task s old_task) = TASK_DEAD then
         let (next_task, s) = (if next_task = 0 then force_idle s else (next_task, s)) in
         if next_task = 0 then None else switch_to s old_task next_task
       else if next_task = 0 then Some s
       else switch_to s old_task next_task
     }"

definition scheduler_tick :: "sched \<Rightarrow> sched option" where
  "scheduler_tick s =
     (let s = s\<lparr>scheduler_tick_count := scheduler_tick_count s + 1\<rparr>;
          s = (if t_pid (task s (current_task s)) = idle_task_pid s then s\<lparr>total_idle_time := total_idle_time s + 1\<rparr> else s);
          s = upd_task (current_task s) (\<lambda>x. x\<lparr>t_total_runtime := t_total_runtime x + 1\<rparr>) s in
      if scheduler_tick_count s = SCHEDULER_RESCHEDULE_COUNT
      then scheduler_reschedule (s\<lparr>scheduler_tick_count := 0\<rparr>)
      else Some s)"

definition scheduler_yield :: "sched \<Rightarrow> sched option" where
  "scheduler_yield s = scheduler_reschedule s"

definition scheduler_add_task :: "sched \<Rightarrow> u32 \<Rightarrow> sched option" where
  "scheduler_add_task s t = scheduler_move_task_to_state s t TASK_WAITING"

partial_function (option) find_in_queue :: "sched \<Rightarrow> u32 \<Rightarrow> u32 \<Rightarrow> u32 option" where
  "find_in_queue s q pid =
     (if t_pid (task s q) \<noteq> pid \<and> t_next (task s q) \<noteq> 0 then find_in_queue s (t_next (task s q)) pid else Some q)"

definition scheduler_remove_task :: "sched \<Rightarrow> u32 \<Rightarrow> sched option" where
  "scheduler_remove_task s t =
     (case t_state (task s t) of
        TASK_DEAD \<Rightarrow> Some s
      | st \<Rightarrow>
          (case queue_head s st of
             None \<Rightarrow> None
           | Some h \<Rightarrow>
               if h = 0 then None
               else do {
                 q \<leftarrow> find_in_queue s h (t_pid (task s t));
                 let s = (if t_prev (task s q) \<noteq> 0 then task_set_next (t_prev (task s q)) (t_next (task s q)) s else s);
                 Some (if t_next (task s q) \<noteq> 0 then task_set_prev (t_next (task s q)) (t_prev (task s q)) s else s)
               }))"

text \<open>Start-up, given the structure that \<open>task_create\<close> made for the idle task.\<close>

definition scheduler_init :: "sched \<Rightarrow> u32 \<Rightarrow> sched" where
  "scheduler_init s idle_task =
     (let s = s\<lparr>num_tasks := 0, num_waiting := 0, num_blocked := 0, num_sleeping := 0, total_idle_time := 0\<rparr>;
          s = task_set_state idle_task TASK_RUNNING s in
      s\<lparr>idle_task_pid := t_pid (task s idle_task), current_task := idle_task\<rparr>)"

subsection \<open>Wait objects\<close>

text \<open>The array of waiters is the list of its first \<open>count\<close> elements. \<open>grown\<close> says whether \<open>krealloc\<close> succeeds.\<close>

definition enqueue_waiter :: "bool \<Rightarrow> wait_obj \<Rightarrow> u32 \<Rightarrow> wait_obj option" where
  "enqueue_waiter grown w t =
     (let full = (of_nat (length (waiters w)) = w_capacity w);
          w = (if full then w\<lparr>w_capacity := w_capacity w + 10\<rparr> else w) in
      if full \<and> \<not> grown then None else Some (w\<lparr>waiters := waiters w @ [t]\<rparr>))"

definition dequeue_waiter :: "wait_obj \<Rightarrow> u32 \<Rightarrow> wait_obj" where
  "dequeue_waiter w t = w\<lparr>waiters := remove1 t (waiters w)\<rparr>"

fun wake_all :: "sched \<Rightarrow> u32 list \<Rightarrow> sched option" where
  "wake_all s [] = Some s"
| "wake_all s (t # ts) = do { s \<leftarrow> scheduler_move_task_to_state s t TASK_WAITING; wake_all s ts }"

definition wait_wake_up :: "sched \<Rightarrow> u32 \<Rightarrow> sched option" where
  "wait_wake_up s w =
     (if wakeup_all (wait_at s w) then wake_all s (waiters (wait_at s w))
      else case waiters (wait_at s w) of
        [] \<Rightarrow> Some s
      | t # _ \<Rightarrow> scheduler_move_task_to_state s t TASK_WAITING)"

text \<open>The loop of a waiting task. \<open>others\<close> is what the rest of the system does from the moment the task gives up the
  processor until it runs again.\<close>

partial_function (option) wait_loop ::
  "(sched \<Rightarrow> sched option) \<Rightarrow> (sched \<Rightarrow> (bool \<times> sched) option) \<Rightarrow> u32 \<Rightarrow> task_state \<Rightarrow> sched \<Rightarrow> sched option" where
  "wait_loop others condition t block_state s =
     (if t_state (task s t) = block_state
      then do {
        (b, s) \<leftarrow> condition s;
        if \<not> b then do { s \<leftarrow> scheduler_yield s; s \<leftarrow> others s; wait_loop others condition t block_state s } else Some s
      }
      else Some s)"

definition wait_on_condition_impl ::
  "(sched \<Rightarrow> sched option) \<Rightarrow> bool \<Rightarrow> sched \<Rightarrow> u32 \<Rightarrow> (sched \<Rightarrow> (bool \<times> sched) option) \<Rightarrow> task_state \<Rightarrow> sched option" where
  "wait_on_condition_impl others grown s w condition block_state =
     (let t = scheduler_get_current_task s in
      if t = 0 then Some s
      else do {
        s \<leftarrow> scheduler_move_task_to_state s t block_state;
        x \<leftarrow> enqueue_waiter grown (wait_at s w) t;
        s \<leftarrow> wait_loop others condition t block_state (s\<lparr>wait_at := (wait_at s)(w := x)\<rparr>);
        let s = s\<lparr>wait_at := (wait_at s)(w := dequeue_waiter (wait_at s w) t)\<rparr>;
        if t_state (task s t) = block_state then scheduler_move_task_to_state s t TASK_RUNNING else Some s
      })"

definition wait_on_condition ::
  "(sched \<Rightarrow> sched option) \<Rightarrow> bool \<Rightarrow> sched \<Rightarrow> u32 \<Rightarrow> (sched \<Rightarrow> (bool \<times> sched) option) \<Rightarrow> sched option" where
  "wait_on_condition others grown s w condition = wait_on_condition_impl others grown s w condition TASK_BLOCKED"

definition wait_alloc :: "bool \<Rightarrow> wait_obj" where
  "wait_alloc all = \<lparr>waiters = [], w_capacity = 5, wakeup_all = all\<rparr>"

definition wait_allocate_queue :: wait_obj where
  "wait_allocate_queue = wait_alloc False"

definition wait_allocate_event :: wait_obj where
  "wait_allocate_event = wait_alloc True"

declare last_task.simps [code] cleanup_from.simps [code] scheduler_get_next_task.simps [code] find_in_queue.simps [code]
  wait_loop.simps [code]

subsection \<open>The waiting queue as a list\<close>

fun queue :: "sched \<Rightarrow> u32 \<Rightarrow> u32 list \<Rightarrow> bool" where
  "queue s h [] \<longleftrightarrow> h = 0"
| "queue s h (t # ts) \<longleftrightarrow> h = t \<and> t \<noteq> 0 \<and> queue s (t_next (task s t)) ts"

lemma queue_cong: "(\<And>t. t \<in> set ts \<Longrightarrow> t_next (task u t) = t_next (task s t)) \<Longrightarrow> queue u h ts = queue s h ts"
  by (induction ts arbitrary: h) auto

lemma queue_null: "queue s h ts \<Longrightarrow> 0 \<notin> set ts"
  by (induction ts arbitrary: h) auto

lemma queue_last: "queue s h (ts @ [l]) \<Longrightarrow> last_task s h = Some l \<and> t_next (task s l) = 0"
proof (induction ts arbitrary: h)
  case Nil
  then show ?case
    by (subst last_task.simps) simp
next
  case (Cons t ts)
  then have n: "t_next (task s t) \<noteq> 0"
    by (cases ts) auto
  have "last_task s (t_next (task s t)) = Some l \<and> t_next (task s l) = 0"
    using Cons.prems by (intro Cons.IH) simp
  then show ?case
    using Cons.prems n by (subst last_task.simps) simp
qed

lemma queue_append:
  assumes "queue s h (ts @ [l])" and "distinct (ts @ [l])" and "t \<notin> set (ts @ [l])" "t \<noteq> 0"
    and "\<And>x. x \<in> set ts \<Longrightarrow> t_next (task u x) = t_next (task s x)" "t_next (task u l) = t" "t_next (task u t) = 0"
  shows "queue u h (ts @ [l, t])"
  using assms
proof (induction ts arbitrary: h)
  case (Cons x ts)
  have "queue u (t_next (task s x)) (ts @ [l, t])"
    using Cons.prems by (intro Cons.IH) simp_all
  then show ?case
    using Cons.prems by simp
qed simp

text \<open>The scheduler as seen by its clients: \<open>c\<close> runs, \<open>ts\<close> wait in this order, \<open>zs\<close> wait to be reaped, and \<open>i\<close> is the
  idle task.\<close>

definition sched_ok :: "sched \<Rightarrow> u32 \<Rightarrow> u32 \<Rightarrow> u32 list \<Rightarrow> u32 list \<Rightarrow> bool" where
  "sched_ok s i c ts zs \<longleftrightarrow> i \<in> set (c # ts) \<and> t_pid (task s i) = idle_task_pid s \<and> current_task s = c \<and> c \<noteq> 0 \<and> queue s (waiting_queue s) ts \<and> distinct (c # ts) \<and>
     t_state (task s c) = TASK_RUNNING \<and> (\<forall>t\<in>set ts. t_state (task s t) = TASK_WAITING) \<and>
     inj_on (\<lambda>t. t_pid (task s t)) (set (c # ts)) \<and>
     queue s (zombie_queue s) zs \<and> (\<forall>z\<in>set zs. z \<notin> set (c # ts) \<and> t_state (task s z) = TASK_ZOMBIE)"

text \<open>Round robin with an idle task that is passed over while others wait.\<close>

fun round_robin :: "u32 \<Rightarrow> u32 \<times> u32 list \<Rightarrow> u32 \<times> u32 list" where
  "round_robin idle (c, []) = (c, [])"
| "round_robin idle (c, t # ts) =
     (if t \<noteq> idle then (t, ts @ [c]) else case ts of [] \<Rightarrow> (c, [t]) | u # us \<Rightarrow> (u, us @ [t, c]))"

lemma upd_simps [simp]:
  "task (upd_task t f s) = (task s)(t := f (task s t))" "waiting_queue (upd_task t f s) = waiting_queue s"
  "zombie_queue (upd_task t f s) = zombie_queue s" "current_task (upd_task t f s) = current_task s"
  "idle_task_pid (upd_task t f s) = idle_task_pid s" "blocked_queue (upd_task t f s) = blocked_queue s"
  "sleeping_queue (upd_task t f s) = sleeping_queue s" "scheduler_tick_count (upd_task t f s) = scheduler_tick_count s"
  by (simp_all add: upd_task_def)

lemmas task_set_defs = task_set_next_def task_set_prev_def task_set_state_def

lemma cleanup_nothing:
  "queue s z zs \<Longrightarrow> \<forall>z\<in>set zs. t_state (task s z) = TASK_ZOMBIE \<Longrightarrow> cleanup_from s z = Some s"
proof (induction zs arbitrary: z)
  case (Cons t zs)
  then show ?case
    by (subst cleanup_from.simps) (simp add: Let_def)
qed (subst cleanup_from.simps, simp)

text \<open>Taking the first task that is not the idle task.\<close>

lemma next_first:
  assumes "queue s (waiting_queue s) (t # ts)" "distinct (t # ts)" "t_pid (task s t) \<noteq> idle_task_pid s"
  shows "\<exists>u. scheduler_get_next_task s = Some (t, u) \<and> queue u (waiting_queue u) ts \<and> current_task u = current_task s \<and>
    zombie_queue u = zombie_queue s \<and> idle_task_pid u = idle_task_pid s \<and> scheduler_tick_count u = scheduler_tick_count s \<and>
    task u = (task s)(t := (task s t)\<lparr>t_next := 0\<rparr>)"
proof -
  define u where "u = (task_set_next t 0 (s\<lparr>waiting_queue := t_next (task s t)\<rparr>))"
  have "queue u (t_next (task s t)) ts"
    using assms(1,2) by (subst queue_cong [of ts u s]) (auto simp: u_def task_set_defs)
  moreover have "queue (u\<lparr>num_waiting := n\<rparr>) h qs = queue u h qs" for n h qs
    by (rule queue_cong) simp
  ultimately show ?thesis
    using assms by (subst scheduler_get_next_task.simps) (simp add: Let_def u_def task_set_defs)
qed

lemma rotate_idle_ok:
  assumes "queue s (waiting_queue s) (i # ts)" "distinct (i # ts)" "ts \<noteq> []"
  shows "\<exists>u. rotate_idle s i = Some u \<and> queue u (waiting_queue u) (ts @ [i]) \<and> current_task u = current_task s \<and>
    zombie_queue u = zombie_queue s \<and> idle_task_pid u = idle_task_pid s \<and> scheduler_tick_count u = scheduler_tick_count s \<and>
    (\<forall>x. t_state (task u x) = t_state (task s x) \<and> t_pid (task u x) = t_pid (task s x)) \<and>
    (\<forall>x. x \<notin> set (i # ts) \<longrightarrow> t_next (task u x) = t_next (task s x))"
proof -
  obtain qs l where ts: "ts = qs @ [l]"
    using assms(3) by (cases ts rule: rev_cases) auto
  have q: "queue s i ((i # qs) @ [l])" and i0: "i \<noteq> 0"
    using assms(1) ts by auto
  note l = queue_last [OF q]
  define n where "n = t_next (task s i)"
  have n: "n \<noteq> 0" "n = hd ts" "queue s n (qs @ [l])"
    using assms(1) ts by (cases qs; auto simp: n_def)+
  have il: "l \<noteq> i" "i \<notin> set qs"
    using assms(2) ts by auto
  define v where "v = task_set_next i 0 ((task_set_prev i l (task_set_next l i s))\<lparr>waiting_queue := n\<rparr>)"
  define u where "u = task_set_prev n 0 v"
  have e: "rotate_idle s i = Some u"
    using l il by (simp add: rotate_idle_def task_set_defs u_def v_def n_def Let_def)
  have nx: "t_next (task u x) = (if x = i then 0 else if x = l then i else t_next (task s x))" for x
    using il by (auto simp: u_def v_def task_set_defs)
  have "distinct (qs @ [l])" "i \<notin> set (qs @ [l])"
    using assms(2) ts by auto
  then have "queue u n (qs @ [l, i])"
    using nx il i0 by (intro queue_append [OF n(3)]) auto
  then show ?thesis
    using e nx ts by (intro exI [of _ u]) (auto simp: u_def v_def task_set_defs)
qed

text \<open>Handing the processor over: the old task goes to the end of the queue.\<close>

lemma switch_ok:
  assumes "queue s (waiting_queue s) ts" "distinct (c # t # ts)" "c \<noteq> 0" "t_state (task s c) = TASK_RUNNING"
  shows "\<exists>u. switch_to s c t = Some u \<and> queue u (waiting_queue u) (ts @ [c]) \<and> current_task u = t \<and>
    zombie_queue u = zombie_queue s \<and> idle_task_pid u = idle_task_pid s \<and> scheduler_tick_count u = scheduler_tick_count s \<and>
    (\<forall>x. t_pid (task u x) = t_pid (task s x)) \<and>
    (\<forall>x. t_state (task u x) = (if x = t then TASK_RUNNING else if x = c then TASK_WAITING else t_state (task s x))) \<and>
    (\<forall>x. x \<notin> set (c # ts) \<longrightarrow> t_next (task u x) = t_next (task s x))"
proof -
  have ct: "c \<noteq> t"
    using assms(2) by auto
  define v where "v = task_set_state t TASK_RUNNING (task_set_state c TASK_WAITING s)"
  have vnx: "t_next (task v x) = t_next (task s x)" "t_pid (task v x) = t_pid (task s x)"
      "t_state (task v x) = (if x = t then TASK_RUNNING else if x = c then TASK_WAITING else t_state (task s x))" for x
    by (simp_all add: v_def task_set_defs)
  have vq: "queue v h qs = queue s h qs" for h qs
    by (rule queue_cong) (rule vnx)
  have vf: "waiting_queue v = waiting_queue s" "zombie_queue v = zombie_queue s" "idle_task_pid v = idle_task_pid s"
      "scheduler_tick_count v = scheduler_tick_count s"
    by (simp_all add: v_def task_set_defs)
  have sw: "switch_to s c t = do { u \<leftarrow> add_to_queue v c; Some (u\<lparr>num_waiting := num_waiting u + 1, current_task := t\<rparr>) }"
    using assms(4) vnx(3) [of c] ct unfolding switch_to_def by (cases "add_to_queue v c") (simp_all add: v_def [symmetric])
  show ?thesis
  proof (cases ts rule: rev_cases)
    case Nil
    define u where "u = task_set_next c 0 (task_set_prev c 0 (v\<lparr>waiting_queue := c\<rparr>))"
    have a: "add_to_queue v c = Some u"
      using assms(1,3) Nil vnx(3) [of c] ct vf(1)
      by (simp add: add_to_queue_def queue_head_def set_queue_head_def u_def)
    show ?thesis
      unfolding sw a using assms(3) Nil vnx vf by (simp add: u_def task_set_defs)
  next
    case (snoc qs l)
    have q: "queue v (waiting_queue v) (qs @ [l])"
      using assms(1) snoc by (simp add: vq vf)
    note l = queue_last [OF q]
    define u where "u = task_set_next c 0 (task_set_prev c l (task_set_next l c v))"
    have h0: "waiting_queue v \<noteq> 0"
      using q by (cases qs) auto
    have a: "add_to_queue v c = Some u"
      using assms(3) vnx(3) [of c] ct l h0
      by (simp add: add_to_queue_def queue_head_def u_def)
    have nx: "t_next (task u x) = (if x = c then 0 else if x = l then c else t_next (task s x))" for x
      using vnx(1) by (simp add: u_def task_set_defs)
    have "queue u (waiting_queue v) (qs @ [l, c])"
      using assms(2,3) nx snoc vnx(1) by (intro queue_append [OF q]) auto
    then have "queue (u\<lparr>num_waiting := n, current_task := t\<rparr>) (waiting_queue v) (ts @ [c])" for n
      using snoc queue_cong [of "ts @ [c]" "u\<lparr>num_waiting := n, current_task := t\<rparr>" u] by simp
    then show ?thesis
      unfolding sw a using nx snoc vnx vf by (simp add: u_def task_set_defs)
  qed
qed

lemma reschedule_ok:
  assumes ok: "sched_ok s i c ts zs" and rr: "round_robin i (c, ts) = (c', ts')"
  shows "\<exists>u. scheduler_reschedule s = Some u \<and> sched_ok u i c' ts' zs \<and> scheduler_tick_count u = scheduler_tick_count s"
proof -
  have i: "i \<in> set (c # ts)" "t_pid (task s i) = idle_task_pid s" and c: "current_task s = c" "c \<noteq> 0" "t_state (task s c) = TASK_RUNNING"
    and q: "queue s (waiting_queue s) ts" "distinct (c # ts)" "\<forall>t\<in>set ts. t_state (task s t) = TASK_WAITING"
    and inj: "inj_on (\<lambda>t. t_pid (task s t)) (set (c # ts))"
    and z: "queue s (zombie_queue s) zs" "\<forall>z\<in>set zs. z \<notin> set (c # ts) \<and> t_state (task s z) = TASK_ZOMBIE"
    using ok unfolding sched_ok_def by - (elim conjE, assumption)+
  have cl: "cleanup_dead_tasks s = Some s"
    unfolding cleanup_dead_tasks_def by (rule cleanup_nothing [OF z(1)]) (use z(2) in blast)
  have pid: "t_pid (task s t) = idle_task_pid s \<longleftrightarrow> t = i" if "t \<in> set (c # ts)" for t
    using inj_onD [OF inj, of t i] i that by auto
  have fin: "\<exists>w. scheduler_reschedule s = Some w \<and> sched_ok w i t (qs @ [c]) zs \<and> scheduler_tick_count w = scheduler_tick_count s"
    if next_t: "scheduler_get_next_task s = Some (t, u)" and u: "queue u (waiting_queue u) qs" "zombie_queue u = zombie_queue s"
      "idle_task_pid u = idle_task_pid s" "scheduler_tick_count u = scheduler_tick_count s"
      "\<forall>x. t_state (task u x) = t_state (task s x) \<and> t_pid (task u x) = t_pid (task s x)"
      "\<forall>x. x \<notin> set ts \<longrightarrow> t_next (task u x) = t_next (task s x)"
      and qs: "set (t # qs) = set ts" "distinct (t # qs)" "t \<noteq> 0" for t u qs
  proof -
    have d: "distinct (c # t # qs)"
      using qs(1,2) q(2) by auto
    have "t_state (task u c) = TASK_RUNNING"
      using u(5) c(3) by simp
    from switch_ok [OF u(1) d c(2) this] obtain w where w: "switch_to u c t = Some w" "queue w (waiting_queue w) (qs @ [c])"
      "current_task w = t" "zombie_queue w = zombie_queue u" "idle_task_pid w = idle_task_pid u"
      "scheduler_tick_count w = scheduler_tick_count u" "\<forall>x. t_pid (task w x) = t_pid (task u x)"
      "\<forall>x. t_state (task w x) = (if x = t then TASK_RUNNING else if x = c then TASK_WAITING else t_state (task u x))"
      "\<forall>x. x \<notin> set (c # qs) \<longrightarrow> t_next (task w x) = t_next (task u x)"
      by blast
    have r: "scheduler_reschedule s = Some w"
      using cl next_t c(1) \<open>t_state (task u c) = TASK_RUNNING\<close> qs(3) w(1) by (simp add: scheduler_reschedule_def)
    have zw: "queue w (zombie_queue w) zs"
      unfolding w(4) u(2)
    proof (subst queue_cong [of zs w s])
      fix x assume "x \<in> set zs"
      then have "x \<notin> set (c # qs)" "x \<notin> set ts"
        using z(2) qs(1) by auto
      then show "t_next (task w x) = t_next (task s x)"
        using w(9) u(6) by simp
    qed (rule z(1))
    have sets: "set (t # qs @ [c]) = set (c # ts)"
      using qs(1) by auto
    have pids: "t_pid (task w x) = t_pid (task s x)" for x
      using w(7) u(5) by simp
    have "inj_on (\<lambda>x. t_pid (task w x)) (set (t # qs @ [c]))"
      unfolding sets pids by (rule inj)
    moreover have "t_state (task w t) = TASK_RUNNING"
      using w(8) by simp
    moreover have "\<forall>x\<in>set (qs @ [c]). t_state (task w x) = TASK_WAITING"
    proof
      fix x assume "x \<in> set (qs @ [c])"
      then have "x \<noteq> t" "x = c \<or> x \<in> set ts"
        using d qs(1) by auto
      then show "t_state (task w x) = TASK_WAITING"
        using w(8) u(5) q(3) by auto
    qed
    moreover have "\<forall>x\<in>set zs. x \<notin> set (t # qs @ [c]) \<and> t_state (task w x) = TASK_ZOMBIE"
    proof
      fix x assume "x \<in> set zs"
      then have x: "x \<notin> set (c # ts)" "t_state (task s x) = TASK_ZOMBIE"
        using z(2) by blast+
      then have "x \<noteq> t" "x \<noteq> c"
        using qs(1) by auto
      then show "x \<notin> set (t # qs @ [c]) \<and> t_state (task w x) = TASK_ZOMBIE"
        unfolding sets using w(8) u(5) x by simp
    qed
    moreover have "i \<in> set (t # qs @ [c])" "t_pid (task w i) = idle_task_pid w"
      unfolding sets pids using i w(5) u(3) by simp_all
    moreover have "distinct (t # qs @ [c])"
      using d by auto
    ultimately have "sched_ok w i t (qs @ [c]) zs"
      unfolding sched_ok_def w(3) using w(2) qs(3) zw by - (intro conjI, (assumption | rule refl)+)
    then show ?thesis
      using r w(6) u(4) by (intro exI [of _ w]) simp
  qed
  have keep: "scheduler_get_next_task s = Some (0, s) \<Longrightarrow> scheduler_reschedule s = Some s"
    using cl c by (simp add: scheduler_reschedule_def)
  show ?thesis
  proof (cases ts)
    case Nil
    then have "scheduler_get_next_task s = Some (0, s)"
      using q(1) by (subst scheduler_get_next_task.simps) simp
    then show ?thesis
      using keep ok rr Nil by simp
  next
    case (Cons t qs)
    have t: "t \<noteq> 0" "t \<in> set (c # ts)" "waiting_queue s = t" "t_next (task s t) = 0 \<longleftrightarrow> qs = []"
      using q(1) Cons by (cases qs; simp)+
    show ?thesis
    proof (cases "t = i")
      case False
      have "queue s (waiting_queue s) (t # qs)" "distinct (t # qs)" "t_pid (task s t) \<noteq> idle_task_pid s"
        using q(1,2) Cons pid [OF t(2)] False by auto
      from next_first [OF this] obtain u where u: "scheduler_get_next_task s = Some (t, u)" "queue u (waiting_queue u) qs"
        "zombie_queue u = zombie_queue s" "idle_task_pid u = idle_task_pid s" "scheduler_tick_count u = scheduler_tick_count s"
        "task u = (task s)(t := (task s t)\<lparr>t_next := 0\<rparr>)"
        by blast
      have "\<exists>w. scheduler_reschedule s = Some w \<and> sched_ok w i t (qs @ [c]) zs \<and> scheduler_tick_count w = scheduler_tick_count s"
        using q(2) t(1) Cons by (intro fin [OF u(1-5)]) (simp_all add: u(6))
      moreover have "c' = t" "ts' = qs @ [c]"
        using rr Cons False by simp_all
      ultimately show ?thesis
        by simp
    next
      case True
      have idle: "t_pid (task s t) = idle_task_pid s"
        using i(2) True by simp
      show ?thesis
      proof (cases qs)
        case Nil
        then have "scheduler_get_next_task s = Some (0, s)"
          using t idle c by (subst scheduler_get_next_task.simps) (simp add: Let_def scheduler_get_current_task_def)
        then show ?thesis
          using keep ok rr Cons True Nil by simp
      next
        case (Cons u us)
        have "queue s (waiting_queue s) (t # qs)" "distinct (t # qs)" "qs \<noteq> []"
          using q(1,2) \<open>ts = t # qs\<close> Cons by auto
        from rotate_idle_ok [OF this] obtain v where v: "rotate_idle s t = Some v" "queue v (waiting_queue v) (qs @ [t])"
          "zombie_queue v = zombie_queue s" "idle_task_pid v = idle_task_pid s" "scheduler_tick_count v = scheduler_tick_count s"
          "\<forall>x. t_state (task v x) = t_state (task s x) \<and> t_pid (task v x) = t_pid (task s x)"
          "\<forall>x. x \<notin> set (t # qs) \<longrightarrow> t_next (task v x) = t_next (task s x)"
          by blast
        have g: "scheduler_get_next_task s = scheduler_get_next_task v"
          using t idle v(1) Cons by (subst scheduler_get_next_task.simps) (simp add: Let_def)
        have ui: "u \<noteq> i" "u \<in> set (c # ts)" "u \<noteq> 0"
          using q(1,2) \<open>ts = t # qs\<close> Cons True by auto
        have "queue v (waiting_queue v) (u # us @ [t])" "distinct (u # us @ [t])" "t_pid (task v u) \<noteq> idle_task_pid v"
          using v(2,4,6) q(2) \<open>ts = t # qs\<close> Cons pid [OF ui(2)] ui(1) by auto
        from next_first [OF this] obtain w where w: "scheduler_get_next_task v = Some (u, w)" "queue w (waiting_queue w) (us @ [t])"
          "zombie_queue w = zombie_queue v" "idle_task_pid w = idle_task_pid v" "scheduler_tick_count w = scheduler_tick_count v"
          "task w = (task v)(u := (task v u)\<lparr>t_next := 0\<rparr>)"
          by blast
        have "\<exists>x. scheduler_reschedule s = Some x \<and> sched_ok x i u ((us @ [t]) @ [c]) zs \<and> scheduler_tick_count x = scheduler_tick_count s"
        proof (rule fin [OF _ w(2)])
          show "scheduler_get_next_task s = Some (u, w)"
            using g w(1) by simp
          show "\<forall>x. x \<notin> set ts \<longrightarrow> t_next (task w x) = t_next (task s x)"
            using v(7) \<open>ts = t # qs\<close> Cons by (simp add: w(6))
          show "set (u # us @ [t]) = set ts" "distinct (u # us @ [t])"
            using q(2) \<open>ts = t # qs\<close> Cons by auto
        qed (use ui(3) v(3-6) w(3-5) in \<open>simp_all add: w(6)\<close>)
        moreover have "c' = u" "ts' = us @ [t, c]"
          using rr \<open>ts = t # qs\<close> Cons True by simp_all
        ultimately show ?thesis
          by simp
      qed
    qed
  qed
qed

subsection \<open>Timer ticks\<close>

fun ticks :: "nat \<Rightarrow> sched \<Rightarrow> sched option" where
  "ticks 0 s = Some s"
| "ticks (Suc n) s = do { s \<leftarrow> scheduler_tick s; ticks n s }"

lemma tick_ok:
  assumes "sched_ok s i c ts zs" "scheduler_tick_count s = 0" "round_robin i (c, ts) = (c', ts')"
  shows "\<exists>u. scheduler_tick s = Some u \<and> sched_ok u i c' ts' zs \<and> scheduler_tick_count u = 0"
proof -
  define v where "v = upd_task c (\<lambda>x. x\<lparr>t_total_runtime := t_total_runtime x + 1\<rparr>)
    (if t_pid (task s c) = idle_task_pid s then s\<lparr>total_idle_time := total_idle_time s + 1\<rparr> else s)"
  define w where "w = v\<lparr>scheduler_tick_count := 0\<rparr>"
  have f: "t_next (task w x) = t_next (task s x)" "t_state (task w x) = t_state (task s x)" "t_pid (task w x) = t_pid (task s x)" for x
    by (simp_all add: w_def v_def)
  have g: "current_task w = current_task s" "waiting_queue w = waiting_queue s" "zombie_queue w = zombie_queue s"
      "idle_task_pid w = idle_task_pid s" "scheduler_tick_count w = 0"
    by (simp_all add: w_def v_def)
  have q: "queue w h qs = queue s h qs" for h qs
    by (rule queue_cong) (rule f)
  have "sched_ok w i c ts zs"
    using assms(1) unfolding sched_ok_def f g q .
  from reschedule_ok [OF this assms(3)] obtain u where u: "scheduler_reschedule w = Some u" "sched_ok u i c' ts' zs" "scheduler_tick_count u = 0"
    using g(5) by auto
  have "current_task s = c"
    using assms(1) by (simp add: sched_ok_def)
  then have "scheduler_tick s = scheduler_reschedule w"
    using assms(2) by (auto simp: scheduler_tick_def Let_def w_def v_def SCHEDULER_RESCHEDULE_COUNT_def upd_task_def)
  then show ?thesis
    using u by simp
qed

lemma ticks_ok:
  assumes "sched_ok s i c ts zs" "scheduler_tick_count s = 0" "(round_robin i ^^ n) (c, ts) = (c', ts')"
  shows "\<exists>u. ticks n s = Some u \<and> sched_ok u i c' ts' zs"
  using assms
proof (induction n arbitrary: s c ts)
  case (Suc n)
  obtain d us where r: "round_robin i (c, ts) = (d, us)"
    by fastforce
  obtain v where v: "scheduler_tick s = Some v" "sched_ok v i d us zs" "scheduler_tick_count v = 0"
    using tick_ok [OF Suc.prems(1,2) r] by blast
  have "(round_robin i ^^ n) (d, us) = (c', ts')"
    using Suc.prems(3) r by (simp add: funpow_swap1)
  then show ?case
    using Suc.IH [OF v(2,3)] v(1) by simp
qed simp

lemma round_robin_set: "round_robin i (c, ts) = (c', ts') \<Longrightarrow> set (c' # ts') = set (c # ts)"
  by (cases ts) (auto split: if_splits list.splits)

lemma round_robin_iter_set: "(round_robin i ^^ n) (c, ts) = (c', ts') \<Longrightarrow> set (c' # ts') = set (c # ts)"
proof (induction n arbitrary: c ts)
  case (Suc n)
  obtain d us where r: "round_robin i (c, ts) = (d, us)"
    by fastforce
  then have "(round_robin i ^^ n) (d, us) = (c', ts')"
    using Suc.prems by (simp add: funpow_swap1)
  then show ?case
    using Suc.IH round_robin_set [OF r] by metis
qed simp

text \<open>A waiting task moves towards the head of the queue with every turn.\<close>

lemma round_robin_reaches:
  assumes "t \<noteq> i" "distinct (c # as @ t # bs)"
  shows "\<exists>n. 0 < n \<and> n \<le> Suc (length as) \<and> fst ((round_robin i ^^ n) (c, as @ t # bs)) = t"
  using assms
proof (induction "length as" arbitrary: c as bs rule: less_induct)
  case less
  have one: "\<exists>n. 0 < n \<and> n \<le> Suc (length as) \<and> fst ((round_robin i ^^ n) (c, as @ t # bs)) = t"
    if "fst (round_robin i (c, as @ t # bs)) = t"
    using that by (intro exI [of _ 1]) simp
  have step: "\<exists>n. 0 < n \<and> n \<le> Suc (length as) \<and> fst ((round_robin i ^^ n) (c, as @ t # bs)) = t"
    if r: "round_robin i (c, as @ t # bs) = (d, xs @ t # ys)" "length xs < length as" "distinct (d # xs @ t # ys)" for d xs ys
  proof -
    obtain n where n: "0 < n" "n \<le> Suc (length xs)" "fst ((round_robin i ^^ n) (d, xs @ t # ys)) = t"
      using less(1) [OF r(2) less(2) r(3)] by blast
    then show ?thesis
      using r(1,2) by (intro exI [of _ "Suc n"]) (simp add: funpow_swap1)
  qed
  show ?case
  proof (cases as)
    case Nil
    then show ?thesis
      using one less(2) by simp
  next
    case (Cons x as')
    show ?thesis
    proof (cases "x = i")
      case False
      then show ?thesis
        using less(3) Cons by (intro step [of x as' "bs @ [c]"]) auto
    next
      case True
      show ?thesis
      proof (cases as')
        case Nil
        then show ?thesis
          using one Cons True by simp
      next
        case (Cons u us)
        then show ?thesis
          using less(3) \<open>as = x # as'\<close> True by (intro step [of u us "bs @ [i, c]"]) auto
      qed
    qed
  qed
qed

subsection \<open>A run\<close>

text \<open>Five tasks: the idle task and four others, numbered by their process number.\<close>

definition sample_task :: "u32 \<Rightarrow> task" where
  "sample_task p = \<lparr>t_pid = p, t_pgid = p, t_state = TASK_WAITING, t_exit_code = 0, t_parent = 0, t_first_child = 0,
     t_prev_sibling = 0, t_next_sibling = 0, t_total_runtime = 0, t_prev = 0, t_next = 0, t_waiting_queue = 0,
     t_children_wait_queue = 0\<rparr>"

definition sample_sched :: sched where
  "sample_sched = \<lparr>task = (\<lambda>t. sample_task (t div 0x100)), wait_at = (\<lambda>_. wait_allocate_event), waiting_queue = 0, blocked_queue = 0,
     sleeping_queue = 0, zombie_queue = 0, idle_task_pid = 0, scheduler_tick_count = 0, num_tasks = 0, num_waiting = 0,
     num_blocked = 0, num_sleeping = 0, total_idle_time = 0, current_task = 0,
     tasks = [0, 0x100, 0x200, 0x300, 0x400, 0x500], tasks_present = 5,
     any_child_zombie_found = 0\<rparr>"

text \<open>Three tasks run one after the other; while the third one runs a fourth one is added.\<close>

definition sample_run :: "sched option" where
  "sample_run =
     do {
       s \<leftarrow> scheduler_add_task (scheduler_init sample_sched 0x100) 0x200;
       s \<leftarrow> scheduler_add_task s 0x300;
       s \<leftarrow> scheduler_add_task s 0x400;
       s \<leftarrow> ticks 3 s;
       scheduler_add_task s 0x500
     }"

text \<open>Then the running task blocks and gives up the processor.\<close>

definition sample_block :: "sched option" where
  "sample_block =
     do {
       s \<leftarrow> sample_run;
       s \<leftarrow> scheduler_move_task_to_state s (current_task s) TASK_BLOCKED;
       scheduler_yield s
     }"

lemma sched_okI:
  assumes "i \<in> set (c # ts)" "t_pid (task s i) = idle_task_pid s" "current_task s = c" "c \<noteq> 0" "queue s (waiting_queue s) ts"
    "distinct (map (\<lambda>t. t_pid (task s t)) (c # ts))" "t_state (task s c) = TASK_RUNNING"
    "list_all (\<lambda>t. t_state (task s t) = TASK_WAITING) ts" "zombie_queue s = 0"
  shows "sched_ok s i c ts []"
  using assms distinct_map [of "\<lambda>t. t_pid (task s t)" "c # ts"] unfolding sched_ok_def
  by (auto simp: list_all_iff simp del: distinct.simps)

definition view :: "u32 list \<Rightarrow> sched \<Rightarrow> u32 list \<times> 8 word \<times> (u32 \<times> u32 \<times> task_state) list" where
  "view ts s = ([current_task s, waiting_queue s, zombie_queue s, idle_task_pid s], scheduler_tick_count s,
     map (\<lambda>t. (t_next (task s t), t_pid (task s t), t_state (task s t))) ts)"

lemma sample_run_view:
  "map_option (view [0x100, 0x200, 0x300, 0x400, 0x500]) sample_run =
     Some ([0x400, 0x100, 0, 1], 0, [(0x200, 1, TASK_WAITING), (0x300, 2, TASK_WAITING), (0x500, 3, TASK_WAITING), (0, 4, TASK_RUNNING),
       (0, 5, TASK_WAITING)])"
  by code_simp

lemma sample_block_view:
  "map_option (view [0x100, 0x200, 0x300, 0x400, 0x500]) sample_block =
     Some ([0x200, 0x300, 0, 1], 0, [(0, 1, TASK_WAITING), (0, 2, TASK_RUNNING), (0x100, 3, TASK_WAITING), (0, 4, TASK_BLOCKED),
       (0, 5, TASK_WAITING)])"
  by code_simp

lemma sample_run_ok: "\<exists>s. sample_run = Some s \<and> sched_ok s 0x100 0x400 [0x100, 0x200, 0x300, 0x500] [] \<and> scheduler_tick_count s = 0"
proof -
  obtain s where s: "sample_run = Some s" and v: "view [0x100, 0x200, 0x300, 0x400, 0x500] s = ([0x400, 0x100, 0, 1], 0, [(0x200, 1, TASK_WAITING), (0x300, 2, TASK_WAITING), (0x500, 3, TASK_WAITING), (0, 4, TASK_RUNNING),
       (0, 5, TASK_WAITING)])"
    using sample_run_view by (cases sample_run) auto
  then have "sched_ok s 0x100 0x400 [0x100, 0x200, 0x300, 0x500] []"
    by (intro sched_okI) (simp_all add: view_def)
  then show ?thesis
    using s v by (intro exI [of _ s]) (simp add: view_def)
qed

lemma sample_block_ok:
  "\<exists>s. sample_block = Some s \<and> sched_ok s 0x100 0x200 [0x300, 0x100] [] \<and> scheduler_tick_count s = 0 \<and>
     t_state (task s 0x500) = TASK_WAITING"
proof -
  obtain s where s: "sample_block = Some s" and v: "view [0x100, 0x200, 0x300, 0x400, 0x500] s = ([0x200, 0x300, 0, 1], 0, [(0, 1, TASK_WAITING), (0, 2, TASK_RUNNING), (0x100, 3, TASK_WAITING), (0, 4, TASK_BLOCKED),
       (0, 5, TASK_WAITING)])"
    using sample_block_view by (cases sample_block) auto
  then have "sched_ok s 0x100 0x200 [0x300, 0x100] []"
    by (intro sched_okI) (simp_all add: view_def)
  then show ?thesis
    using s v by (intro exI [of _ s]) (simp add: view_def)
qed

subsection \<open>Properties\<close>

text \<open>C33. No task starves: while tasks only give way to the timer, every waiting task other than the idle task runs after at
  most as many ticks as there were tasks in the queue, and at every moment exactly the same tasks are running
  or waiting.\<close>

theorem sched_every_task_runs:
  assumes "sched_ok s i c ts zs" and "scheduler_tick_count s = 0"
  shows "(\<forall>t\<in>set ts. t \<noteq> i \<longrightarrow> (\<exists>n u. 0 < n \<and> n \<le> length ts \<and> ticks n s = Some u \<and> current_task u = t)) \<and>
    (\<forall>n. \<exists>u c' ts'. ticks n s = Some u \<and> sched_ok u i c' ts' zs \<and> set (c' # ts') = set (c # ts))"
proof (intro conjI ballI impI allI)
  fix t assume t: "t \<in> set ts" "t \<noteq> i"
  then obtain as bs where ts: "ts = as @ t # bs"
    by (metis split_list)
  have "distinct (c # as @ t # bs)"
    using assms(1) ts by (simp add: sched_ok_def)
  then obtain n where n: "0 < n" "n \<le> Suc (length as)" "fst ((round_robin i ^^ n) (c, ts)) = t"
    using round_robin_reaches [OF t(2)] ts by blast
  obtain ts' where "(round_robin i ^^ n) (c, ts) = (t, ts')"
    using n(3) by (metis prod.collapse)
  from ticks_ok [OF assms this] obtain u where "ticks n s = Some u" "sched_ok u i t ts' zs"
    by blast
  then show "\<exists>n u. 0 < n \<and> n \<le> length ts \<and> ticks n s = Some u \<and> current_task u = t"
    using n ts by (intro exI [of _ n] exI [of _ u]) (simp add: sched_ok_def)
next
  fix n
  obtain c' ts' where "(round_robin i ^^ n) (c, ts) = (c', ts')"
    by fastforce
  from ticks_ok [OF assms this] round_robin_iter_set [OF this]
  show "\<exists>u c' ts'. ticks n s = Some u \<and> sched_ok u i c' ts' zs \<and> set (c' # ts') = set (c # ts)"
    by blast
qed

theorem sched_every_task_runs_witness:
  "\<exists>s n u. sample_run = Some s \<and> n \<le> 4 \<and> ticks n s = Some u \<and> current_task u = 0x500"
proof -
  obtain s where s: "sample_run = Some s" "sched_ok s 0x100 0x400 [0x100, 0x200, 0x300, 0x500] []" "scheduler_tick_count s = 0"
    using sample_run_ok by blast
  have "\<exists>n u. 0 < n \<and> n \<le> length [0x100, 0x200, 0x300, 0x500 :: u32] \<and> ticks n s = Some u \<and> current_task u = 0x500"
    by (rule conjunct1 [OF sched_every_task_runs [OF s(2,3)], THEN bspec, THEN mp]) simp_all
  moreover have "length [0x100, 0x200, 0x300, 0x500 :: u32] = 4"
    by simp
  ultimately obtain n u where "n \<le> 4" "ticks n s = Some u" "current_task u = 0x500"
    by metis
  then show ?thesis
    using s(1) by blast
qed

text \<open>C34. A task can be lost: the first task taken from the queue keeps its \<open>prev\<close> pointer and so does its successor. When a
  task that runs blocks, removing it from the queue writes through the stale pointer and cuts the waiting
  queue. In the run above the task that was added last is still marked as waiting but never runs again.\<close>

theorem sched_task_lost:
  "\<exists>s. sample_block = Some s \<and> t_state (task s 0x500) = TASK_WAITING \<and>
     (\<forall>n. \<exists>u. ticks n s = Some u \<and> current_task u \<noteq> 0x500)"
proof -
  obtain s where s: "sample_block = Some s" "sched_ok s 0x100 0x200 [0x300, 0x100] []" "scheduler_tick_count s = 0"
      "t_state (task s 0x500) = TASK_WAITING"
    using sample_block_ok by blast
  have "\<exists>u. ticks n s = Some u \<and> current_task u \<noteq> 0x500" for n
  proof -
    obtain c' ts' where r: "(round_robin 0x100 ^^ n) (0x200, [0x300, 0x100]) = (c', ts')"
      by fastforce
    obtain u where "ticks n s = Some u" "sched_ok u 0x100 c' ts' []"
      using ticks_ok [OF s(2,3) r] by blast
    moreover have "c' \<in> {0x200, 0x300, 0x100}"
      using round_robin_iter_set [OF r] by auto
    ultimately show ?thesis
      by (auto simp: sched_ok_def)
  qed
  then show ?thesis
    using s(1,4) by blast
qed

end
