(* ===== verification/Task.thy ===== *)
theory Task
  imports Sched
begin

section \<open>Tasks\<close>

text \<open>
  \<open>kernel/kernel/task/task.c\<close>: the array of tasks and the process numbers it hands out, the end of a task and
  the reaping of children, the descriptor table and the first stack frame of a task. The states of the
  scheduler are those of \<open>Sched\<close>. Kernel stacks and page directories come from the memory managers, of which
  only the failure is visible here.
\<close>

subsection \<open>The array of tasks\<close>

definition TASKS_LIST_REALLOC_SIZE :: nat where "TASKS_LIST_REALLOC_SIZE = 10"

fun first_free :: "u32 list \<Rightarrow> nat \<Rightarrow> nat option" where
  "first_free [] i = None"
| "first_free (x # xs) i = (if x = 0 then Some i else first_free xs (i + 1))"

text \<open>\<open>t\<close> is the zeroed structure \<open>kmalloc_flags\<close> returned, \<open>q\<close> and \<open>cq\<close> the two wait objects.\<close>

definition task_allocate :: "sched \<Rightarrow> u32 \<Rightarrow> u32 \<Rightarrow> u32 \<Rightarrow> sched" where
  "task_allocate s t q cq =
     (let s = upd_task t (\<lambda>x. x\<lparr>t_waiting_queue := q, t_children_wait_queue := cq\<rparr>) s;
          s = s\<lparr>wait_at := (wait_at s)(q := wait_allocate_event, cq := wait_allocate_event)\<rparr>;
          s = (if of_nat (length (tasks s)) = tasks_present s then
                 let s = s\<lparr>tasks := tasks s @ replicate TASKS_LIST_REALLOC_SIZE 0\<rparr>;
                     s = s\<lparr>tasks := (tasks s)[unat (tasks_present s) := t]\<rparr>;
                     s = upd_task t (\<lambda>x. x\<lparr>t_pid := tasks_present s\<rparr>) s in
                 s\<lparr>tasks_present := tasks_present s + 1\<rparr>
               else case first_free (tasks s) 0 of
                 None \<Rightarrow> s
               | Some i \<Rightarrow>
                   let s = s\<lparr>tasks := (tasks s)[i := t]\<rparr>;
                       s = upd_task t (\<lambda>x. x\<lparr>t_pid := of_nat i\<rparr>) s in
                   s\<lparr>tasks_present := tasks_present s + 1\<rparr>) in
      upd_task t (\<lambda>x. x\<lparr>t_pgid := t_pid x\<rparr>) s)"

definition task_get_tasks_count :: "sched \<Rightarrow> u32" where
  "task_get_tasks_count s = tasks_present s"

fun nth_task :: "u32 list \<Rightarrow> u32 \<Rightarrow> u32 \<Rightarrow> u32" where
  "nth_task [] found index = 0"
| "nth_task (x # xs) found index =
     (if x \<noteq> 0 then if found = index then x else nth_task xs (found + 1) index else nth_task xs found index)"

definition task_get_task_by_index :: "sched \<Rightarrow> u32 \<Rightarrow> u32" where
  "task_get_task_by_index s index = (if index \<ge> tasks_present s then 0 else nth_task (tasks s) 0 index)"

fun find_pid :: "sched \<Rightarrow> u32 list \<Rightarrow> u32 \<Rightarrow> u32" where
  "find_pid s [] pid = 0"
| "find_pid s (x # xs) pid = (if x \<noteq> 0 \<and> t_pid (task s x) = pid then x else find_pid s xs pid)"

definition task_get_task_by_pid :: "sched \<Rightarrow> u32 \<Rightarrow> u32" where
  "task_get_task_by_pid s pid = find_pid s (tasks s) pid"

fun group_of :: "sched \<Rightarrow> u32 list \<Rightarrow> u32 \<Rightarrow> u32 list" where
  "group_of s [] pgid = []"
| "group_of s (x # xs) pgid = (if x \<noteq> 0 \<and> t_pgid (task s x) = pgid then x # group_of s xs pgid else group_of s xs pgid)"

text \<open>The result is an array that ends with \<open>NULL\<close>.\<close>

definition task_get_tasks_by_pgid :: "sched \<Rightarrow> u32 \<Rightarrow> u32 list" where
  "task_get_tasks_by_pgid s pgid = group_of s (tasks s) pgid @ [0]"

subsection \<open>Parents and children\<close>

partial_function (option) last_sibling :: "sched \<Rightarrow> u32 \<Rightarrow> u32 option" where
  "last_sibling s t = (if t_next_sibling (task s t) \<noteq> 0 then last_sibling s (t_next_sibling (task s t)) else Some t)"

definition adopt :: "sched \<Rightarrow> u32 \<Rightarrow> u32 \<Rightarrow> sched option" where
  "adopt s parent child =
     (let s = upd_task child (\<lambda>x. x\<lparr>t_parent := parent\<rparr>) s in
      if parent = 0 then Some s
      else if t_first_child (task s parent) = 0 then Some (upd_task parent (\<lambda>x. x\<lparr>t_first_child := child\<rparr>) s)
      else do {
        l \<leftarrow> last_sibling s (t_first_child (task s parent));
        let s = upd_task l (\<lambda>x. x\<lparr>t_next_sibling := child\<rparr>) s;
        Some (upd_task child (\<lambda>x. x\<lparr>t_prev_sibling := l\<rparr>) s)
      })"

partial_function (option) orphan_children :: "sched \<Rightarrow> u32 \<Rightarrow> u32 \<Rightarrow> sched option" where
  "orphan_children s current child =
     (if child = 0 then Some s
      else
        let next_child = t_next_sibling (task s child) in
        if t_state (task s child) = TASK_ZOMBIE
        then do { s \<leftarrow> scheduler_move_task_to_state s child TASK_DEAD; orphan_children s current next_child }
        else orphan_children (upd_task child (\<lambda>x. x\<lparr>t_parent := t_parent (task s current)\<rparr>) s) current next_child)"

text \<open>\<open>task_exit\<close> does not return; the result is the state after the processor is given up.\<close>

definition task_exit :: "sched \<Rightarrow> u32 \<Rightarrow> sched option" where
  "task_exit s exit_code =
     (let current = scheduler_get_current_task s in
      if current = 0 then None
      else do {
        let s = upd_task current (\<lambda>x. x\<lparr>t_exit_code := exit_code\<rparr>) s;
        s \<leftarrow> scheduler_move_task_to_state s current TASK_ZOMBIE;
        s \<leftarrow> wait_wake_up s (t_waiting_queue (task s current));
        s \<leftarrow> (if t_parent (task s current) \<noteq> 0
              then wait_wake_up s (t_children_wait_queue (task s (t_parent (task s current))))
              else Some s);
        s \<leftarrow> orphan_children s current (t_first_child (task s current));
        scheduler_yield s
      })"

partial_function (option) find_child :: "sched \<Rightarrow> u32 \<Rightarrow> u32 \<Rightarrow> u32 option" where
  "find_child s child pid =
     (if child = 0 then Some 0
      else if t_pid (task s child) \<noteq> pid then find_child s (t_next_sibling (task s child)) pid
      else Some child)"

text \<open>The two conditions a parent waits for. The exit code is stored through a pointer of the caller; the model of
  \<open>task_wait\<close> reads it from the child, as the code does once more after the wait.\<close>

definition task_wait_for_child :: "u32 \<Rightarrow> sched \<Rightarrow> (bool \<times> sched) option" where
  "task_wait_for_child pid s =
     (let parent = scheduler_get_current_task s in
      if parent = 0 then Some (False, s)
      else do {
        child \<leftarrow> find_child s (t_first_child (task s parent)) pid;
        if child = 0 then Some (False, s)
        else if t_state (task s child) \<noteq> TASK_ZOMBIE then Some (False, s)
        else Some (True, s)
      })"

partial_function (option) find_zombie :: "sched \<Rightarrow> u32 \<Rightarrow> u32 option" where
  "find_zombie s child =
     (if child \<noteq> 0 \<and> t_state (task s child) \<noteq> TASK_ZOMBIE then find_zombie s (t_next_sibling (task s child)) else Some child)"

definition task_wait_for_any_child :: "sched \<Rightarrow> (bool \<times> sched) option" where
  "task_wait_for_any_child s =
     (let parent = scheduler_get_current_task s in
      if parent = 0 then Some (False, s)
      else do {
        child \<leftarrow> find_zombie s (t_first_child (task s parent));
        if child = 0 then Some (False, s) else Some (True, s\<lparr>any_child_zombie_found := child\<rparr>)
      })"

text \<open>What \<open>task_wait\<close> does with the child it has waited for.\<close>

definition reap :: "sched \<Rightarrow> u32 \<Rightarrow> u32 \<Rightarrow> sched" where
  "reap s parent child =
     (let s = (if t_prev_sibling (task s child) \<noteq> 0
               then upd_task (t_prev_sibling (task s child)) (\<lambda>x. x\<lparr>t_next_sibling := t_next_sibling (task s child)\<rparr>) s
               else upd_task parent (\<lambda>x. x\<lparr>t_first_child := t_next_sibling (task s child)\<rparr>) s);
          s = (if t_next_sibling (task s child) \<noteq> 0
               then upd_task (t_next_sibling (task s child)) (\<lambda>x. x\<lparr>t_prev_sibling := t_prev_sibling (task s child)\<rparr>) s
               else s) in
      upd_task child (\<lambda>x. x\<lparr>t_prev_sibling := 0, t_next_sibling := 0, t_state := TASK_DEAD\<rparr>) s)"

text \<open>The result, the exit code and the state. \<open>others\<close> and \<open>grown\<close> are those of \<open>wait_on_condition\<close>.\<close>

definition task_wait ::
  "(sched \<Rightarrow> sched option) \<Rightarrow> bool \<Rightarrow> sched \<Rightarrow> 32 word \<Rightarrow> (32 word \<times> u32 \<times> sched) option" where
  "task_wait others grown s pid =
     (let parent = scheduler_get_current_task s in
      if t_first_child (task s parent) = 0 then Some (-1, 0, s)
      else if 0 \<le> sint pid then do {
        child \<leftarrow> find_child s (t_first_child (task s parent)) pid;
        if child = 0 then Some (-2, 0, s)
        else do {
          s \<leftarrow> wait_on_condition others grown s (t_waiting_queue (task s child)) (task_wait_for_child pid);
          let code = t_exit_code (task s child);
          let s = reap s parent child;
          Some (t_pid (task s child), code, s)
        }
      }
      else do {
        s \<leftarrow> wait_on_condition others grown s (t_children_wait_queue (task s parent)) task_wait_for_any_child;
        let reaped = any_child_zombie_found s;
        let code = t_exit_code (task s reaped);
        let s = reap s parent reaped;
        Some (t_pid (task s reaped), code, s)
      })"

subsection \<open>File descriptors\<close>

text \<open>A descriptor is the open file (\<open>0\<close> when it was closed) and its number; \<open>handler\<close> is the file to enter.\<close>

fun reuse_fd :: "(u32 \<times> u32) list \<Rightarrow> u32 \<Rightarrow> int \<Rightarrow> (u32 \<times> (u32 \<times> u32) list) + int" where
  "reuse_fd [] handler largest = Inr largest"
| "reuse_fd ((file, ident) # ds) handler largest =
     (if file = 0 then Inl (ident, (handler, ident) # ds)
      else case reuse_fd ds handler (if sint ident > largest then sint ident else largest) of
        Inl (n, ds') \<Rightarrow> Inl (n, (file, ident) # ds')
      | Inr l \<Rightarrow> Inr l)"

definition task_add_fd :: "(u32 \<times> u32) list \<Rightarrow> u32 \<Rightarrow> u32 option \<times> (u32 \<times> u32) list" where
  "task_add_fd fd handler =
     (if handler = 0 then (None, fd)
      else case reuse_fd fd handler (-1) of
        Inl (n, fd) \<Rightarrow> (Some n, fd)
      | Inr largest \<Rightarrow> (Some (word_of_int (largest + 1)), fd @ [(handler, word_of_int (largest + 1))]))"

subsection \<open>The first stack frame\<close>

text \<open>The words pushed, the last one first; \<open>context.esp\<close> is the address of the head. The addresses of the trampoline
  and of the return point come from the assembler.\<close>

definition task_setup_initial_stack :: "u32 \<Rightarrow> u32 \<Rightarrow> u32 \<Rightarrow> bool \<Rightarrow> u32 \<Rightarrow> u32 \<Rightarrow> u32 list" where
  "task_setup_initial_stack trampoline return_point entrypoint is_kernel user_esp user_stack_top =
     (let stack = [];
          stack = (if \<not> is_kernel then
                     let stack = (if user_esp = 0 then trampoline # stack else stack);
                         stack = 0x23 # stack in
                     (if user_esp \<noteq> 0 then user_esp else user_stack_top) # stack
                   else trampoline # stack);
          stack = 0x202 # stack;
          stack = (if is_kernel then 0x08 else 0x1B) # stack;
          stack = entrypoint # stack;
          stack = 0 # stack;
          stack = 0 # stack;
          seg = (if is_kernel then 0x10 else 0x23);
          stack = seg # seg # seg # seg # stack;
          stack = 0 # 0 # 0 # 0 # 0 # 0 # 0 # 0 # stack;
          stack = return_point # stack in
      0 # 0 # 0 # 0 # stack)"

text \<open>The registers saved on entry to a system call and what \<open>task_fork\<close> writes into the frame of the child.\<close>

record saved_regs =
  s_eax :: u32
  s_ecx :: u32
  s_edx :: u32
  s_ebx :: u32
  s_ebp :: u32
  s_esi :: u32
  s_edi :: u32
  s_eip :: u32
  s_esp :: u32

definition task_save_syscall_user_context :: "u32 list \<Rightarrow> saved_regs" where
  "task_save_syscall_user_context frame =
     \<lparr>s_eax = frame ! 0, s_ecx = frame ! 1, s_edx = frame ! 2, s_ebx = frame ! 3, s_ebp = frame ! 4, s_esi = frame ! 5,
      s_edi = frame ! 6, s_eip = frame ! 7, s_esp = frame ! 10\<rparr>"

definition fork_stack :: "u32 \<Rightarrow> u32 \<Rightarrow> u32 \<Rightarrow> saved_regs \<Rightarrow> u32 list" where
  "fork_stack trampoline return_point user_stack_top r =
     (let child_stack = task_setup_initial_stack trampoline return_point (s_eip r) False (s_esp r) user_stack_top in
      child_stack[5 := s_edi r, 6 := s_esi r, 7 := s_ebp r, 9 := s_ebx r, 10 := s_edx r, 11 := s_ecx r])"

definition task_set_fork_child_return :: "u32 list \<Rightarrow> u32 list" where
  "task_set_fork_child_return stack = stack[36 div 4 := 0]"

declare last_sibling.simps [code] orphan_children.simps [code] find_child.simps [code] find_zombie.simps [code]

subsection \<open>The array is well formed\<close>

text \<open>The process number of a task is its index, and \<open>tasks_present\<close> counts the entries.\<close>

definition table_ok :: "sched \<Rightarrow> bool" where
  "table_ok s \<longleftrightarrow> length (tasks s) < 2 ^ 31 \<and> unat (tasks_present s) = length (filter (\<lambda>t. t \<noteq> 0) (tasks s)) \<and>
     (\<forall>i<length (tasks s). tasks s ! i \<noteq> 0 \<longrightarrow> t_pid (task s (tasks s ! i)) = of_nat i)"

lemma first_free_Some:
  "first_free xs k = Some i \<Longrightarrow> k \<le> i \<and> i < k + length xs \<and> xs ! (i - k) = 0"
proof (induction xs arbitrary: k)
  case (Cons x xs)
  show ?case
  proof (cases "x = 0")
    case True
    then show ?thesis
      using Cons.prems by simp
  next
    case False
    then have "first_free xs (k + 1) = Some i"
      using Cons.prems by simp
    from Cons.IH [OF this] show ?thesis
      by (auto simp: nth_Cons')
  qed
qed simp

lemma first_free_None: "first_free xs k = None \<longleftrightarrow> 0 \<notin> set xs"
  by (induction xs arbitrary: k) auto

lemma count_full: "length (filter (\<lambda>t. t \<noteq> 0) xs) = length xs \<longleftrightarrow> (0 :: u32) \<notin> set xs"
proof (induction xs)
  case (Cons x xs)
  then show ?case
    using le_imp_less_Suc [OF length_filter_le, of "\<lambda>t. t \<noteq> 0" xs] by auto
qed simp

lemma count_update:
  "i < length xs \<Longrightarrow> xs ! i = 0 \<Longrightarrow> t \<noteq> 0 \<Longrightarrow>
    length (filter (\<lambda>t. t \<noteq> (0 :: u32)) (xs[i := t])) = Suc (length (filter (\<lambda>t. t \<noteq> 0) xs))"
  by (induction xs arbitrary: i) (auto simp: nth_Cons' split: nat.splits)

lemma count_clear:
  "i < length xs \<Longrightarrow> xs ! i \<noteq> 0 \<Longrightarrow>
    Suc (length (filter (\<lambda>t. t \<noteq> (0 :: u32)) (xs[i := 0]))) = length (filter (\<lambda>t. t \<noteq> 0) xs)"
  by (induction xs arbitrary: i) (auto simp: nth_Cons' split: nat.splits)

text \<open>Entering a task into a free place of the array.\<close>

lemma enter_ok:
  assumes "table_ok s" "i < length xs" "xs ! i = 0" "length xs < 2 ^ 31" "t \<noteq> 0" "t \<notin> set (tasks s)"
    and "xs = tasks s \<or> xs = tasks s @ replicate n 0"
    and "tasks u = xs[i := t]" "tasks_present u = tasks_present s + 1" "t_pid (task u t) = of_nat i"
    and "\<And>x. x \<noteq> t \<Longrightarrow> t_pid (task u x) = t_pid (task s x)"
  shows "table_ok u"
proof -
  have nz: "filter (\<lambda>t. t \<noteq> 0) xs = filter (\<lambda>t. t \<noteq> 0) (tasks s)"
    using assms(7) by auto
  have "unat (tasks_present s) = length (filter (\<lambda>t. t \<noteq> 0) xs)"
    using assms(1) nz by (simp add: table_ok_def)
  moreover have "length (filter (\<lambda>t. t \<noteq> 0) xs) < 2 ^ 31"
    using assms(4) length_filter_le le_less_trans by blast
  ultimately have "unat (tasks_present u) = Suc (length (filter (\<lambda>t. t \<noteq> 0) xs))"
    using assms(9) by (simp add: unat_plus_if')
  moreover have "length (filter (\<lambda>t. t \<noteq> 0) (tasks u)) = Suc (length (filter (\<lambda>t. t \<noteq> 0) xs))"
    unfolding assms(8) by (rule count_update [OF assms(2,3,5)])
  moreover have "t_pid (task u (tasks u ! k)) = of_nat k" if k: "k < length (tasks u)" "tasks u ! k \<noteq> 0" for k
  proof (cases "k = i")
    case True
    then show ?thesis
      using assms(2,8,10) by simp
  next
    case False
    then have e: "tasks u ! k = xs ! k"
      using assms(8) by simp
    then have kk: "k < length (tasks s)" "xs ! k = tasks s ! k"
      using assms(7,8) k by (auto simp: nth_append split: if_splits)
    then have "tasks s ! k \<noteq> t"
      using assms(6) nth_mem by metis
    then show ?thesis
      using assms(1,11) e kk k(2) by (simp add: table_ok_def)
  qed
  ultimately show ?thesis
    using assms(4,8) by (simp add: table_ok_def)
qed

lemma allocate_ok:
  assumes "table_ok s" "t \<noteq> 0" "t \<notin> set (tasks s)" "length (tasks s) + TASKS_LIST_REALLOC_SIZE < 2 ^ 31"
  shows "\<exists>i. i < length (tasks (task_allocate s t q cq)) \<and> tasks (task_allocate s t q cq) ! i = t \<and>
    t_pid (task (task_allocate s t q cq) t) = of_nat i \<and> table_ok (task_allocate s t q cq) \<and>
    set (tasks s) - {0} \<subseteq> set (tasks (task_allocate s t q cq)) \<and> (i < length (tasks s) \<longrightarrow> tasks s ! i = 0) \<and>
    tasks_present (task_allocate s t q cq) = tasks_present s + 1"
proof -
  let ?u = "task_allocate s t q cq"
  have cnt: "unat (tasks_present s) = length (filter (\<lambda>t. t \<noteq> 0) (tasks s))" and len: "length (tasks s) < 2 ^ 31"
    using assms(1) by (simp_all add: table_ok_def)
  have full: "of_nat (length (tasks s)) = tasks_present s \<longleftrightarrow> 0 \<notin> set (tasks s)"
  proof -
    have "of_nat (length (tasks s)) = tasks_present s \<longleftrightarrow> length (tasks s) = unat (tasks_present s)"
    proof
      assume "of_nat (length (tasks s)) = tasks_present s"
      then show "length (tasks s) = unat (tasks_present s)"
        using len by (intro unat_eqI [symmetric]) simp_all
    next
      assume "length (tasks s) = unat (tasks_present s)"
      then show "of_nat (length (tasks s)) = tasks_present s"
        by (rule word_eq_of_nat [OF sym, symmetric])
    qed
    also have "\<dots> \<longleftrightarrow> length (filter (\<lambda>t. t \<noteq> 0) (tasks s)) = length (tasks s)"
      unfolding cnt by (rule eq_commute)
    finally show ?thesis
      unfolding count_full .
  qed
  show ?thesis
  proof (cases "0 \<in> set (tasks s)")
    case False
    let ?xs = "tasks s @ replicate TASKS_LIST_REALLOC_SIZE 0"
    have n: "unat (tasks_present s) = length (tasks s)"
      using cnt False count_full [of "tasks s"] by simp
    have u: "tasks ?u = ?xs[length (tasks s) := t]" "tasks_present ?u = tasks_present s + 1" "t_pid (task ?u t) = of_nat (length (tasks s))"
      using full False n word_eq_of_nat [OF n] by (simp_all add: task_allocate_def Let_def upd_task_def)
    have p: "t_pid (task ?u x) = t_pid (task s x)" if "x \<noteq> t" for x
      using full False that by (simp add: task_allocate_def Let_def upd_task_def)
    have len': "length (tasks s) < length ?xs" "?xs ! length (tasks s) = 0" "length ?xs < 2 ^ 31"
      using assms(4) by (simp_all add: TASKS_LIST_REALLOC_SIZE_def nth_append)
    have "table_ok ?u"
      by (rule enter_ok [where n = TASKS_LIST_REALLOC_SIZE, OF assms(1) len' assms(2,3) _ u p]) simp_all
    moreover have "set (tasks s) - {0} \<subseteq> set (tasks ?u)"
      unfolding u(1) by (auto simp: list_update_append)
    ultimately show ?thesis
      using u len' by (intro exI [of _ "length (tasks s)"]) simp
  next
    case True
    then obtain i where f: "first_free (tasks s) 0 = Some i"
      using first_free_None [of "tasks s" 0] by auto
    have i: "i < length (tasks s)" "tasks s ! i = 0"
      using first_free_Some [OF f] by simp_all
    have u: "tasks ?u = (tasks s)[i := t]" "tasks_present ?u = tasks_present s + 1" "t_pid (task ?u t) = of_nat i"
      using full True f by (simp_all add: task_allocate_def Let_def upd_task_def)
    have p: "t_pid (task ?u x) = t_pid (task s x)" if "x \<noteq> t" for x
      using full True f that by (simp add: task_allocate_def Let_def upd_task_def)
    have "table_ok ?u"
      by (rule enter_ok [where n = 0, OF assms(1) i len assms(2,3) _ u p]) simp_all
    moreover have "set (tasks s) - {0} \<subseteq> set (tasks ?u)"
    proof
      fix x assume "x \<in> set (tasks s) - {0}"
      then obtain k where "k < length (tasks s)" "tasks s ! k = x" "k \<noteq> i"
        using i(2) by (auto simp: in_set_conv_nth)
      then show "x \<in> set (tasks ?u)"
        unfolding u(1) by (metis length_list_update nth_list_update_neq nth_mem)
    qed
    ultimately show ?thesis
      using u(2,3) i by (intro exI [of _ i] conjI) (assumption | simp add: u(1))+
  qed
qed

lemma find_pid_nth:
  assumes "\<forall>i<length xs. xs ! i \<noteq> 0 \<longrightarrow> t_pid (task s (xs ! i)) = of_nat (k + i)" "k + length xs < 2 ^ 31"
    and "j < length xs" "xs ! j \<noteq> 0"
  shows "find_pid s xs (of_nat (k + j)) = xs ! j"
  using assms
proof (induction xs arbitrary: k j)
  case (Cons x xs)
  have pid: "x \<noteq> 0 \<Longrightarrow> t_pid (task s x) = of_nat k"
    using Cons.prems(1) by force
  show ?case
  proof (cases j)
    case 0
    then show ?thesis
      using pid Cons.prems(4) by simp
  next
    case (Suc j')
    have "(of_nat k :: u32) \<noteq> of_nat (k + j)"
    proof
      assume "(of_nat k :: u32) = of_nat (k + j)"
      moreover have "unat (of_nat k :: u32) = k" "unat (of_nat (k + j) :: u32) = k + j"
        using Cons.prems(2,3) by (auto intro!: unat_eqI)
      ultimately have "k = k + j"
        by metis
      then show False
        using Suc by simp
    qed
    moreover have "\<forall>i<length xs. xs ! i \<noteq> 0 \<longrightarrow> t_pid (task s (xs ! i)) = of_nat (Suc k + i)"
      using Cons.prems(1) by force
    then have "find_pid s xs (of_nat (Suc k + j')) = xs ! j'"
      using Cons.prems(2-4) Suc by (intro Cons.IH) simp_all
    then have "find_pid s xs (of_nat (k + j)) = xs ! j'"
      using Suc by simp
    ultimately show ?thesis
      using pid Suc by (cases "x = 0") simp_all
  qed
qed simp

lemma by_pid_none:
  assumes "table_ok s" "i < 2 ^ 31" "i < length (tasks s) \<longrightarrow> tasks s ! i = 0"
  shows "task_get_task_by_pid s (of_nat i) = 0"
proof -
  have "find_pid s xs p = 0" if "\<forall>x\<in>set xs. x \<noteq> 0 \<longrightarrow> t_pid (task s x) \<noteq> p" for xs p
    using that by (induction xs) auto
  moreover have "t_pid (task s x) \<noteq> of_nat i" if x: "x \<in> set (tasks s)" "x \<noteq> 0" for x
  proof
    assume p: "t_pid (task s x) = of_nat i"
    obtain k where k: "k < length (tasks s)" "tasks s ! k = x"
      using x(1) by (auto simp: in_set_conv_nth)
    then have "(of_nat k :: u32) = of_nat i" "k < 2 ^ 31"
      using assms(1) x(2) p by (auto simp: table_ok_def)
    moreover have "unat (of_nat k :: u32) = k" "unat (of_nat i :: u32) = i"
      using \<open>k < 2 ^ 31\<close> assms(2) by (auto intro!: unat_eqI)
    ultimately have "k = i"
      by metis
    then show False
      using assms(3) k x(2) by simp
  qed
  ultimately show ?thesis
    by (simp add: task_get_task_by_pid_def)
qed

lemma by_pid_ok:
  assumes "table_ok s" "i < length (tasks s)" "tasks s ! i \<noteq> 0"
  shows "task_get_task_by_pid s (of_nat i) = tasks s ! i"
  using find_pid_nth [of "tasks s" s 0 i] assms by (simp add: table_ok_def task_get_task_by_pid_def)

lemma destroy_ok:
  assumes "table_ok s" "i < length (tasks s)" "tasks s ! i = t" "t \<noteq> 0"
  shows "table_ok (task_destroy s t) \<and> tasks (task_destroy s t) = (tasks s)[i := 0]"
proof -
  have pid: "unat (t_pid (task s t)) = i"
    using assms by (intro unat_eqI) (auto simp: table_ok_def)
  have d: "tasks (task_destroy s t) = (tasks s)[i := 0]" "tasks_present (task_destroy s t) = tasks_present s - 1"
      "task (task_destroy s t) = task s"
    using assms(4) pid by (simp_all add: task_destroy_def)
  have c: "Suc (length (filter (\<lambda>t. t \<noteq> 0) ((tasks s)[i := 0]))) = unat (tasks_present s)"
    using count_clear [OF assms(2)] assms(1,3,4) by (simp add: table_ok_def)
  then have "tasks_present s \<noteq> 0"
    by auto
  then have "unat (tasks_present s - 1) = length (filter (\<lambda>t. t \<noteq> 0) ((tasks s)[i := 0]))"
    using c unat_pred by simp
  moreover have "t_pid (task s ((tasks s)[i := 0] ! k)) = of_nat k" if "k < length (tasks s)" "(tasks s)[i := 0] ! k \<noteq> 0" for k
    using assms(1,2) that by (cases "k = i") (simp_all add: table_ok_def)
  ultimately show ?thesis
    using assms(1) d by (simp add: table_ok_def)
qed

subsection \<open>Descriptor numbers\<close>

text \<open>The numbers are the places in the table.\<close>

definition fds_ok :: "(u32 \<times> u32) list \<Rightarrow> bool" where
  "fds_ok fd \<longleftrightarrow> length fd < 2 ^ 31 \<and> (\<forall>i<length fd. snd (fd ! i) = of_nat i)"

lemma sint_of_nat_small:
  assumes "n < 2 ^ 31"
  shows "sint (of_nat n :: u32) = int n"
proof -
  have "unat (of_nat n :: u32) = n"
    using assms by (intro unat_eqI) simp_all
  then have "uint (of_nat n :: u32) = int n"
    by (metis uint_nat)
  then show ?thesis
    using assms by (simp add: sint_uint signed_take_bit_int_eq_self)
qed

lemma reuse_fd_none:
  assumes "\<forall>i<length fd. snd (fd ! i) = of_nat (k + i)" "k + length fd < 2 ^ 31" "\<forall>i<length fd. fst (fd ! i) \<noteq> 0" "l = int k - 1"
  shows "reuse_fd fd h l = Inr (int (k + length fd) - 1)"
  using assms
proof (induction fd arbitrary: k l)
  case (Cons d ds)
  obtain f n where d: "d = (f, n)" by (cases d)
  have f: "f \<noteq> 0" "n = of_nat k"
    using Cons.prems(1,3) d by force+
  have s: "sint n = int k"
    unfolding f(2) using Cons.prems(2) by (intro sint_of_nat_small) simp
  have "reuse_fd ds h (int k) = Inr (int (Suc k + length ds) - 1)"
    using Cons.prems by (intro Cons.IH) force+
  then show ?case
    using d f(1) s Cons.prems(4) by simp
qed simp

lemma reuse_fd_some:
  assumes "i < length fd" "fst (fd ! i) = 0" "\<forall>j<i. fst (fd ! j) \<noteq> 0"
  shows "reuse_fd fd h l = Inl (snd (fd ! i), fd[i := (h, snd (fd ! i))])"
  using assms
proof (induction fd arbitrary: i l)
  case (Cons d ds)
  obtain f n where d: "d = (f, n)" by (cases d)
  show ?case
  proof (cases i)
    case 0
    then show ?thesis
      using Cons.prems d by simp
  next
    case (Suc i')
    have "f \<noteq> 0"
      using Cons.prems(3) Suc d by force
    moreover have "reuse_fd ds h l' = Inl (snd (ds ! i'), ds[i' := (h, snd (ds ! i'))])" for l'
      using Cons.prems Suc by (intro Cons.IH) auto
    ultimately show ?thesis
      using d Suc by simp
  qed
qed simp

text \<open>A new file gets the lowest number that is not in use.\<close>

lemma add_fd_lowest:
  assumes "fds_ok fd" "h \<noteq> 0" "length fd < 2 ^ 31 - 1"
  shows "\<exists>i\<le>length fd. task_add_fd fd h = (Some (of_nat i), if i < length fd then fd[i := (h, of_nat i)] else fd @ [(h, of_nat i)]) \<and>
    (i < length fd \<longrightarrow> fst (fd ! i) = 0) \<and> (\<forall>j<i. fst (fd ! j) \<noteq> 0) \<and> fds_ok (snd (task_add_fd fd h))"
proof (cases "\<exists>i<length fd. fst (fd ! i) = 0")
  case True
  define i where "i = (LEAST i. i < length fd \<and> fst (fd ! i) = 0)"
  have i: "i < length fd" "fst (fd ! i) = 0"
    using LeastI_ex [OF True] by (simp_all add: i_def)
  have "fst (fd ! j) \<noteq> 0" if "j < i" for j
    using not_less_Least [of j "\<lambda>i. i < length fd \<and> fst (fd ! i) = 0"] that i(1) by (simp add: i_def)
  then have least: "\<forall>j<i. fst (fd ! j) \<noteq> 0"
    by blast
  have n: "snd (fd ! i) = of_nat i"
    using assms(1) i(1) by (simp add: fds_ok_def)
  have e: "task_add_fd fd h = (Some (of_nat i), fd[i := (h, of_nat i)])"
    using reuse_fd_some [OF i least, of h "-1"] n assms(2) by (simp add: task_add_fd_def)
  moreover have "fds_ok (fd[i := (h, of_nat i)])"
    using assms(1) i(1) by (auto simp: fds_ok_def nth_list_update)
  ultimately show ?thesis
    using i least by (intro exI [of _ i]) simp
next
  case False
  then have "reuse_fd fd h (-1) = Inr (int (length fd) - 1)"
    using reuse_fd_none [of fd 0 "-1" h] assms(1) by (simp add: fds_ok_def)
  then have e: "task_add_fd fd h = (Some (of_nat (length fd)), fd @ [(h, of_nat (length fd))])"
    using assms(2) by (simp add: task_add_fd_def)
  moreover have "fds_ok (fd @ [(h, of_nat (length fd))])"
    using assms(1,3) by (auto simp: fds_ok_def nth_append less_Suc_eq)
  ultimately show ?thesis
    using False by (intro exI [of _ "length fd"]) simp
qed

subsection \<open>Properties\<close>

text \<open>C35. The array of tasks stays well formed: a new task gets a process number that is free, namely its place in the
  array, and every task of the array is found under its number. Destroying the task frees the number
  and leaves the count as it was before.\<close>

theorem task_table_correct:
  assumes "table_ok s" and "t \<noteq> 0" "t \<notin> set (tasks s)" and "length (tasks s) + TASKS_LIST_REALLOC_SIZE < 2 ^ 31"
    and "u = task_allocate s t q cq"
  shows "table_ok u \<and> task_get_task_by_pid u (t_pid (task u t)) = t \<and> task_get_task_by_pid s (t_pid (task u t)) = 0 \<and>
    table_ok (task_destroy u t) \<and> task_get_task_by_pid (task_destroy u t) (t_pid (task u t)) = 0 \<and>
    task_get_tasks_count (task_destroy u t) = task_get_tasks_count s"
proof -
  obtain i where i: "i < length (tasks u)" "tasks u ! i = t" "t_pid (task u t) = of_nat i" "table_ok u"
      "i < length (tasks s) \<longrightarrow> tasks s ! i = 0" "tasks_present u = tasks_present s + 1"
    using allocate_ok [OF assms(1-4), of q cq] assms(5) by blast
  have lim: "i < 2 ^ 31"
    using i(1,4) by (simp add: table_ok_def)
  note d = destroy_ok [OF i(4,1,2) assms(2)]
  have "tasks_present (task_destroy u t) = tasks_present s"
    using assms(2) i(6) by (simp add: task_destroy_def)
  moreover have "task_get_task_by_pid u (of_nat i) = t"
    using by_pid_ok [OF i(4,1)] i(2) assms(2) by simp
  moreover have "task_get_task_by_pid s (of_nat i) = 0"
    by (rule by_pid_none [OF assms(1) lim i(5)])
  moreover have "task_get_task_by_pid (task_destroy u t) (of_nat i) = 0"
    using d i(1) by (intro by_pid_none lim) auto
  ultimately show ?thesis
    using i(3,4) d by (simp add: task_get_tasks_count_def)
qed

theorem task_table_correct_witness:
  "table_ok sample_sched \<and> t_pid (task (task_allocate sample_sched 0x600 0x700 0x800) 0x600) = 0 \<and>
   task_get_task_by_pid (task_allocate sample_sched 0x600 0x700 0x800) 0 = 0x600"
proof -
  have ok: "table_ok sample_sched"
    by (auto simp: table_ok_def sample_sched_def sample_task_def less_Suc_eq)
  moreover have "t_pid (task (task_allocate sample_sched 0x600 0x700 0x800) 0x600) = 0"
    by code_simp
  moreover have "0x600 \<notin> set (tasks sample_sched)" "length (tasks sample_sched) + TASKS_LIST_REALLOC_SIZE < 2 ^ 31"
    by (simp_all add: sample_sched_def TASKS_LIST_REALLOC_SIZE_def)
  ultimately show ?thesis
    using task_table_correct [OF ok _ _ _ refl, of "0x600" "0x700" "0x800"] by simp
qed



end
