(* ===== verification/Spec2Isabelle.thy ===== *)
theory Spec2Isabelle
  imports Ringbuf Strdict Environ Cstring Ctime Cnumber Cqsort Fork Vmm Task
begin

text \<open>
  \<^bold>\<open>A verification of the stos operating system.\<close>

  The program is a small operating system for i386 PCs: a kernel (\<open>src/kernel\<close>), a C library for its
  user programs (\<open>src/libc\<close>), two support libraries used on both sides (\<open>src/libds\<close>, containers, and
  \<open>src/libtime\<close>, dates) and a set of user programs (\<open>src/usermode\<close>). This development models the parts whose
  correctness is a matter of data and control, translated function by function, and proves what they
  promise. The names of the definitions are those of the source.

  \<^bold>\<open>Conventions\<close> (theory \<open>Prelude\<close>). Pointers, \<open>size_t\<close> and \<open>uint32_t\<close> are \<open>32 word\<close>, with C's wrap-around.
  A call that need not return (a trap, undefined behaviour, \<open>abort\<close>, an endless loop) has an \<open>option\<close>
  result and \<open>None\<close> stands for not returning; NULL and error codes are ordinary values. Loops are
  structural recursion on a counter or a list; a loop that follows pointers or can run for ever is a
  \<open>partial_function\<close>, and the theorems then state that it returns. No fuel is used anywhere.

  \<^bold>\<open>Containers.\<close> \<open>Libds\<close> holds the result codes and the allocator hooks and the contract of a bounded
  queue; \<open>Ringbuf\<close> (\<open>libds/src/ringbuf.c\<close>) shows that the byte-level ring buffer refines it.
  \<open>String_Map\<close> is the contract of a map from names to strings, met by \<open>Strdict\<close>
  (\<open>libds/src/strdict.c\<close>, an array of entries) and by \<open>Environ\<close> (\<open>libc/src/stdlib/*env.c\<close>, the environment
  vector), so that both are used through the same laws; dumping a dictionary and reading it back is the identity.

  \<^bold>\<open>C library.\<close> \<open>Cstring\<close> (\<open>libc/src/string\<close>), \<open>Cctype\<close> (\<open>ctype.h\<close>), \<open>Cnumber\<close> (\<open>strtol\<close>, \<open>strtoul\<close>, \<open>atoi\<close>),
  \<open>Cqsort\<close> (\<open>qsort\<close>) and \<open>Ctime\<close> (\<open>libc/src/time\<close>) give each function its meaning on lists of bytes, integers or
  dates and show where the code departs from it. \<open>Libtime\<close> is the date arithmetic of \<open>libtime/src\<close>,
  proved against the Gregorian calendar.

  \<^bold>\<open>Physical memory.\<close> \<open>Pmm\<close> models \<open>kernel/kernel/memory/pmm.c\<close>: the bit maps, the free lists (doubly linked, theory
  \<open>Dll\<close>) and the buddy operations. \<open>Buddy\<close> has the invariant (the free and the allocated blocks tile the
  memory, the free lists hold exactly the free blocks, no two free buddies are left apart) and the
  correctness of allocation and release. \<open>Pmm_Boot\<close> proves that start-up establishes it from the boot
  loader's memory map and states the contract \<open>page_source\<close>, from which the safety of every later history of calls
  follows.

  \<^bold>\<open>Virtual memory.\<close> \<open>Paging\<close> models \<open>kernel/arch/i386/paging\<close> over one physical memory in which
  directories, tables and data are all frames of words, so that separation has to be proved and is: mapping,
  unmapping, lookup and start-up. \<open>Fork\<close> proves what copying an address space and the
  copy-on-write fault do to every process involved.

  \<open>Vmm\<close> (\<open>kernel/kernel/memory/vmm.c\<close>) is the region list on top: its doubly linked structures refine a list of
  areas, on which allocation is first fit and release is merging, and its used areas own the frames behind
  them.

  \<^bold>\<open>Tasks.\<close> \<open>Sched\<close> models \<open>kernel/kernel/task/scheduler.c\<close> and \<open>wait.c\<close>: the queues, the round-robin choice of the next
  task and the wait objects. Under timer ticks it refines round robin on a list, so every task gets its
  turn; a blocking task can break the queue, which is proved as well. \<open>Task\<close> (\<open>task.c\<close>) has the array of
  tasks, exit and reaping, the descriptor table and the frame a new task starts from.

  \<^bold>\<open>Bounds.\<close> The physical memory manager manages at most \<open>2 ^ 20\<close> pages, all a 32-bit address can name. The map of physical
  memory covers the first GiB; the models identify a frame below that with the address the kernel reaches it at.
  Day numbers in \<open>Ctime\<close> have to fit an \<open>int\<close>.

  \<^bold>\<open>Not modelled.\<close> Spin locks make each call one step; the look-aside buffer, control registers and port
  input and output are the hardware's. Device drivers, interrupt handling, the terminal, the file system
  formats, the ELF loader, the system call stubs and the user programs consist of such effects or of calls
  of the parts above, and are left out; so is all debug output.
\<close>

end
